(* ===== verification/Prelude.thy ===== *)
theory Prelude
  imports Main "HOL-Library.Word" "HOL-Library.Finite_Map"
begin

unbundle bit_operations_syntax

text \<open>
  Shared vocabulary of the development: bytes and Go strings, Go \<open>error\<close> values, the
  big-endian integer codecs of \<open>encoding/binary\<close>, Go slice expressions, finite maps of
  finite maps, runs of step relations, and the proof collections the components extend.

  Conventions:

  \<^item> A Go \<open>error\<close> result is a \<open>go_error option\<close>: \<open>None\<close> is \<open>nil\<close>.

  \<^item> A \<open>[]byte\<close> that may be \<open>nil\<close> is a \<open>bytes option\<close>.

  \<^item> A panic is the value \<open>None\<close> of an outer \<open>option\<close>, documented where it is used.

  \<^item> Go maps are finite maps (\<open>fmap\<close>); iteration order is never fixed by a definition.
\<close>

named_theorems wire_simps "unfolding rules for encoders and decoders"
named_theorems go_defs "definitions of small Go helpers that proofs unfold"

section \<open>Bytes and strings\<close>

type_synonym byte = "8 word"
type_synonym bytes = "byte list"

text \<open>
  A Go string is a sequence of bytes, and so is a HOL \<open>string\<close> (a \<open>char\<close> is one byte).
  \<open>bytes_of_string\<close> is the conversion \<open>[]byte(s)\<close>, \<open>string_of_bytes\<close> is \<open>string(b)\<close>.
\<close>

definition bytes_of_string :: "string \<Rightarrow> bytes" where
  "bytes_of_string s = map (\<lambda>c. word_of_nat (of_char c)) s"

definition string_of_bytes :: "bytes \<Rightarrow> string" where
  "string_of_bytes bs = map (\<lambda>b. char_of (unat b)) bs"

text \<open>Decimal printing of an unsigned integer, as the verb \<open>%d\<close> of \<open>fmt\<close> does it.\<close>

fun digits_rev :: "nat \<Rightarrow> string" where
  "digits_rev n =
     (let d = char_of (48 + n mod 10)
      in if n < 10 then [d] else d # digits_rev (n div 10))"

declare digits_rev.simps [simp del]

definition string_of_nat :: "nat \<Rightarrow> string" where
  "string_of_nat n = rev (digits_rev n)"

definition string_of_int :: "int \<Rightarrow> string" where
  "string_of_int i = (if i < 0 then ''-'' @ string_of_nat (nat (- i)) else string_of_nat (nat i))"

text \<open>The verb \<open>%q\<close> of a string that contains nothing that needs an escape.\<close>

definition quoted :: "string \<Rightarrow> string" where
  "quoted s = [CHR 0x22] @ s @ [CHR 0x22]"

text \<open>\<open>strings.Split\<close> with a separator of one byte.\<close>

fun strings_Split :: "char \<Rightarrow> string \<Rightarrow> string list" where
  "strings_Split sep [] = [[]]"
| "strings_Split sep (c # s) =
     (if c = sep then [] # strings_Split sep s
      else case strings_Split sep s of [] \<Rightarrow> [[c]] | p # ps \<Rightarrow> (c # p) # ps)"

section \<open>Errors\<close>

text \<open>
  The \<open>error\<close> values the program distinguishes: the sentinels of package \<open>io\<close>, a closed
  connection, the errors of a cancelled context, a \<open>net.Error\<close> with its two predicates, a
  plain message (\<open>errors.New\<close>, or \<open>fmt.Errorf\<close> without \<open>%w\<close>) and \<open>fmt.Errorf\<close> with \<open>%w\<close>,
  which keeps the wrapped error.
\<close>

datatype go_error =
    EOF
  | ErrUnexpectedEOF
  | ErrClosed
  | ContextCanceled
  | NetError (net_msg: string) (net_temporary: bool) (net_timeout: bool)
  | ErrorString string
  | Wrapped string go_error

text \<open>The method \<open>Error()\<close>.  A wrapping error prints its own text, then the text of the wrapped one.\<close>

primrec error_text :: "go_error \<Rightarrow> string" where
  "error_text EOF = ''EOF''"
| "error_text ErrUnexpectedEOF = ''unexpected EOF''"
| "error_text ErrClosed = ''use of closed network connection''"
| "error_text ContextCanceled = ''context canceled''"
| "error_text (NetError m _ _) = m"
| "error_text (ErrorString m) = m"
| "error_text (Wrapped m e) = m @ error_text e"

text \<open>\<open>errors.Is\<close>: the error itself or any error it wraps equals the target.\<close>

primrec errors_Is :: "go_error \<Rightarrow> go_error \<Rightarrow> bool" where
  "errors_Is EOF t = (EOF = t)"
| "errors_Is ErrUnexpectedEOF t = (ErrUnexpectedEOF = t)"
| "errors_Is ErrClosed t = (ErrClosed = t)"
| "errors_Is ContextCanceled t = (ContextCanceled = t)"
| "errors_Is (NetError m a b) t = (NetError m a b = t)"
| "errors_Is (ErrorString m) t = (ErrorString m = t)"
| "errors_Is (Wrapped m e) t = (Wrapped m e = t \<or> errors_Is e t)"

section \<open>Reading decimal integers\<close>

text \<open>\<open>strconv.Atoi\<close>: an optional sign and decimal digits, in the range of a 64-bit \<open>int\<close>.\<close>

definition digit_val :: "char \<Rightarrow> nat option" where
  "digit_val c = (if 48 \<le> (of_char c :: nat) \<and> (of_char c :: nat) \<le> 57 then Some (of_char c - 48) else None)"

fun parse_digits :: "nat \<Rightarrow> string \<Rightarrow> nat option" where
  "parse_digits acc [] = Some acc"
| "parse_digits acc (c # cs) =
     (case digit_val c of None \<Rightarrow> None | Some d \<Rightarrow> parse_digits (acc * 10 + d) cs)"

definition NumError :: "string \<Rightarrow> string \<Rightarrow> go_error" where
  "NumError s what = ErrorString (''strconv.Atoi: parsing '' @ quoted s @ '': '' @ what)"

definition Atoi :: "string \<Rightarrow> go_error + int" where
  "Atoi s =
     (let neg = (s \<noteq> [] \<and> hd s = CHR ''-'');
          ds = (if s \<noteq> [] \<and> hd s \<in> {CHR ''-'', CHR ''+''} then tl s else s)
      in if ds = [] then Inl (NumError s ''invalid syntax'')
         else case parse_digits 0 ds of
                None \<Rightarrow> Inl (NumError s ''invalid syntax'')
              | Some n \<Rightarrow>
                  if neg then (if n \<le> 2 ^ 63 then Inr (- int n) else Inl (NumError s ''value out of range''))
                  else if n < 2 ^ 63 then Inr (int n) else Inl (NumError s ''value out of range''))"

section \<open>Big-endian integers\<close>

text \<open>\<open>binary.BigEndian.PutUint32\<close>, \<open>Uint32\<close> and \<open>PutUint64\<close>, shift by shift as in \<open>encoding/binary\<close>.\<close>

definition PutUint32 :: "32 word \<Rightarrow> bytes" where
  "PutUint32 v = [ucast (drop_bit 24 v), ucast (drop_bit 16 v), ucast (drop_bit 8 v), ucast v]"

definition Uint32 :: "bytes \<Rightarrow> 32 word" where
  "Uint32 b = ucast (b ! 3) OR push_bit 8 (ucast (b ! 2))
              OR push_bit 16 (ucast (b ! 1)) OR push_bit 24 (ucast (b ! 0))"

definition PutUint64 :: "64 word \<Rightarrow> bytes" where
  "PutUint64 v = [ucast (drop_bit 56 v), ucast (drop_bit 48 v), ucast (drop_bit 40 v),
                  ucast (drop_bit 32 v), ucast (drop_bit 24 v), ucast (drop_bit 16 v),
                  ucast (drop_bit 8 v), ucast v]"

definition Uint64 :: "bytes \<Rightarrow> 64 word" where
  "Uint64 b = ucast (b ! 7) OR push_bit 8 (ucast (b ! 6))
              OR push_bit 16 (ucast (b ! 5)) OR push_bit 24 (ucast (b ! 4))
              OR push_bit 32 (ucast (b ! 3)) OR push_bit 40 (ucast (b ! 2))
              OR push_bit 48 (ucast (b ! 1)) OR push_bit 56 (ucast (b ! 0))"

section \<open>Slice expressions\<close>

text \<open>
  The slice expression \<open>s[lo:hi]\<close> panics (\<open>None\<close>) unless \<open>lo \<le> hi \<le> cap(s)\<close>.  Every slice
  the program cuts this way was made by \<open>make\<close> or is a literal, so its capacity is its length.
\<close>

definition slice :: "'a list \<Rightarrow> nat \<Rightarrow> nat \<Rightarrow> 'a list option" where
  "slice s lo hi = (if lo \<le> hi \<and> hi \<le> length s then Some (take (hi - lo) (drop lo s)) else None)"

section \<open>Maps of maps\<close>

text \<open>Lookup through two levels of Go maps: the missing outer entry is a missing entry.\<close>

definition lookup2 :: "('a, ('b, 'c) fmap) fmap \<Rightarrow> 'a \<Rightarrow> 'b \<Rightarrow> 'c option" where
  "lookup2 m a b = Option.bind (fmlookup m a) (\<lambda>inner. fmlookup inner b)"

text \<open>No outer entry holds an empty inner map: the shape both stores of the program keep.\<close>

definition no_empty_inner :: "('a, ('b, 'c) fmap) fmap \<Rightarrow> bool" where
  "no_empty_inner m \<longleftrightarrow> fmpred (\<lambda>_ inner. inner \<noteq> fmempty) m"

section \<open>Shared lemmas\<close>

lemma char_of_of_char_word [simp]: "char_of (unat (word_of_nat (of_char c) :: 8 word)) = c"
proof -
  have "of_char c < (256::nat)" by (cases c) (simp add: of_char_def horner_sum_bound)
  then have "unat (word_of_nat (of_char c) :: 8 word) = of_char c"
    by (simp add: unat_of_nat take_bit_nat_eq_self_iff)
  then show ?thesis by simp
qed

lemma string_of_bytes_of_string [simp]: "string_of_bytes (bytes_of_string s) = s"
  by (simp add: string_of_bytes_def bytes_of_string_def comp_def)

lemma length_bytes_of_string [simp]: "length (bytes_of_string s) = length s"
  by (simp add: bytes_of_string_def)

lemma length_string_of_bytes [simp]: "length (string_of_bytes b) = length b"
  by (simp add: string_of_bytes_def)

lemma bytes_of_string_eq_Nil [simp]: "bytes_of_string s = [] \<longleftrightarrow> s = []"
  by (simp add: bytes_of_string_def)

lemma string_of_bytes_eq_Nil [simp]: "string_of_bytes b = [] \<longleftrightarrow> b = []"
  by (simp add: string_of_bytes_def)

lemma bytes_of_string_of_bytes [simp]: "bytes_of_string (string_of_bytes b) = b"
proof -
  have "word_of_nat (of_char (char_of (unat w)) :: nat) = w" for w :: byte
  proof -
    have "unat w < 2 ^ LENGTH(8)" by (rule unsigned_less)
    then show ?thesis by (simp add: of_char_of)
  qed
  then show ?thesis by (simp add: string_of_bytes_def bytes_of_string_def comp_def)
qed

lemma strings_Split_not_Nil [simp]: "strings_Split sep s \<noteq> []"
  by (cases s) (auto split: list.splits)

lemma strings_Split_plain: "sep \<notin> set s \<Longrightarrow> strings_Split sep s = [s]"
  by (induction s) auto

lemma strings_Split_append: "sep \<notin> set a \<Longrightarrow> strings_Split sep (a @ sep # b) = a # strings_Split sep b"
  by (induction a) auto

lemma strings_Split_singleton: "strings_Split sep s = [t] \<longleftrightarrow> s = t \<and> sep \<notin> set s"
proof
  show "strings_Split sep s = [t] \<Longrightarrow> s = t \<and> sep \<notin> set s"
    by (induction s arbitrary: t) (auto split: if_splits list.splits)
qed (auto simp: strings_Split_plain)

lemma digits_rev_not_Nil [simp]: "digits_rev n \<noteq> []"
  by (subst digits_rev.simps) (simp add: Let_def)

lemma string_of_nat_not_Nil [simp]: "string_of_nat n \<noteq> []"
  by (simp add: string_of_nat_def)

lemma digit_of_char: "digit_val (char_of (48 + n mod 10 :: nat)) = Some (n mod 10)"
proof -
  have "n mod 10 \<le> 9" using mod_less_divisor [of 10 n] by simp
  then have "of_char (char_of (48 + n mod 10)) = (48 + n mod 10 :: nat)" by (simp add: of_char_of)
  with \<open>n mod 10 \<le> 9\<close> show ?thesis by (simp add: digit_val_def)
qed

lemma parse_digits_append:
  "parse_digits acc (xs @ ys) = (case parse_digits acc xs of None \<Rightarrow> None | Some v \<Rightarrow> parse_digits v ys)"
  by (induction xs arbitrary: acc) (auto split: option.splits)

lemma parse_digits_of_nat: "parse_digits 0 (string_of_nat n) = Some n"
  unfolding string_of_nat_def
proof (induction n rule: digits_rev.induct)
  case (1 n)
  show ?case
  proof (cases "n < 10")
    case True
    then show ?thesis using digit_of_char [of n] by (subst digits_rev.simps) (simp add: Let_def)
  next
    case False
    with 1 have "parse_digits 0 (rev (digits_rev (n div 10))) = Some (n div 10)" by simp
    with False digit_of_char [of n] show ?thesis
      by (subst digits_rev.simps) (simp add: Let_def parse_digits_append)
  qed
qed

lemma digits_rev_digits: "c \<in> set (digits_rev n) \<Longrightarrow> digit_val c \<noteq> None"
proof (induction n rule: digits_rev.induct)
  case (1 n)
  with digit_of_char [of n] show ?case
    by (subst (asm) (2) digits_rev.simps) (auto simp: Let_def split: if_splits)
qed

lemma Atoi_string_of_nat:
  assumes "n < 2 ^ 63"
  shows "Atoi (string_of_nat n) = Inr (int n)"
proof -
  have "hd (string_of_nat n) \<in> set (digits_rev n)"
    using digits_rev_not_Nil [of n] by (simp add: string_of_nat_def hd_rev)
  from digits_rev_digits [OF this] have "hd (string_of_nat n) \<notin> {CHR ''-'', CHR ''+''}"
    by (auto simp: digit_val_def)
  with assms show ?thesis by (simp add: Atoi_def Let_def parse_digits_of_nat)
qed

lemma length_PutUint32 [simp]: "length (PutUint32 v) = 4"
  by (simp add: PutUint32_def)

lemma length_PutUint64 [simp]: "length (PutUint64 v) = 8"
  by (simp add: PutUint64_def)

lemma Uint32_PutUint32 [simp]: "Uint32 (PutUint32 v) = v"
proof (rule bit_word_eqI)
  fix n assume "n < LENGTH(32)"
  then consider "n < 8" | "8 \<le> n" "n < 16" | "16 \<le> n" "n < 24" | "24 \<le> n" "n < 32"
    by fastforce
  then show "bit (Uint32 (PutUint32 v)) n = bit v n"
    by cases (auto simp: Uint32_def PutUint32_def bit_or_iff bit_push_bit_iff bit_ucast_iff
                bit_drop_bit_eq)
qed

lemma bit_byte_ge [simp]: "8 \<le> n \<Longrightarrow> \<not> bit (w :: byte) n"
  using bit_imp_le_length [of w n] by auto

lemma PutUint32_Uint32 [simp]: "length b = 4 \<Longrightarrow> PutUint32 (Uint32 b) = b"
proof -
  assume "length b = 4"
  then obtain b0 b1 b2 b3 where b: "b = [b0, b1, b2, b3]"
    by (auto simp: eval_nat_numeral length_Suc_conv)
  have u: "Uint32 b = ucast b3 OR push_bit 8 (ucast b2) OR push_bit 16 (ucast b1) OR push_bit 24 (ucast b0)"
    by (simp add: b Uint32_def)
  note bits = bit_or_iff bit_push_bit_iff bit_ucast_iff bit_drop_bit_eq
  have "ucast (drop_bit 24 (Uint32 b)) = b0"
    unfolding u by (rule bit_word_eqI) (simp add: bits)
  moreover have "ucast (drop_bit 16 (Uint32 b)) = b1"
    unfolding u by (rule bit_word_eqI) (simp add: bits)
  moreover have "ucast (drop_bit 8 (Uint32 b)) = b2"
    unfolding u by (rule bit_word_eqI) (simp add: bits)
  moreover have "ucast (Uint32 b) = b3"
    unfolding u by (rule bit_word_eqI) (simp add: bits)
  ultimately show ?thesis by (simp add: PutUint32_def b)
qed

lemma Uint64_PutUint64 [simp]: "Uint64 (PutUint64 v) = v"
proof (rule bit_word_eqI)
  fix n assume "n < LENGTH(64)"
  then have "n < 8 \<or> (8 \<le> n \<and> n < 16) \<or> (16 \<le> n \<and> n < 24) \<or> (24 \<le> n \<and> n < 32) \<or>
      (32 \<le> n \<and> n < 40) \<or> (40 \<le> n \<and> n < 48) \<or> (48 \<le> n \<and> n < 56) \<or> (56 \<le> n \<and> n < 64)"
    by (simp, linarith)
  then show "bit (Uint64 (PutUint64 v)) n = bit v n"
    by (elim disjE conjE) (simp_all add: Uint64_def PutUint64_def bit_or_iff bit_push_bit_iff
          bit_ucast_iff bit_drop_bit_eq less_diff_conv2)
qed

lemma PutUint64_inject [simp]: "PutUint64 v = PutUint64 w \<longleftrightarrow> v = w"
  by (metis Uint64_PutUint64)

lemma unat_word_of_nat_32 [simp]: "n < 2 ^ 32 \<Longrightarrow> unat (word_of_nat n :: 32 word) = n"
  by (simp add: unat_of_nat take_bit_nat_eq_self_iff)

lemma slice_eq_Some_iff: "slice s lo hi = Some t \<longleftrightarrow> lo \<le> hi \<and> hi \<le> length s \<and> t = take (hi - lo) (drop lo s)"
  by (auto simp: slice_def)

lemma slice_prefix [simp]: "slice (a @ b) 0 (length a) = Some a"
  by (simp add: slice_def)

lemma slice_middle: "slice (a @ b @ c) (length a) (length a + length b) = Some b"
  by (simp add: slice_def)

text \<open>Copying a window of an array element by element is taking a sub-list.\<close>

lemma map_nth_window: "k + n \<le> length b \<Longrightarrow> map (\<lambda>i. b ! (k + i)) [0..<n] = take n (drop k b)"
  by (intro nth_equalityI) auto

text \<open>Moving one element from the rest of a list to the part already seen.\<close>

lemma drop_eq_ConsD:
  assumes "drop k xs = y # ys"
  shows "take (Suc k) xs = take k xs @ [y]" "drop (Suc k) xs = ys" "Suc k \<le> length xs"
proof -
  show len: "Suc k \<le> length xs" using assms by (metis Suc_leI drop_all list.distinct(1) not_le)
  show "take (Suc k) xs = take k xs @ [y]"
    using assms len by (simp add: take_Suc_conv_app_nth nth_via_drop)
  show "drop (Suc k) xs = ys" using assms by (metis drop_Suc list.sel(3) tl_drop)
qed

subsection \<open>Finite maps\<close>

lemma fmap_nonempty_iff: "m \<noteq> fmempty \<longleftrightarrow> (\<exists>x y. fmlookup m x = Some y)"
  by (metis fmap_ext fmempty_lookup not_None_eq)

lemma fmupd_nonempty [simp]: "fmupd a b m \<noteq> fmempty"
  by (metis fmempty_lookup fmupd_lookup option.distinct(1))

lemma fmdrop_fmupd_same [simp]: "fmdrop a (fmupd a x m) = fmdrop a m"
  by (rule fmap_ext) simp

lemma fmdrop_missing: "fmlookup m a = None \<Longrightarrow> fmdrop a m = m"
  by (rule fmap_ext) (simp add: fmlookup_drop)

lemma fmdrop_eq_fmemptyD: "fmdrop b i = fmempty \<Longrightarrow> b' \<noteq> b \<Longrightarrow> fmlookup i b' = None"
  by (metis fmempty_lookup fmlookup_drop)

lemma lookup2_fmempty [simp]: "lookup2 fmempty a b = None"
  by (simp add: lookup2_def)

lemma lookup2_fmupd [simp]:
  "lookup2 (fmupd a inner m) a' b = (if a = a' then fmlookup inner b else lookup2 m a' b)"
  by (simp add: lookup2_def)

lemma lookup2_fmdrop [simp]:
  "lookup2 (fmdrop a m) a' b = (if a = a' then None else lookup2 m a' b)"
  by (simp add: lookup2_def)

lemma lookup2_None_outer [simp]: "fmlookup m a = None \<Longrightarrow> lookup2 m a b = None"
  by (simp add: lookup2_def)

lemma lookup2_Some_outer [simp]: "fmlookup m a = Some inner \<Longrightarrow> lookup2 m a b = fmlookup inner b"
  by (simp add: lookup2_def)

lemma no_empty_inner_fmempty [simp, intro]: "no_empty_inner fmempty"
  by (simp add: no_empty_inner_def)

lemma no_empty_inner_fmupd [intro]:
  "no_empty_inner m \<Longrightarrow> inner \<noteq> fmempty \<Longrightarrow> no_empty_inner (fmupd a inner m)"
  by (auto simp: no_empty_inner_def fmpred_iff)

lemma no_empty_inner_fmdrop [intro]: "no_empty_inner m \<Longrightarrow> no_empty_inner (fmdrop a m)"
  by (auto simp: no_empty_inner_def fmpred_iff)

lemma no_empty_innerD: "no_empty_inner m \<Longrightarrow> fmlookup m a = Some inner \<Longrightarrow> inner \<noteq> fmempty"
  by (auto simp: no_empty_inner_def fmpred_iff)

lemma no_empty_inner_outer:
  assumes "no_empty_inner m"
  shows "fmlookup m a = None \<longleftrightarrow> (\<forall>b. lookup2 m a b = None)"
proof (cases "fmlookup m a")
  case (Some inner)
  with assms have "inner \<noteq> fmempty" by (auto simp: no_empty_inner_def fmpred_iff)
  then obtain b y where "fmlookup inner b = Some y" by (auto simp: fmap_nonempty_iff)
  with Some show ?thesis by auto
qed simp

text \<open>Two such maps are equal when the two-level lookups agree: the abstraction loses nothing.\<close>

lemma no_empty_inner_ext:
  assumes "no_empty_inner m" and "no_empty_inner n" and "\<And>a b. lookup2 m a b = lookup2 n a b"
  shows "m = n"
proof (rule fmap_ext)
  fix a
  show "fmlookup m a = fmlookup n a"
  proof (cases "fmlookup m a")
    case None
    with assms show ?thesis using no_empty_inner_outer [of m a] no_empty_inner_outer [of n a] by simp
  next
    case (Some inner)
    with assms obtain inner' where n: "fmlookup n a = Some inner'"
      using no_empty_inner_outer [of m a] no_empty_inner_outer [of n a] by auto
    have "inner = inner'"
      using assms(3) [of a] Some n by (intro fmap_ext) simp
    with Some n show ?thesis by simp
  qed
qed

section \<open>Runs of a labelled step relation\<close>

inductive runs :: "('s \<Rightarrow> 'l \<Rightarrow> 's \<Rightarrow> bool) \<Rightarrow> 's \<Rightarrow> 'l list \<Rightarrow> 's \<Rightarrow> bool" for step where
  runs_nil: "runs step s [] s"
| runs_snoc: "runs step s ls t \<Longrightarrow> step t l u \<Longrightarrow> runs step s (ls @ [l]) u"

lemma runs_append: "runs step t ls' u \<Longrightarrow> runs step s ls t \<Longrightarrow> runs step s (ls @ ls') u"
  by (induction rule: runs.induct) (auto simp flip: append_assoc intro: runs.intros)

lemma runs_cons: "step s l t \<Longrightarrow> runs step t ls u \<Longrightarrow> runs step s (l # ls) u"
  using runs_append [of step t ls u s "[l]"] runs_snoc [OF runs_nil, of step s l t] by simp

lemma runs_invariant:
  assumes "runs step s ls t" and "I s" and "\<And>x l y. step x l y \<Longrightarrow> I x \<Longrightarrow> I y"
  shows "I t"
  using assms by (induction rule: runs.induct) auto

text \<open>A measure that every step decreases bounds the length of every run.\<close>

lemma runs_measure:
  assumes "runs step s ls t" and "\<And>x l y. step x l y \<Longrightarrow> (\<mu> :: 's \<Rightarrow> nat) y < \<mu> x"
  shows "length ls + \<mu> t \<le> \<mu> s"
  using assms(1)
proof (induction rule: runs.induct)
  case (runs_snoc s ls t l u)
  with assms(2) [OF runs_snoc.hyps(2)] show ?case by simp
qed simp

end
