(* ===== verification/Go_IO.thy ===== *)
theory Go_IO
  imports Prelude
begin

text \<open>
  The parts of Go's \<open>io\<close> and \<open>net\<close> packages the protocol relies on.

  \<^item> \<open>io.Reader\<close> and \<open>io.Writer\<close> are functions on a stream state; \<open>LimitedReader_Read\<close> and
    \<open>ReadAtLeast\<close> follow the library's code.  \<open>ReadAtLeast\<close> loops until it has enough bytes
    or an error, so it is a partial function: \<open>None\<close> means it never returns.

  \<^item> \<open>conn\<close> is a \<open>net.Conn\<close>: what the peer will still deliver (chunks of any size, with
    errors between them; \<open>EOF\<close> at the end), the bytes written so far, and a script that makes
    single writes fail part way.

  \<^item> the locales \<open>io_reader\<close> and \<open>io_writer\<close> state the documented contracts; the facts the
    message codec needs are proved in them and \<open>conn\<close> is an instance of both.
\<close>

section \<open>Readers\<close>

text \<open>\<open>rd r n\<close> is \<open>r.Read(p)\<close> with \<open>len(p) = n\<close>: the bytes stored in \<open>p\<close>, the error, the new state.\<close>

type_synonym 'r Reader = "'r \<Rightarrow> nat \<Rightarrow> bytes \<times> go_error option \<times> 'r"

text \<open>\<open>io.LimitReader(r, N)\<close>, with the remaining count \<open>N\<close> as state.\<close>

definition LimitedReader_Read :: "'r Reader \<Rightarrow> ('r \<times> nat) Reader" where
  "LimitedReader_Read rd = (\<lambda>(r, N) n.
     if N = 0 then ([], Some EOF, (r, N))
     else case rd r (min n N) of (bs, e, r') \<Rightarrow> (bs, e, (r', N - length bs)))"

text \<open>The loop of \<open>io.ReadAtLeast\<close>; \<open>acc\<close> is \<open>buf[:n]\<close>.\<close>

partial_function (option) readLoop ::
  "'r Reader \<Rightarrow> nat \<Rightarrow> nat \<Rightarrow> 'r \<Rightarrow> bytes \<Rightarrow> (bytes \<times> go_error option \<times> 'r) option" where
  "readLoop rd buflen mn r acc =
     (if length acc < mn
      then case rd r (buflen - length acc) of (bs, e, r') \<Rightarrow>
        (case e of
           None \<Rightarrow> readLoop rd buflen mn r' (acc @ bs)
         | Some err \<Rightarrow> Some (acc @ bs, Some err, r'))
      else Some (acc, None, r))"

declare readLoop.simps [code]

definition ReadAtLeast ::
  "'r Reader \<Rightarrow> 'r \<Rightarrow> nat \<Rightarrow> nat \<Rightarrow> (bytes \<times> go_error option \<times> 'r) option" where
  "ReadAtLeast rd r buflen mn =
     (if buflen < mn then Some ([], Some (ErrorString ''short buffer''), r)
      else map_option (\<lambda>(bs, e, r').
             (bs,
              (if length bs \<ge> mn then None
               else if bs \<noteq> [] \<and> e = Some EOF then Some ErrUnexpectedEOF else e),
              r')) (readLoop rd buflen mn r []))"

section \<open>Writers\<close>

text \<open>\<open>wr w p\<close> is \<open>w.Write(p)\<close>: the number of bytes written, the error, the new state.\<close>

type_synonym 'w Writer = "'w \<Rightarrow> bytes \<Rightarrow> nat \<times> go_error option \<times> 'w"

section \<open>Connections\<close>

text \<open>
  What \<open>Read\<close> will see, in order: a \<open>Chunk\<close> arrives and may be read in pieces, a \<open>Fail\<close> is
  reported once.  After the last event the peer has closed: \<open>EOF\<close>.
\<close>

datatype rd_event = Chunk bytes | Fail go_error

text \<open>What happens to one call of \<open>Write\<close>: all bytes go out, or only some and an error is returned.\<close>

datatype wr_event = WOk | WFail nat go_error

record conn =
  c_in :: "rd_event list"
  c_out :: bytes
  c_wr :: "wr_event list"
  c_closed :: bool

definition conn_Read :: "conn Reader" where
  "conn_Read c n =
     (if c_closed c then ([], Some ErrClosed, c)
      else case c_in c of
             [] \<Rightarrow> ([], Some EOF, c)
           | Chunk bs # es \<Rightarrow>
               (take n bs, None,
                c\<lparr>c_in := (if length bs \<le> n then es else Chunk (drop n bs) # es)\<rparr>)
           | Fail e # es \<Rightarrow> ([], Some e, c\<lparr>c_in := es\<rparr>))"

definition conn_Write :: "conn Writer" where
  "conn_Write c bs =
     (if c_closed c then (0, Some ErrClosed, c)
      else case c_wr c of
             [] \<Rightarrow> (length bs, None, c\<lparr>c_out := c_out c @ bs\<rparr>)
           | WOk # ws \<Rightarrow> (length bs, None, c\<lparr>c_out := c_out c @ bs, c_wr := ws\<rparr>)
           | WFail n e # ws \<Rightarrow>
               (min n (length bs), Some e, c\<lparr>c_out := c_out c @ take (min n (length bs)) bs, c_wr := ws\<rparr>))"

definition conn_Close :: "conn \<Rightarrow> go_error option \<times> conn" where
  "conn_Close c = (if c_closed c then (Some ErrClosed, c) else (None, c\<lparr>c_closed := True\<rparr>))"

text \<open>A freshly opened connection over which the peer will send \<open>chunks\<close> and on which no write fails.\<close>

definition new_conn :: "bytes list \<Rightarrow> conn" where
  "new_conn chunks = \<lparr>c_in = map Chunk chunks, c_out = [], c_wr = [], c_closed = False\<rparr>"

text \<open>The bytes that arrive before the next error, that error, and a measure that every read decreases.\<close>

fun in_avail :: "rd_event list \<Rightarrow> bytes" where
  "in_avail [] = []"
| "in_avail (Chunk bs # es) = bs @ in_avail es"
| "in_avail (Fail _ # _) = []"

fun in_final :: "rd_event list \<Rightarrow> go_error" where
  "in_final [] = EOF"
| "in_final (Chunk _ # es) = in_final es"
| "in_final (Fail e # _) = e"

fun in_size :: "rd_event list \<Rightarrow> nat" where
  "in_size [] = 0"
| "in_size (Chunk bs # es) = Suc (length bs + in_size es)"
| "in_size (Fail _ # es) = Suc (in_size es)"

definition conn_avail :: "conn \<Rightarrow> bytes" where
  "conn_avail c = (if c_closed c then [] else in_avail (c_in c))"

definition conn_final :: "conn \<Rightarrow> go_error" where
  "conn_final c = (if c_closed c then ErrClosed else in_final (c_in c))"

section \<open>The reader contract\<close>

locale io_reader =
  fixes rd :: "'r Reader"
    and avail :: "'r \<Rightarrow> bytes"
    and final :: "'r \<Rightarrow> go_error"
    and left :: "'r \<Rightarrow> nat"
  assumes rd_bounded: "rd r n = (bs, e, r') \<Longrightarrow> length bs \<le> n"
    and rd_data: "rd r n = (bs, None, r') \<Longrightarrow> avail r = bs @ avail r' \<and> final r' = final r"
    and rd_progress: "rd r n = (bs, None, r') \<Longrightarrow> 0 < n \<Longrightarrow> left r' < left r"
    and rd_error: "rd r n = (bs, Some err, r') \<Longrightarrow> bs = [] \<and> avail r = [] \<and> err = final r"
begin

text \<open>
  One call of the loop of \<open>ReadAtLeast\<close> through a \<open>LimitReader\<close> whose limit is the buffer's
  length, as both reads of a message make it: it returns, and it leaves the underlying reader
  exactly behind the bytes it took.
\<close>

lemma limited_loop_enough:
  assumes "length acc \<le> k" and "k \<le> length acc + length (avail r)"
  shows "\<exists>r'. readLoop (LimitedReader_Read rd) k k (r, k - length acc) acc =
             Some (acc @ take (k - length acc) (avail r), None, (r', 0)) \<and>
           avail r' = drop (k - length acc) (avail r) \<and> final r' = final r"
  using assms
proof (induction "left r" arbitrary: r acc rule: less_induct)
  case less
  show ?case
  proof (cases "length acc = k")
    case True
    then show ?thesis by (subst readLoop.simps) auto
  next
    case False
    let ?need = "k - length acc"
    have need: "0 < ?need" using False less.prems by simp
    obtain bs e r1 where rd: "rd r ?need = (bs, e, r1)" by (cases "rd r ?need")
    have bs: "length bs \<le> ?need" using rd by (rule rd_bounded)
    have "e = None"
      using rd_error [of r ?need bs _ r1] rd need less.prems by (cases e) auto
    with rd have rd': "rd r ?need = (bs, None, r1)" by simp
    note data = rd_data [OF rd']
    have "left r1 < left r" using rd' need by (rule rd_progress)
    moreover have "length (acc @ bs) \<le> k" using bs less.prems by simp
    moreover have "k \<le> length (acc @ bs) + length (avail r1)" using data less.prems by simp
    ultimately obtain r2 where
      loop: "readLoop (LimitedReader_Read rd) k k (r1, k - length (acc @ bs)) (acc @ bs) =
          Some ((acc @ bs) @ take (k - length (acc @ bs)) (avail r1), None, (r2, 0))"
      and r2: "avail r2 = drop (k - length (acc @ bs)) (avail r1)" "final r2 = final r1"
      using less.hyps by blast
    have lim: "LimitedReader_Read rd (r, ?need) ?need = (bs, None, (r1, k - length (acc @ bs)))"
      using need rd' by (simp add: LimitedReader_Read_def)
    have "readLoop (LimitedReader_Read rd) k k (r, ?need) acc =
        Some ((acc @ bs) @ take (k - length (acc @ bs)) (avail r1), None, (r2, 0))"
      using need lim loop by (subst readLoop.simps) simp
    then show ?thesis using data r2 bs by auto
  qed
qed

lemma limited_loop_short:
  assumes "length acc + length (avail r) < k"
  shows "\<exists>r'. readLoop (LimitedReader_Read rd) k k (r, k - length acc) acc =
             Some (acc @ avail r, Some (final r), r')"
  using assms
proof (induction "left r" arbitrary: r acc rule: less_induct)
  case less
  let ?need = "k - length acc"
  have need: "0 < ?need" using less.prems by simp
  obtain bs e r1 where rd: "rd r ?need = (bs, e, r1)" by (cases "rd r ?need")
  have lim: "LimitedReader_Read rd (r, ?need) ?need = (bs, e, (r1, k - length (acc @ bs)))"
    using need rd by (simp add: LimitedReader_Read_def)
  show ?case
  proof (cases e)
    case None
    with rd have rd': "rd r ?need = (bs, None, r1)" by simp
    note data = rd_data [OF rd']
    have "left r1 < left r" using rd' need by (rule rd_progress)
    moreover have "length (acc @ bs) + length (avail r1) < k" using data less.prems by simp
    ultimately obtain r2 where
      "readLoop (LimitedReader_Read rd) k k (r1, k - length (acc @ bs)) (acc @ bs) =
        Some ((acc @ bs) @ avail r1, Some (final r1), r2)"
      using less.hyps by blast
    then show ?thesis using need lim None data by (subst readLoop.simps) auto
  next
    case (Some err)
    then show ?thesis using need lim rd rd_error [of r ?need bs err r1]
      by (subst readLoop.simps) auto
  qed
qed

lemma ReadAtLeast_enough:
  assumes "k \<le> length (avail r)"
  shows "\<exists>r'. ReadAtLeast (LimitedReader_Read rd) (r, k) k k = Some (take k (avail r), None, (r', 0)) \<and>
           avail r' = drop k (avail r) \<and> final r' = final r"
  using limited_loop_enough [of "[]" k r] assms by (auto simp: ReadAtLeast_def)

lemma ReadAtLeast_short:
  assumes "length (avail r) < k"
  shows "\<exists>r'. ReadAtLeast (LimitedReader_Read rd) (r, k) k k =
           Some (avail r, Some (if avail r \<noteq> [] \<and> final r = EOF then ErrUnexpectedEOF else final r), r')"
proof -
  obtain r' where "readLoop (LimitedReader_Read rd) k k (r, k) [] = Some (avail r, Some (final r), r')"
    using limited_loop_short [of "[]" r k] assms by auto
  with assms show ?thesis by (intro exI [of _ r']) (simp add: ReadAtLeast_def)
qed

end

text \<open>
  A reflexive and transitive relation that every single read keeps is kept by the whole loop.
\<close>

lemma readLoop_rel:
  assumes one: "\<And>r n bs e r'. rd r n = (bs, e, r') \<Longrightarrow> R r r'"
    and refl: "\<And>r. R r r" and trans: "\<And>r r1 r2. R r r1 \<Longrightarrow> R r1 r2 \<Longrightarrow> R r r2"
    and ret: "readLoop rd buflen mn r acc = Some res"
  shows "R r (snd (snd res))"
proof -
  have "rd = rd \<longrightarrow> R r (snd (snd res))"
  proof (rule readLoop.raw_induct
      [where P = "\<lambda>rd' buflen mn r acc res. rd' = rd \<longrightarrow> R r (snd (snd res))", OF _ ret], rule impI)
    fix loop :: "'a Reader \<Rightarrow> nat \<Rightarrow> nat \<Rightarrow> 'a \<Rightarrow> bytes \<Rightarrow> (bytes \<times> go_error option \<times> 'a) option"
    fix rd' buflen mn r acc res
    assume IH: "\<And>rd' buflen mn r acc res. loop rd' buflen mn r acc = Some res \<Longrightarrow>
        rd' = rd \<longrightarrow> R r (snd (snd res))"
      and eq: "(if length acc < mn
        then case rd' r (buflen - length acc) of (bs, e, r') \<Rightarrow>
          (case e of None \<Rightarrow> loop rd' buflen mn r' (acc @ bs) | Some err \<Rightarrow> Some (acc @ bs, Some err, r'))
        else Some (acc, None, r)) = Some res"
      and rd': "rd' = rd"
    obtain bs e r1 where step: "rd' r (buflen - length acc) = (bs, e, r1)"
      by (cases "rd' r (buflen - length acc)")
    have "R r r1" using one step rd' by blast
    then show "R r (snd (snd res))"
      using eq step IH [of rd' buflen mn r1 "acc @ bs" res] rd' refl trans
      by (auto split: if_splits option.splits)
  qed
  then show ?thesis by simp
qed

lemma ReadAtLeast_limited_rel:
  assumes one: "\<And>r n bs e r'. rd r n = (bs, e, r') \<Longrightarrow> R r r'"
    and refl: "\<And>r. R r r" and trans: "\<And>r r1 r2. R r r1 \<Longrightarrow> R r1 r2 \<Longrightarrow> R r r2"
    and ret: "ReadAtLeast (LimitedReader_Read rd) (r, k) buflen mn = Some (bs, e, (r', k'))"
  shows "R r r'"
proof -
  have lim: "R (fst x) (fst x')" if "LimitedReader_Read rd x n = (bs, e, x')" for x n bs e x'
    using that one refl by (cases x) (auto simp: LimitedReader_Read_def split: if_splits prod.splits)
  have loop: "R r (fst (snd (snd res)))"
    if "readLoop (LimitedReader_Read rd) buflen mn (r, k) [] = Some res" for res
    using readLoop_rel [where R = "\<lambda>x x'. R (fst x) (fst x')", OF lim _ _ that] refl trans by simp
  from ret show ?thesis
    using loop refl by (fastforce simp: ReadAtLeast_def split: if_splits)
qed

section \<open>The writer contract\<close>

locale io_writer =
  fixes wr :: "'w Writer" and sent :: "'w \<Rightarrow> bytes"
  assumes wr_sent: "wr w bs = (n, e, w') \<Longrightarrow> n \<le> length bs \<and> sent w' = sent w @ take n bs"
    and wr_short: "wr w bs = (n, e, w') \<Longrightarrow> n < length bs \<Longrightarrow> e \<noteq> None"
begin

lemma wr_complete: "wr w bs = (n, None, w') \<Longrightarrow> n = length bs \<and> sent w' = sent w @ bs"
  using wr_sent [of w bs n None w'] wr_short [of w bs n None w'] by fastforce

end

section \<open>Connections satisfy both contracts\<close>

lemma conn_Read_cases:
  "conn_Read c n = (bs, e, c') \<longleftrightarrow>
     (c_closed c \<and> bs = [] \<and> e = Some ErrClosed \<and> c' = c) \<or>
     (\<not> c_closed c \<and> c_in c = [] \<and> bs = [] \<and> e = Some EOF \<and> c' = c) \<or>
     (\<exists>chunk es. \<not> c_closed c \<and> c_in c = Chunk chunk # es \<and> bs = take n chunk \<and> e = None \<and>
        c' = c\<lparr>c_in := (if length chunk \<le> n then es else Chunk (drop n chunk) # es)\<rparr>) \<or>
     (\<exists>err es. \<not> c_closed c \<and> c_in c = Fail err # es \<and> bs = [] \<and> e = Some err \<and> c' = c\<lparr>c_in := es\<rparr>)"
  by (auto simp: conn_Read_def split: list.splits rd_event.splits)

interpretation conn_rd: io_reader conn_Read conn_avail conn_final "\<lambda>c. in_size (c_in c)"
proof unfold_locales
  fix r n bs e r'
  assume "conn_Read r n = (bs, e, r')"
  then show "length bs \<le> n" by (auto simp: conn_Read_cases)
next
  fix r n bs r'
  assume "conn_Read r n = (bs, None, r')"
  then show "conn_avail r = bs @ conn_avail r' \<and> conn_final r' = conn_final r"
    by (auto simp: conn_Read_cases conn_avail_def conn_final_def)
next
  fix r n bs r'
  assume "conn_Read r n = (bs, None, r')" and "0 < n"
  then show "in_size (c_in r') < in_size (c_in r)" by (auto simp: conn_Read_cases)
next
  fix r n bs e r'
  assume "conn_Read r n = (bs, Some e, r')"
  then show "bs = [] \<and> conn_avail r = [] \<and> e = conn_final r"
    by (auto simp: conn_Read_cases conn_avail_def conn_final_def)
qed

interpretation conn_wr: io_writer conn_Write c_out
  by unfold_locales (auto simp: conn_Write_def split: if_splits list.splits wr_event.splits)

lemma in_avail_Chunks [simp]: "in_avail (map Chunk cs @ es) = concat cs @ in_avail es"
  by (induction cs) auto

lemma in_final_Chunks [simp]: "in_final (map Chunk cs @ es) = in_final es"
  by (induction cs) auto

lemma new_conn_avail [simp]: "conn_avail (new_conn cs) = concat cs"
  using in_avail_Chunks [of cs "[]"] by (simp add: new_conn_def conn_avail_def)

lemma new_conn_final [simp]: "conn_final (new_conn cs) = EOF"
  using in_final_Chunks [of cs "[]"] by (simp add: new_conn_def conn_final_def)

end
