(* ===== verification/Message.thy ===== *)
theory Message
  imports Go_IO
begin

text \<open>
  \<open>pkg/message.go\<close>: the message header, the message, its constructor and options, and the
  readers and writers of the wire format, over any \<open>io.Reader\<close> and \<open>io.Writer\<close>.  The abstract
  specification is \<open>encode\<close>, the byte string of a message; the lemmas show that \<open>WriteTo\<close>
  produces it (or a prefix, on a failing writer) and that \<open>ReadFrom\<close> inverts it, however the
  bytes are split over reads.
\<close>

section \<open>Headers\<close>

definition ActualProtocolVersion :: byte where
  "ActualProtocolVersion = 0"

definition maximumSupportedVersion :: byte where
  "maximumSupportedVersion = ActualProtocolVersion"

definition outboundMessageVersion :: byte where
  "outboundMessageVersion = maximumSupportedVersion"

text \<open>The \<open>[16]byte\<close> array \<open>uuid\<close> is a list of length 16 (see \<open>wf_header\<close>).\<close>

record MessageHeader =
  version :: byte
  flags :: byte
  opcode :: byte
  uuid :: bytes
  msg_length :: "32 word"

definition Version :: "MessageHeader \<Rightarrow> byte" where
  "Version m = version m"

definition Check :: "MessageHeader \<Rightarrow> byte \<Rightarrow> bool" where
  "Check m flag \<longleftrightarrow> flags m AND flag = flag"

definition OpCode :: "MessageHeader \<Rightarrow> byte" where
  "OpCode m = opcode m"

definition UUID :: "MessageHeader \<Rightarrow> bytes" where
  "UUID m = uuid m"

definition Length :: "MessageHeader \<Rightarrow> 32 word" where
  "Length m = msg_length m"

text \<open>
  Three writes; the first error ends the function, and the count is the sum of what the
  writer reported.  The four-byte array \<open>b\<close> is reused for the length.
\<close>

definition MessageHeader_WriteTo ::
  "'w Writer \<Rightarrow> MessageHeader \<Rightarrow> 'w \<Rightarrow> nat \<times> go_error option \<times> 'w" where
  "MessageHeader_WriteTo wr m w =
     (case wr w [version m, flags m, 0, opcode m] of (n1, err, w1) \<Rightarrow>
        if err \<noteq> None then (n1, err, w1)
        else case wr w1 (take 16 (uuid m)) of (n2, err, w2) \<Rightarrow>
          if err \<noteq> None then (n1 + n2, err, w2)
          else case wr w2 (PutUint32 (msg_length m)) of (n3, err, w3) \<Rightarrow>
            (n1 + n2 + n3, err, w3))"

definition messageHeaderFromBytes :: "bytes \<Rightarrow> MessageHeader" where
  "messageHeaderFromBytes b =
     \<lparr>version = b ! 0, flags = b ! 1, opcode = b ! 3,
      uuid = map (\<lambda>i. b ! (4 + i)) [0..<16],
      msg_length = Uint32 (take 4 (drop 20 b))\<rparr>"

section \<open>Messages\<close>

record Message =
  header :: MessageHeader
  payload :: "bytes option"

type_synonym MessageOpt = "Message \<Rightarrow> Message"

definition WithVersion :: "byte \<Rightarrow> MessageOpt" where
  "WithVersion v = (\<lambda>msg. msg\<lparr>header := (header msg)\<lparr>version := v\<rparr>\<rparr>)"

definition WithFlags :: "byte \<Rightarrow> MessageOpt" where
  "WithFlags f = (\<lambda>msg. msg\<lparr>header := (header msg)\<lparr>flags := f\<rparr>\<rparr>)"

text \<open>The conversion \<open>uint32(len(payload))\<close> wraps: it keeps the length modulo \<open>2 ^ 32\<close>.\<close>

definition NewMessage :: "bytes \<Rightarrow> byte \<Rightarrow> bytes option \<Rightarrow> MessageOpt list \<Rightarrow> Message" where
  "NewMessage u opc p opts =
     (let len = (case p of None \<Rightarrow> 0 | Some b \<Rightarrow> word_of_nat (length b));
          msg = \<lparr>header = \<lparr>version = outboundMessageVersion, flags = 0, opcode = opc,
                           uuid = u, msg_length = len\<rparr>,
                 payload = p\<rparr>
      in fold (\<lambda>f m. f m) opts msg)"

definition Payload :: "Message \<Rightarrow> bytes option" where
  "Payload m = payload m"

text \<open>\<open>&Message{}\<close>: the zero value a read starts from.\<close>

definition zeroMessage :: Message where
  "zeroMessage = \<lparr>header = \<lparr>version = 0, flags = 0, opcode = 0, uuid = replicate 16 0, msg_length = 0\<rparr>,
                  payload = None\<rparr>"

text \<open>
  \<open>ReadFrom\<close>: the count, the error, the message as the receiver was left, the reader's state;
  \<open>None\<close> when a read never returns.  A payload buffer that could not be filled keeps the zeros
  of \<open>make\<close> behind the bytes that arrived.
\<close>

definition Message_ReadFrom ::
  "'r Reader \<Rightarrow> Message \<Rightarrow> 'r \<Rightarrow> (nat \<times> go_error option \<times> Message \<times> 'r) option" where
  "Message_ReadFrom rd m r =
     (case ReadAtLeast (LimitedReader_Read rd) (r, 24) 24 24 of
        None \<Rightarrow> None
      | Some (b, err, (r1, _)) \<Rightarrow>
          if err \<noteq> None then Some (length b, err, m, r1)
          else
            let m1 = m\<lparr>header := messageHeaderFromBytes b\<rparr>;
                l = unat (Length (header m1))
            in if Length (header m1) \<noteq> 0
               then case ReadAtLeast (LimitedReader_Read rd) (r1, l) l l of
                      None \<Rightarrow> None
                    | Some (p, err, (r2, _)) \<Rightarrow>
                        Some (length b + length p, err,
                              m1\<lparr>payload := Some (p @ replicate (l - length p) 0)\<rparr>, r2)
               else Some (length b, None, m1, r1))"

definition Message_WriteTo ::
  "'w Writer \<Rightarrow> Message \<Rightarrow> 'w \<Rightarrow> nat \<times> go_error option \<times> 'w" where
  "Message_WriteTo wr m w =
     (case MessageHeader_WriteTo wr (header m) w of (n, err, w1) \<Rightarrow>
        if err \<noteq> None then (n, err, w1)
        else case payload m of
               None \<Rightarrow> (n, None, w1)
             | Some p \<Rightarrow> (case wr w1 p of (n1, err, w2) \<Rightarrow> (n + n1, err, w2)))"

section \<open>The wire format\<close>

definition encode_header :: "MessageHeader \<Rightarrow> bytes" where
  "encode_header h = [version h, flags h, 0, opcode h] @ uuid h @ PutUint32 (msg_length h)"

definition payload_bytes :: "Message \<Rightarrow> bytes" where
  "payload_bytes m = (case payload m of None \<Rightarrow> [] | Some p \<Rightarrow> p)"

definition encode :: "Message \<Rightarrow> bytes" where
  "encode m = encode_header (header m) @ payload_bytes m"

definition wf_header :: "MessageHeader \<Rightarrow> bool" where
  "wf_header h \<longleftrightarrow> length (uuid h) = 16"

text \<open>A message whose length field tells the truth: what \<open>NewMessage\<close> builds below 4 GiB.\<close>

definition wf_message :: "Message \<Rightarrow> bool" where
  "wf_message m \<longleftrightarrow> wf_header (header m) \<and> unat (msg_length (header m)) = length (payload_bytes m)"

text \<open>A non-nil empty payload does not survive the wire: no bytes are sent for it.\<close>

definition as_received :: "Message \<Rightarrow> Message" where
  "as_received m = (if payload m = Some [] then m\<lparr>payload := None\<rparr> else m)"

text \<open>A small message for the examples.\<close>

definition example_message :: Message where
  "example_message = \<lparr>header = \<lparr>version = 0, flags = 0, opcode = 1, uuid = replicate 16 7, msg_length = 2\<rparr>,
                      payload = Some [1, 2]\<rparr>"

section \<open>Header lemmas\<close>

lemma length_encode_header: "wf_header h \<Longrightarrow> length (encode_header h) = 24"
  by (simp add: encode_header_def wf_header_def)

lemma length_encode: "wf_message m \<Longrightarrow> length (encode m) = 24 + unat (msg_length (header m))"
  by (simp add: encode_def wf_message_def length_encode_header)

lemma messageHeaderFromBytes_window:
  "24 \<le> length b \<Longrightarrow> messageHeaderFromBytes b =
     \<lparr>version = b ! 0, flags = b ! 1, opcode = b ! 3, uuid = take 16 (drop 4 b),
      msg_length = Uint32 (take 4 (drop 20 b))\<rparr>"
  unfolding messageHeaderFromBytes_def by (subst map_nth_window) simp_all

lemma messageHeaderFromBytes_encode:
  assumes "wf_header h"
  shows "messageHeaderFromBytes (encode_header h) = h"
  using assms
  by (subst messageHeaderFromBytes_window) (simp_all add: encode_header_def wf_header_def)

lemma wf_header_FromBytes [simp]: "wf_header (messageHeaderFromBytes b)"
  unfolding wf_header_def messageHeaderFromBytes_def MessageHeader.simps length_map by simp

text \<open>Decoding loses the unused third byte and nothing else.\<close>

lemma encode_messageHeaderFromBytes:
  assumes "length b = 24"
  shows "encode_header (messageHeaderFromBytes b) = b[2 := 0]"
proof -
  have "Suc (Suc (Suc (Suc 0))) \<le> length b" using assms by simp
  then obtain b0 b1 b2 b3 t where b: "b = b0 # b1 # b2 # b3 # t"
    by (auto simp only: Suc_le_length_iff)
  have "drop 20 b = drop 16 t" "drop 4 b = t" by (simp_all add: b)
  moreover have "take 4 (drop 16 t) = drop 16 t" using assms b by simp
  moreover have "b[2 := 0] = [b0, b1, 0, b3] @ t" by (simp add: b numeral_2_eq_2)
  moreover have "b ! 0 = b0" "b ! 1 = b1" "b ! 3 = b3" by (simp_all add: b numeral_3_eq_3)
  moreover have "PutUint32 (Uint32 (drop 16 t)) = drop 16 t" using assms b by simp
  ultimately show ?thesis
    using assms by (subst messageHeaderFromBytes_window) (simp_all add: encode_header_def)
qed

section \<open>Constructor lemmas\<close>

lemma wf_NewMessage:
  assumes "length u = 16" and "\<And>b. p = Some b \<Longrightarrow> length b < 2 ^ 32"
  shows "wf_message (NewMessage u opc p [])"
  using assms
  by (auto simp: NewMessage_def wf_message_def wf_header_def payload_bytes_def split: option.splits)

lemma NewMessage_length_wraps:
  "unat (msg_length (header (NewMessage u opc (Some b) []))) = length b mod 2 ^ 32"
  by (simp add: NewMessage_def unat_of_nat take_bit_eq_mod)

section \<open>Writing\<close>

context io_writer
begin

lemma MessageHeader_WriteTo_prefix:
  assumes "wf_header h" and "MessageHeader_WriteTo wr h w = (n, e, w')"
  shows "n \<le> 24 \<and> sent w' = sent w @ take n (encode_header h) \<and> (e = None \<longrightarrow> n = 24)"
proof -
  define b1 b2 b3 where "b1 = [version h, flags h, 0, opcode h]" and "b2 = take 16 (uuid h)"
    and "b3 = PutUint32 (msg_length h)"
  note b = this
  have len: "length b1 = 4" "length b2 = 16" "length b3 = 4"
    using assms(1) by (simp_all add: b wf_header_def)
  have enc: "encode_header h = b1 @ b2 @ b3"
    using assms(1) by (simp add: encode_header_def b wf_header_def)
  obtain n1 e1 w1 where 1: "wr w b1 = (n1, e1, w1)" by (cases "wr w b1")
  obtain n2 e2 w2 where 2: "wr w1 b2 = (n2, e2, w2)" by (cases "wr w1 b2")
  obtain n3 e3 w3 where 3: "wr w2 b3 = (n3, e3, w3)" by (cases "wr w2 b3")
  note s = wr_sent [OF 1] wr_sent [OF 2] wr_sent [OF 3]
  have c: "e1 = None \<Longrightarrow> n1 = 4" "e2 = None \<Longrightarrow> n2 = 16" "e3 = None \<Longrightarrow> n3 = 4"
    using wr_complete [of w b1 n1 w1] wr_complete [of w1 b2 n2 w2] wr_complete [of w2 b3 n3 w3] 1 2 3 len
    by auto
  have def: "MessageHeader_WriteTo wr h w =
      (if e1 \<noteq> None then (n1, e1, w1) else if e2 \<noteq> None then (n1 + n2, e2, w2) else (n1 + n2 + n3, e3, w3))"
    unfolding MessageHeader_WriteTo_def b [symmetric] using 1 2 3 by simp
  show ?thesis
    using assms(2) s c len unfolding def enc by (auto split: if_splits)
qed

text \<open>
  Whatever the writer does, the bytes that went out are the first \<open>n\<close> bytes of the encoding, for
  the count \<open>n\<close> that is returned, and a nil error means that the whole encoding went out.
\<close>

lemma Message_WriteTo_prefix:
  assumes "wf_header (header m)" and "Message_WriteTo wr m w = (n, e, w')"
  shows "n \<le> length (encode m) \<and> sent w' = sent w @ take n (encode m) \<and>
         (e = None \<longrightarrow> n = length (encode m))"
proof -
  obtain k e1 w1 where h: "MessageHeader_WriteTo wr (header m) w = (k, e1, w1)"
    by (cases "MessageHeader_WriteTo wr (header m) w")
  note hp = MessageHeader_WriteTo_prefix [OF assms(1) h] and hl = length_encode_header [OF assms(1)]
  show ?thesis
  proof (cases "e1 = None \<and> payload m \<noteq> None")
    case False
    then show ?thesis using assms(2) h hp hl
      by (auto simp: Message_WriteTo_def encode_def payload_bytes_def split: if_splits)
  next
    case True
    then obtain p where p: "payload m = Some p" by auto
    obtain n1 e2 w2 where w: "wr w1 p = (n1, e2, w2)" by (cases "wr w1 p")
    have "n = k + n1" "e = e2" "w' = w2" using assms(2) h True p w by (auto simp: Message_WriteTo_def)
    moreover have "e2 = None \<longrightarrow> n1 = length p" using wr_complete [of w1 p n1 w2] w by simp
    ultimately show ?thesis
      using True p hp hl wr_sent [OF w] by (simp add: encode_def payload_bytes_def)
  qed
qed

end

text \<open>
  A relation between the writer before, the error and the writer after, kept by every single
  write and composable after a successful one, is kept by \<open>WriteTo\<close>.
\<close>

lemma MessageHeader_WriteTo_rel:
  assumes one: "\<And>w bs n e w'. wr w bs = (n, e, w') \<Longrightarrow> R w e w'"
    and comp: "\<And>w w1 e w2. R w None w1 \<Longrightarrow> R w1 e w2 \<Longrightarrow> R w e w2"
    and res: "MessageHeader_WriteTo wr h w = (n, e, w')"
  shows "R w e w'"
proof -
  let ?b1 = "[version h, flags h, 0, opcode h]" and ?b2 = "take 16 (uuid h)"
    and ?b3 = "PutUint32 (msg_length h)"
  obtain n1 e1 w1 where 1: "wr w ?b1 = (n1, e1, w1)" by (cases "wr w ?b1")
  obtain n2 e2 w2 where 2: "wr w1 ?b2 = (n2, e2, w2)" by (cases "wr w1 ?b2")
  obtain n3 e3 w3 where 3: "wr w2 ?b3 = (n3, e3, w3)" by (cases "wr w2 ?b3")
  note r = one [OF 1] one [OF 2] one [OF 3]
  from res 1 2 3 consider "e = e1" "w' = w1" | "e1 = None" "e = e2" "w' = w2"
    | "e1 = None" "e2 = None" "e = e3" "w' = w3"
    by (auto simp: MessageHeader_WriteTo_def split: if_splits)
  then show ?thesis using r comp by cases blast+
qed

lemma Message_WriteTo_rel:
  assumes one: "\<And>w bs n e w'. wr w bs = (n, e, w') \<Longrightarrow> R w e w'"
    and comp: "\<And>w w1 e w2. R w None w1 \<Longrightarrow> R w1 e w2 \<Longrightarrow> R w e w2"
    and res: "Message_WriteTo wr m w = (n, e, w')"
  shows "R w e w'"
proof -
  obtain n1 e1 w1 where 1: "MessageHeader_WriteTo wr (header m) w = (n1, e1, w1)"
    by (cases "MessageHeader_WriteTo wr (header m) w")
  have r1: "R w e1 w1" by (rule MessageHeader_WriteTo_rel [where R = R, OF one comp 1])
  show ?thesis
  proof (cases "e1 = None \<and> payload m \<noteq> None")
    case True
    then obtain p where p: "payload m = Some p" by auto
    obtain n2 e2 w2 where 2: "wr w1 p = (n2, e2, w2)" by (cases "wr w1 p")
    with res 1 p True have "e = e2" "w' = w2" by (auto simp: Message_WriteTo_def)
    with r1 one [OF 2] comp True show ?thesis by blast
  next
    case False
    with res 1 r1 show ?thesis by (auto simp: Message_WriteTo_def split: if_splits)
  qed
qed

section \<open>Reading\<close>

lemma Message_ReadFrom_rel:
  assumes one: "\<And>r n bs e r'. rd r n = (bs, e, r') \<Longrightarrow> R r r'"
    and refl: "\<And>r. R r r" and trans: "\<And>r r1 r2. R r r1 \<Longrightarrow> R r1 r2 \<Longrightarrow> R r r2"
    and ret: "Message_ReadFrom rd m r = Some (n, e, m', r')"
  shows "R r r'"
proof -
  have read: "R x x'" if "ReadAtLeast (LimitedReader_Read rd) (x, k) l l = Some (bs, err, (x', k'))"
    for x k l bs err x' k'
    by (rule ReadAtLeast_limited_rel [where R = R, OF _ _ _ that]) (fact one, fact refl, fact trans)
  obtain b e1 r1 k1 where 1: "ReadAtLeast (LimitedReader_Read rd) (r, 24) 24 24 = Some (b, e1, (r1, k1))"
    using ret by (auto simp: Message_ReadFrom_def split: option.splits)
  note r1 = read [OF 1]
  let ?l = "unat (Length (messageHeaderFromBytes b))"
  show ?thesis
  proof (cases "r' = r1")
    case True
    with r1 show ?thesis by simp
  next
    case False
    then obtain p e2 k2 where "ReadAtLeast (LimitedReader_Read rd) (r1, ?l) ?l ?l = Some (p, e2, (r', k2))"
      using ret 1 by (auto simp: Message_ReadFrom_def Let_def split: option.splits if_splits)
    from read [OF this] r1 trans show ?thesis by blast
  qed
qed

context io_reader
begin

lemma Message_ReadFrom_encode:
  assumes "wf_message m" and "avail r = encode m @ rest"
  shows "\<exists>r'. Message_ReadFrom rd zeroMessage r = Some (length (encode m), None, as_received m, r') \<and>
           avail r' = rest \<and> final r' = final r"
proof -
  let ?h = "header m" and ?p = "payload_bytes m"
  have h: "wf_header ?h" and l: "unat (msg_length ?h) = length ?p"
    using assms(1) by (auto simp: wf_message_def)
  have len24: "length (encode_header ?h) = 24" using h by (rule length_encode_header)
  have "24 \<le> length (avail r)" using assms(2) len24 by (simp add: encode_def)
  from ReadAtLeast_enough [OF this] obtain r1 where
    r1: "ReadAtLeast (LimitedReader_Read rd) (r, 24) 24 24 = Some (encode_header ?h, None, (r1, 0))"
      "avail r1 = ?p @ rest" "final r1 = final r"
    using assms(2) len24 by (auto simp: encode_def)
  have dec: "messageHeaderFromBytes (encode_header ?h) = ?h" using h by (rule messageHeaderFromBytes_encode)
  have "length ?p \<le> length (avail r1)" using r1 by simp
  from ReadAtLeast_enough [OF this] obtain r2 where
    r2: "ReadAtLeast (LimitedReader_Read rd) (r1, length ?p) (length ?p) (length ?p) =
           Some (?p, None, (r2, 0))" "avail r2 = rest" "final r2 = final r"
    using r1 by auto
  show ?thesis
  proof (cases "msg_length ?h = 0")
    case True
    then have "?p = []" using l by simp
    then have "as_received m = zeroMessage\<lparr>header := ?h\<rparr>"
      by (auto simp: as_received_def zeroMessage_def payload_bytes_def split: option.splits)
    then show ?thesis using r1 dec len24 True \<open>?p = []\<close>
      by (auto simp: Message_ReadFrom_def Length_def encode_def)
  next
    case False
    then have "?p \<noteq> []" using l by (auto simp: unat_eq_0 [symmetric])
    then have "as_received m = zeroMessage\<lparr>header := ?h, payload := Some ?p\<rparr>"
      by (auto simp: as_received_def zeroMessage_def payload_bytes_def split: option.splits)
    then show ?thesis using r1 r2 dec len24 False l
      by (auto simp: Message_ReadFrom_def Length_def encode_def)
  qed
qed

text \<open>A stream that ends early: the error says so, with the error the stream ended with.\<close>

lemma Message_ReadFrom_short_header:
  assumes "length (avail r) < 24"
  shows "\<exists>r'. Message_ReadFrom rd m r =
           Some (length (avail r),
                 Some (if avail r \<noteq> [] \<and> final r = EOF then ErrUnexpectedEOF else final r), m, r')"
proof -
  obtain r1 k where "ReadAtLeast (LimitedReader_Read rd) (r, 24) 24 24 =
      Some (avail r, Some (if avail r \<noteq> [] \<and> final r = EOF then ErrUnexpectedEOF else final r), (r1, k))"
    using ReadAtLeast_short [OF assms] by auto
  then show ?thesis by (auto simp: Message_ReadFrom_def)
qed

lemma Message_ReadFrom_short_payload:
  assumes "24 \<le> length (avail r)" and "h = messageHeaderFromBytes (take 24 (avail r))"
    and "length (avail r) < 24 + unat (Length h)"
  shows "\<exists>m' r'. Message_ReadFrom rd m r =
           Some (length (avail r),
                 Some (if 24 < length (avail r) \<and> final r = EOF then ErrUnexpectedEOF else final r), m', r')"
proof -
  obtain r1 where r1: "ReadAtLeast (LimitedReader_Read rd) (r, 24) 24 24 =
      Some (take 24 (avail r), None, (r1, 0))" "avail r1 = drop 24 (avail r)" "final r1 = final r"
    using ReadAtLeast_enough [OF assms(1)] by auto
  have "length (avail r1) < unat (Length h)" using r1 assms by simp
  from ReadAtLeast_short [OF this] obtain r2 k where
    "ReadAtLeast (LimitedReader_Read rd) (r1, unat (Length h)) (unat (Length h)) (unat (Length h)) =
       Some (drop 24 (avail r),
             Some (if drop 24 (avail r) \<noteq> [] \<and> final r = EOF then ErrUnexpectedEOF else final r), (r2, k))"
    using r1 by auto
  moreover have "Length h \<noteq> 0" using assms by auto
  ultimately show ?thesis using r1 assms by (auto simp: Message_ReadFrom_def)
qed

text \<open>\<open>ReadFrom\<close> always returns.\<close>

lemma Message_ReadFrom_returns: "\<exists>n e m' r'. Message_ReadFrom rd m r = Some (n, e, m', r')"
proof -
  have read: "\<exists>b e x k'. ReadAtLeast (LimitedReader_Read rd) (r, k) k k = Some (b, e, (x, k'))" for r k
    using ReadAtLeast_enough [of k r] ReadAtLeast_short [of r k] by (cases "k \<le> length (avail r)") auto
  obtain b e r1 k1 where 1: "ReadAtLeast (LimitedReader_Read rd) (r, 24) 24 24 = Some (b, e, (r1, k1))"
    using read by blast
  let ?l = "unat (Length (messageHeaderFromBytes b))"
  obtain b2 e2 r2 k2 where
    "ReadAtLeast (LimitedReader_Read rd) (r1, ?l) ?l ?l = Some (b2, e2, (r2, k2))"
    using read by blast
  with 1 show ?thesis by (auto simp: Message_ReadFrom_def Let_def)
qed

end

section \<open>Properties\<close>

text \<open>
  C5. Round trip over a connection: if \<open>WriteTo\<close> succeeds, the bytes it put on the wire, read
  back from any connection (however the network cut them into pieces, with more data behind
  them), give the same message again; the count is the one \<open>WriteTo\<close> returned and the reader is
  left exactly behind the message.
\<close>

theorem message_roundtrip:
  assumes "wf_message m" and "Message_WriteTo conn_Write m w = (n, None, w')"
    and "c_out w' = c_out w @ wire" and "conn_avail r = wire @ rest"
  shows "\<exists>r'. Message_ReadFrom conn_Read zeroMessage r = Some (n, None, as_received m, r') \<and>
           conn_avail r' = rest"
proof -
  have "wf_header (header m)" using assms(1) by (simp add: wf_message_def)
  from conn_wr.Message_WriteTo_prefix [OF this assms(2)] assms(3)
  have n: "n = length (encode m)" and "wire = encode m" by auto
  with assms(4) have "conn_avail r = encode m @ rest" by simp
  from conn_rd.Message_ReadFrom_encode [OF assms(1) this] n show ?thesis by auto
qed

theorem message_roundtrip_witness:
  "\<exists>r'. Message_ReadFrom conn_Read zeroMessage
           (new_conn [take 5 (encode example_message), drop 5 (encode example_message), [9]]) =
         Some (26, None, example_message, r') \<and> conn_avail r' = [9]"
proof -
  let ?w = "new_conn []"
  obtain w' where "Message_WriteTo conn_Write example_message ?w = (26, None, w')"
    and "c_out w' = c_out ?w @ encode example_message"
    by (simp add: Message_WriteTo_def MessageHeader_WriteTo_def example_message_def new_conn_def
        conn_Write_def encode_def encode_header_def payload_bytes_def)
  moreover have "wf_message example_message"
    by (simp add: wf_message_def wf_header_def example_message_def payload_bytes_def)
  moreover have "as_received example_message = example_message"
    by (simp add: as_received_def example_message_def)
  ultimately show ?thesis
    using message_roundtrip [of example_message ?w 26 w' "encode example_message"
        "new_conn [take 5 (encode example_message), drop 5 (encode example_message), [9]]" "[9]"]
    by simp
qed

text \<open>
  A truncated message is always detected: if the peer closes after a proper prefix of an
  encoding, \<open>ReadFrom\<close> returns the number of bytes that arrived and an end-of-file error, which
  is plain \<open>EOF\<close> exactly at a boundary between reads (nothing arrived, or the header only).
\<close>

lemma message_truncated:
  assumes "wf_message m" and "k < length (encode m)"
    and "conn_avail r = take k (encode m)" and "conn_final r = EOF"
  shows "\<exists>m' r'. Message_ReadFrom conn_Read zeroMessage r =
           Some (k, Some (if k = 0 \<or> k = 24 then EOF else ErrUnexpectedEOF), m', r')"
proof -
  have len: "length (conn_avail r) = k" using assms(2,3) by simp
  then have nil: "conn_avail r = [] \<longleftrightarrow> k = 0" by auto
  have h: "wf_header (header m)" using assms(1) by (simp add: wf_message_def)
  show ?thesis
  proof (cases "k < 24")
    case True
    then show ?thesis
      using conn_rd.Message_ReadFrom_short_header [of r zeroMessage] unfolding len nil assms(4) by auto
  next
    case False
    have "take 24 (conn_avail r) = encode_header (header m)"
      using False length_encode_header [OF h] by (simp add: assms(3) encode_def min_def)
    then have hd: "header m = messageHeaderFromBytes (take 24 (conn_avail r))"
      using messageHeaderFromBytes_encode [OF h] by simp
    have "k < 24 + unat (Length (header m))"
      using assms(2) length_encode [OF assms(1)] by (simp add: Length_def)
    then show ?thesis
      using conn_rd.Message_ReadFrom_short_payload [OF _ hd, of zeroMessage] False
      unfolding len assms(4) by auto
  qed
qed

text \<open>
  The header layout: decoding any 24 bytes and writing the header again reproduces them, but
  for the unused third byte, which is written as zero.  Together with the round trip this fixes the position
  of every field.
\<close>

lemma header_layout:
  assumes "length b = 24"
  shows "\<exists>c. MessageHeader_WriteTo conn_Write (messageHeaderFromBytes b) (new_conn []) = (24, None, c) \<and>
           c_out c = b[2 := 0]"
proof -
  let ?h = "messageHeaderFromBytes b"
  obtain n e c where w: "MessageHeader_WriteTo conn_Write ?h (new_conn []) = (n, e, c)"
    by (cases "MessageHeader_WriteTo conn_Write ?h (new_conn [])")
  then have "e = None" by (auto simp: MessageHeader_WriteTo_def conn_Write_def new_conn_def)
  with conn_wr.MessageHeader_WriteTo_prefix [OF wf_header_FromBytes w] w
    encode_messageHeaderFromBytes [OF assms] assms
  show ?thesis by (simp add: new_conn_def)
qed

end
