(* ===== verification/Async_Command.thy ===== *)
theory Async_Command
  imports Prelude
begin

text \<open>
  \<open>pkg/message\<close>: command identifiers and the result of an asynchronous command, with its
  binary encoding.  The encoder is translated buffer by buffer (\<open>make\<close>, \<open>PutUint32\<close>, \<open>copy\<close>);
  the decoder cuts slices and panics (\<open>None\<close>) where a Go slice expression is out of range.
\<close>

section \<open>Definitions\<close>

text \<open>\<open>Int64CommandId\<close>: an \<open>int64\<close> and the \<open>uint64\<close> it converts to have the same 64 bits.\<close>

definition Int64CommandId :: "64 word \<Rightarrow> bytes" where
  "Int64CommandId i = PutUint64 i"

record AsyncCommandResult =
  CommandId :: bytes
  Error :: string

definition IsFailed :: "AsyncCommandResult \<Rightarrow> bool" where
  "IsFailed k \<longleftrightarrow> Error k \<noteq> ''''"

text \<open>\<open>copy(b[off:off+len(src)], src)\<close> on a buffer that is long enough.\<close>

definition copy_at :: "nat \<Rightarrow> bytes \<Rightarrow> bytes \<Rightarrow> bytes" where
  "copy_at off src b = take off b @ src @ drop (off + length src) b"

definition MarshalBinary :: "AsyncCommandResult \<Rightarrow> bytes" where
  "MarshalBinary k =
     (let c = length (CommandId k);
          bytesNumber = (if IsFailed k then 4 + c + 4 + length (Error k) else 4 + c);
          b0 = replicate bytesNumber 0;
          b1 = copy_at 0 (PutUint32 (word_of_nat c)) b0;
          b2 = copy_at 4 (CommandId k) b1
      in if IsFailed k
         then let b3 = copy_at (4 + c) (PutUint32 (word_of_nat (length (Error k)))) b2
              in copy_at (4 + c + 4) (bytes_of_string (Error k)) b3
         else b2)"

text \<open>
  The outer option is the panic of an out-of-range slice; the inner one is the returned
  \<open>error\<close>, which is always nil.  \<open>int\<close> is 64 bits wide, so \<open>4 + commandLength\<close> does not overflow.
  Go lets a slice expression reach up to the capacity; \<open>data\<close> has none beyond its length, as the payloads that \<open>Message.ReadFrom\<close>
  allocates with \<open>make([]byte, n)\<close>, and \<open>slice\<close> panics beyond the length.
\<close>

definition UnmarshalBinary ::
  "AsyncCommandResult \<Rightarrow> bytes \<Rightarrow> (go_error option \<times> AsyncCommandResult) option" where
  "UnmarshalBinary k data =
     (case slice data 0 4 of None \<Rightarrow> None | Some l \<Rightarrow>
      let commandLength = unat (Uint32 l) in
      case slice data 4 (4 + commandLength) of None \<Rightarrow> None | Some cid \<Rightarrow>
      if length data > 4 + commandLength
      then case slice data (4 + commandLength) (4 + commandLength + 4) of None \<Rightarrow> None | Some el \<Rightarrow>
           let errLength = unat (Uint32 el) in
           case slice data (4 + commandLength + 4) (4 + commandLength + 4 + errLength) of
             None \<Rightarrow> None
           | Some es \<Rightarrow> Some (None, k\<lparr>CommandId := cid, Error := string_of_bytes es\<rparr>)
      else Some (None, k\<lparr>CommandId := cid\<rparr>))"

definition ParseAsyncCommandResult :: "bytes \<Rightarrow> (go_error + AsyncCommandResult) option" where
  "ParseAsyncCommandResult data =
     (case UnmarshalBinary \<lparr>CommandId = [], Error = ''''\<rparr> data of
        None \<Rightarrow> None
      | Some (Some err, _) \<Rightarrow> Some (Inl err)
      | Some (None, acr) \<Rightarrow> Some (Inr acr))"

section \<open>The encoding as a byte string\<close>

definition acr_encode :: "AsyncCommandResult \<Rightarrow> bytes" where
  "acr_encode k = PutUint32 (word_of_nat (length (CommandId k))) @ CommandId k @
     (if IsFailed k then PutUint32 (word_of_nat (length (Error k))) @ bytes_of_string (Error k) else [])"

text \<open>Both lengths fit the 32-bit length fields.\<close>

definition acr_fits :: "AsyncCommandResult \<Rightarrow> bool" where
  "acr_fits k \<longleftrightarrow> length (CommandId k) < 2 ^ 32 \<and> length (Error k) < 2 ^ 32"

text \<open>When the decoder does not panic: the lengths found in the data stay inside it.\<close>

definition acr_lengths_ok :: "bytes \<Rightarrow> bool" where
  "acr_lengths_ok data \<longleftrightarrow> 4 \<le> length data \<and>
     (let c = unat (Uint32 (take 4 data)) in
      4 + c \<le> length data \<and>
      (4 + c < length data \<longrightarrow> 8 + c \<le> length data \<and>
         8 + c + unat (Uint32 (take 4 (drop (4 + c) data))) \<le> length data))"

section \<open>Lemmas\<close>

lemma copy_at_append:
  assumes "length pre = off" and "length src \<le> n"
  shows "copy_at off src (pre @ replicate n 0) = (pre @ src) @ replicate (n - length src) 0"
  using assms by (simp add: copy_at_def)

lemma MarshalBinary_acr_encode: "MarshalBinary k = acr_encode k"
proof -
  let ?c = "PutUint32 (word_of_nat (length (CommandId k)))"
    and ?e = "PutUint32 (word_of_nat (length (Error k)))"
  have start: "copy_at 0 ?c (replicate (4 + m) 0) = ?c @ replicate m 0" for m
    using copy_at_append [of "[]" 0 ?c "4 + m"] by simp
  have cid: "copy_at 4 (CommandId k) (?c @ replicate (length (CommandId k) + m) 0) =
      (?c @ CommandId k) @ replicate m 0" for m
    using copy_at_append [of ?c 4 "CommandId k" "length (CommandId k) + m"] by simp
  have elen: "copy_at (4 + length (CommandId k)) ?e ((?c @ CommandId k) @ replicate (4 + m) 0) =
      (?c @ CommandId k @ ?e) @ replicate m 0" for m
    using copy_at_append [of "?c @ CommandId k" "4 + length (CommandId k)" ?e "4 + m"] by simp
  have err: "copy_at (4 + length (CommandId k) + 4) (bytes_of_string (Error k))
      ((?c @ CommandId k @ ?e) @ replicate (length (Error k)) 0) =
      ?c @ CommandId k @ ?e @ bytes_of_string (Error k)"
    using copy_at_append [of "?c @ CommandId k @ ?e" "4 + length (CommandId k) + 4"
        "bytes_of_string (Error k)" "length (Error k)"] by simp
  show ?thesis
  proof (cases "IsFailed k")
    case True
    have n: "4 + length (CommandId k) + 4 + length (Error k) =
        4 + (length (CommandId k) + (4 + length (Error k)))" by simp
    show ?thesis
      unfolding MarshalBinary_def Let_def if_P [OF True] n start cid elen err
      using True by (simp add: acr_encode_def)
  next
    case False
    show ?thesis
      unfolding MarshalBinary_def Let_def if_not_P [OF False] start
      using False cid [of 0] by (simp add: acr_encode_def)
  qed
qed

lemma UnmarshalBinary_None_iff: "UnmarshalBinary k data = None \<longleftrightarrow> \<not> acr_lengths_ok data"
  by (auto simp: UnmarshalBinary_def acr_lengths_ok_def slice_def Let_def split: option.splits)

lemma UnmarshalBinary_acr_encode:
  assumes "acr_fits k"
  shows "UnmarshalBinary \<lparr>CommandId = [], Error = ''''\<rparr> (acr_encode k) = Some (None, k)"
proof -
  have u: "unat (word_of_nat (length (CommandId k)) :: 32 word) = length (CommandId k)"
    "unat (word_of_nat (length (Error k)) :: 32 word) = length (Error k)"
    using assms by (simp_all add: acr_fits_def)
  show ?thesis
  proof (cases "IsFailed k")
    case True
    then show ?thesis using u
      by (simp add: UnmarshalBinary_def acr_encode_def slice_def IsFailed_def)
  next
    case False
    then show ?thesis using u
      by (cases k) (simp add: UnmarshalBinary_def acr_encode_def slice_def IsFailed_def)
  qed
qed

section \<open>Properties\<close>

text \<open>
  C33. Round trip: a command result whose identifier and error text are shorter than 4 GiB is
  recovered exactly from its binary form, error text included.
\<close>

theorem async_command_result_roundtrip:
  assumes "length (CommandId k) < 2 ^ 32" and "length (Error k) < 2 ^ 32"
  shows "ParseAsyncCommandResult (MarshalBinary k) = Some (Inr k)"
  using UnmarshalBinary_acr_encode [of k] assms
  by (simp add: ParseAsyncCommandResult_def MarshalBinary_acr_encode acr_fits_def)

theorem async_command_result_roundtrip_witness:
  "ParseAsyncCommandResult (MarshalBinary \<lparr>CommandId = [0, 1], Error = ''boom''\<rparr>) =
     Some (Inr \<lparr>CommandId = [0, 1], Error = ''boom''\<rparr>)"
  by (rule async_command_result_roundtrip) simp_all

text \<open>
  C34. The parser of command results has no error result: on every input it either panics or
  succeeds, and it panics exactly when one of the two length fields points outside the data.  A
  malformed payload is therefore never reported to the caller as an error.
\<close>

theorem parse_async_command_result_panics_iff:
  "(ParseAsyncCommandResult data = None \<longleftrightarrow> \<not> acr_lengths_ok data) \<and>
   (\<forall>err. ParseAsyncCommandResult data \<noteq> Some (Inl err))"
proof -
  have "UnmarshalBinary k data \<noteq> Some (Some err, k')" for k err k'
    by (auto simp: UnmarshalBinary_def Let_def split: option.splits)
  then show ?thesis
    using UnmarshalBinary_None_iff [of "\<lparr>CommandId = [], Error = ''''\<rparr>" data]
    by (auto simp: ParseAsyncCommandResult_def split: option.splits prod.splits)
qed

end
