(* ===== verification/Message_Queue.thy ===== *)
theory Message_Queue
  imports Prelude
begin

text \<open>
  \<open>pkg/network/message_queue.go\<close>: the unbounded queue between the connection and its users.

  The operations under the queue's mutex are functions on the list of messages, with the
  interface locale \<open>fifo_queue\<close> for their clients.  \<open>blockingPoll\<close> is a small program over the
  mutex, the condition variable and the context, so it is modelled a second time as a step
  relation: one program counter per line of the source, interleaved with the other goroutines
  (appenders, their signals, the cancellation of the context and the broadcast that follows it).
  Each queue of the program has one polling goroutine, as here.
\<close>

section \<open>The operations under the mutex\<close>

record 'm unboundedMessageQueue =
  queue :: "'m list"

definition newUnboundedMessageQueue :: "'m unboundedMessageQueue" where
  "newUnboundedMessageQueue = \<lparr>queue = []\<rparr>"

definition queue_append :: "'m unboundedMessageQueue \<Rightarrow> 'm \<Rightarrow> 'm unboundedMessageQueue" where
  "queue_append q msg = q\<lparr>queue := queue q @ [msg]\<rparr>"

definition queue_prepend :: "'m unboundedMessageQueue \<Rightarrow> 'm \<Rightarrow> 'm unboundedMessageQueue" where
  "queue_prepend q msg = q\<lparr>queue := [msg] @ queue q\<rparr>"

text \<open>
  One pass of \<open>blockingPoll\<close> under the mutex: \<open>None\<close> when the queue is empty (the caller waits),
  otherwise the head and the rest.
\<close>

definition queue_take :: "'m unboundedMessageQueue \<Rightarrow> ('m \<times> 'm unboundedMessageQueue) option" where
  "queue_take q = (case queue q of [] \<Rightarrow> None | m # ms \<Rightarrow> Some (m, q\<lparr>queue := ms\<rparr>))"

section \<open>The interface\<close>

locale fifo_queue =
  fixes emp :: 'q
    and enq :: "'q \<Rightarrow> 'm \<Rightarrow> 'q"
    and push :: "'q \<Rightarrow> 'm \<Rightarrow> 'q"
    and deq :: "'q \<Rightarrow> ('m \<times> 'q) option"
    and contents :: "'q \<Rightarrow> 'm list"
  assumes contents_emp: "contents emp = []"
    and contents_enq: "contents (enq q m) = contents q @ [m]"
    and contents_push: "contents (push q m) = m # contents q"
    and deq_None: "deq q = None \<longleftrightarrow> contents q = []"
    and deq_Some: "deq q = Some (m, q') \<Longrightarrow> contents q = m # contents q'"
begin

lemma contents_foldl_enq: "contents (foldl enq q ms) = contents q @ ms"
  by (induction ms arbitrary: q) (simp_all add: contents_enq)

text \<open>Putting a taken message back restores the queue's contents, whatever was appended in between.\<close>

lemma push_after_deq:
  "deq q = Some (m, q') \<Longrightarrow> contents (push (foldl enq q' ms) m) = contents q @ ms"
proof -
  assume "deq q = Some (m, q')"
  from deq_Some [OF this] show ?thesis by (simp add: contents_push contents_foldl_enq)
qed

end

interpretation mq: fifo_queue newUnboundedMessageQueue queue_append queue_prepend queue_take queue
  by unfold_locales
     (auto simp: newUnboundedMessageQueue_def queue_append_def queue_prepend_def queue_take_def
        split: list.splits)

section \<open>Polling as a program\<close>

text \<open>
  The program counter of the polling goroutine: before the context check (line 41), at \<open>Lock\<close>
  (44), at the loop test (45, mutex held), asleep in \<open>Wait\<close> (46), woken and waiting for the
  mutex, at the second context check (47, mutex held), returning.
\<close>

datatype 'm poll_pc =
    PollIdle | PollCheckCtx | PollLock | PollTest | PollAsleep | PollWoken | PollRecheck
  | PollReturn "'m option"

text \<open>The goroutine that closes the context and then calls \<open>unblockPoll\<close>.\<close>

datatype cancel_pc = CancelIdle | CancelBroadcast | CancelDone

record 'm qstate =
  q_queue :: "'m unboundedMessageQueue"
  q_pc :: "'m poll_pc"
  q_signals :: nat  \<comment> \<open>calls of \<open>append\<close> and \<open>prepend\<close> that have not reached \<open>Signal\<close> yet\<close>
  q_cancel :: cancel_pc

datatype 'm qlabel =
    LTau | LAppend 'm | LPrepend 'm | LSignal | LCancel | LBroadcast | LCall | LTake 'm
  | LReturn "'m option"

definition q_init :: "'m qstate" where
  "q_init = \<lparr>q_queue = newUnboundedMessageQueue, q_pc = PollIdle, q_signals = 0, q_cancel = CancelIdle\<rparr>"

text \<open>\<open>ctx.Err() != nil\<close>.\<close>

definition ctx_closed :: "'m qstate \<Rightarrow> bool" where
  "ctx_closed s \<longleftrightarrow> q_cancel s \<noteq> CancelIdle"

definition poll_holds_lock :: "'m poll_pc \<Rightarrow> bool" where
  "poll_holds_lock pc \<longleftrightarrow> pc = PollTest \<or> pc = PollRecheck"

definition wake :: "'m poll_pc \<Rightarrow> 'm poll_pc" where
  "wake pc = (if pc = PollAsleep then PollWoken else pc)"

text \<open>The steps of the polling goroutine.\<close>

inductive blockingPoll :: "'m qstate \<Rightarrow> 'm qlabel \<Rightarrow> 'm qstate \<Rightarrow> bool" where
  poll_call: "q_pc s = PollIdle \<Longrightarrow> blockingPoll s LCall (s\<lparr>q_pc := PollCheckCtx\<rparr>)"
| poll_ctx_closed: "q_pc s = PollCheckCtx \<Longrightarrow> ctx_closed s \<Longrightarrow>
    blockingPoll s LTau (s\<lparr>q_pc := PollReturn None\<rparr>)"
| poll_ctx_open: "q_pc s = PollCheckCtx \<Longrightarrow> \<not> ctx_closed s \<Longrightarrow>
    blockingPoll s LTau (s\<lparr>q_pc := PollLock\<rparr>)"
| poll_lock: "q_pc s = PollLock \<Longrightarrow> blockingPoll s LTau (s\<lparr>q_pc := PollTest\<rparr>)"
| poll_wait: "q_pc s = PollTest \<Longrightarrow> queue_take (q_queue s) = None \<Longrightarrow>
    blockingPoll s LTau (s\<lparr>q_pc := PollAsleep\<rparr>)"
| poll_take: "q_pc s = PollTest \<Longrightarrow> queue_take (q_queue s) = Some (m, q') \<Longrightarrow>
    blockingPoll s (LTake m) (s\<lparr>q_queue := q', q_pc := PollReturn (Some m)\<rparr>)"
| poll_relock: "q_pc s = PollWoken \<Longrightarrow> blockingPoll s LTau (s\<lparr>q_pc := PollRecheck\<rparr>)"
| poll_recheck_closed: "q_pc s = PollRecheck \<Longrightarrow> ctx_closed s \<Longrightarrow>
    blockingPoll s LTau (s\<lparr>q_pc := PollReturn None\<rparr>)"
| poll_recheck_open: "q_pc s = PollRecheck \<Longrightarrow> \<not> ctx_closed s \<Longrightarrow>
    blockingPoll s LTau (s\<lparr>q_pc := PollTest\<rparr>)"
| poll_return: "q_pc s = PollReturn r \<Longrightarrow> blockingPoll s (LReturn r) (s\<lparr>q_pc := PollIdle\<rparr>)"

text \<open>
  The other goroutines.  An append holds the mutex for one step and signals later, outside it;
  \<open>unblockPoll\<close> broadcasts without taking the mutex at all.
\<close>

inductive qstep :: "'m qstate \<Rightarrow> 'm qlabel \<Rightarrow> 'm qstate \<Rightarrow> bool" where
  q_poll: "blockingPoll s l t \<Longrightarrow> qstep s l t"
| q_append: "\<not> poll_holds_lock (q_pc s) \<Longrightarrow>
    qstep s (LAppend m) (s\<lparr>q_queue := queue_append (q_queue s) m, q_signals := Suc (q_signals s)\<rparr>)"
| q_prepend: "\<not> poll_holds_lock (q_pc s) \<Longrightarrow>
    qstep s (LPrepend m) (s\<lparr>q_queue := queue_prepend (q_queue s) m, q_signals := Suc (q_signals s)\<rparr>)"
| q_signal: "q_signals s = Suc n \<Longrightarrow>
    qstep s LSignal (s\<lparr>q_signals := n, q_pc := wake (q_pc s)\<rparr>)"
| q_cancel_ctx: "q_cancel s = CancelIdle \<Longrightarrow> qstep s LCancel (s\<lparr>q_cancel := CancelBroadcast\<rparr>)"
| q_unblockPoll: "q_cancel s = CancelBroadcast \<Longrightarrow>
    qstep s LBroadcast (s\<lparr>q_cancel := CancelDone, q_pc := wake (q_pc s)\<rparr>)"

inductive qrun :: "'m qstate \<Rightarrow> 'm qlabel list \<Rightarrow> 'm qstate \<Rightarrow> bool" where
  qrun_nil: "qrun s [] s"
| qrun_step: "qrun s ls t \<Longrightarrow> qstep t l u \<Longrightarrow> qrun s (ls @ [l]) u"

inductive_cases blockingPollE: "blockingPoll s l t"
inductive_cases qstepE: "qstep s l t"
inductive_simps qstep_iff: "qstep s l t"
inductive_simps blockingPoll_iff: "blockingPoll s l t"

section \<open>Abstract specification\<close>

text \<open>What a step does to the list of messages, seen from outside.\<close>

fun queue_spec :: "'m list \<Rightarrow> 'm qlabel \<Rightarrow> 'm list option" where
  "queue_spec q (LAppend m) = Some (q @ [m])"
| "queue_spec q (LPrepend m) = Some (m # q)"
| "queue_spec [] (LTake m) = None"
| "queue_spec (x # xs) (LTake m) = (if x = m then Some xs else None)"
| "queue_spec q _ = Some q"

text \<open>The messages appended, and the messages returned to callers, along a run.\<close>

fun appended :: "'m qlabel list \<Rightarrow> 'm list" where
  "appended [] = []"
| "appended (LAppend m # ls) = m # appended ls"
| "appended (_ # ls) = appended ls"

fun returned :: "'m qlabel list \<Rightarrow> 'm list" where
  "returned [] = []"
| "returned (LReturn (Some m) # ls) = m # returned ls"
| "returned (_ # ls) = returned ls"

fun is_prepend :: "'m qlabel \<Rightarrow> bool" where
  "is_prepend (LPrepend _) = True"
| "is_prepend _ = False"

definition pending :: "'m poll_pc \<Rightarrow> 'm list" where
  "pending pc = (case pc of PollReturn (Some m) \<Rightarrow> [m] | _ \<Rightarrow> [])"

subsection \<open>States used as examples\<close>

definition two_msgs :: "nat qstate" where
  "two_msgs = \<lparr>q_queue = \<lparr>queue = [8]\<rparr>, q_pc = PollReturn (Some 7), q_signals = Suc (Suc 0), q_cancel = CancelIdle\<rparr>"

definition asleep_with_msg :: "nat qstate" where
  "asleep_with_msg = \<lparr>q_queue = \<lparr>queue = [7]\<rparr>, q_pc = PollAsleep, q_signals = 1, q_cancel = CancelIdle\<rparr>"

definition closed_before_poll :: "nat qstate" where
  "closed_before_poll =
     \<lparr>q_queue = \<lparr>queue = []\<rparr>, q_pc = PollReturn None, q_signals = 0, q_cancel = CancelBroadcast\<rparr>"

section \<open>Lemmas\<close>

lemma wake_simps [simp]:
  "wake PollAsleep = PollWoken" "pc \<noteq> PollAsleep \<Longrightarrow> wake pc = pc"
  by (simp_all add: wake_def)

lemma pending_wake [simp]: "pending (wake pc) = pending pc"
  by (simp add: wake_def pending_def)

lemma queue_take_eq:
  "queue_take q = None \<longleftrightarrow> queue q = []"
  "queue_take q = Some (m, q') \<longleftrightarrow> (\<exists>ms. queue q = m # ms \<and> q' = q\<lparr>queue := ms\<rparr>)"
  by (auto simp: queue_take_def split: list.splits)

lemma appended_append [simp]: "appended (ls @ [l]) = appended ls @ appended [l]"
  by (induction ls rule: appended.induct) auto

lemma returned_append [simp]: "returned (ls @ [l]) = returned ls @ returned [l]"
  by (induction ls rule: returned.induct) auto

lemmas queue_op_defs = queue_append_def queue_prepend_def newUnboundedMessageQueue_def

lemma qstep_refines_spec:
  "qstep s l t \<Longrightarrow> queue_spec (queue (q_queue s)) l = Some (queue (q_queue t))"
  by (erule qstepE; (erule blockingPollE)?) (auto simp: queue_op_defs queue_take_eq)

text \<open>Order along a run without \<open>prepend\<close>.\<close>

lemma qstep_fifo:
  assumes "qstep s l t" and "\<not> is_prepend l"
  shows "pending (q_pc s) @ queue (q_queue s) @ appended [l] =
         returned [l] @ pending (q_pc t) @ queue (q_queue t)"
  using assms
  by (elim qstepE; (elim blockingPollE)?)
     (auto simp: queue_op_defs queue_take_eq pending_def split: poll_pc.splits option.splits)

lemma qrun_fifo:
  assumes "qrun s ls t" and "\<forall>l \<in> set ls. \<not> is_prepend l"
  shows "pending (q_pc s) @ queue (q_queue s) @ appended ls =
         returned ls @ pending (q_pc t) @ queue (q_queue t)"
  using assms
proof (induction rule: qrun.induct)
  case (qrun_nil s)
  then show ?case by simp
next
  case (qrun_step s ls t l u)
  then have "pending (q_pc t) @ queue (q_queue t) @ appended [l] =
      returned [l] @ pending (q_pc u) @ queue (q_queue u)"
    by (intro qstep_fifo) auto
  with qrun_step show ?case by (simp del: appended.simps returned.simps) (metis append_assoc)
qed

subsection \<open>Invariant\<close>

text \<open>
  A sleeping poller with a message in the queue is about to be signalled, and a poller that
  returns nil has seen a closed context.
\<close>

definition q_inv :: "'m qstate \<Rightarrow> bool" where
  "q_inv s \<longleftrightarrow> (q_pc s = PollAsleep \<and> queue (q_queue s) \<noteq> [] \<longrightarrow> 0 < q_signals s) \<and>
              (q_pc s = PollReturn None \<longrightarrow> ctx_closed s)"

lemma q_inv_init: "q_inv q_init"
  by (simp add: q_inv_def q_init_def)

lemma qstep_q_inv: "qstep s l t \<Longrightarrow> q_inv s \<Longrightarrow> q_inv t"
  by (erule qstepE; (erule blockingPollE)?)
     (auto simp: q_inv_def ctx_closed_def queue_op_defs queue_take_eq wake_def split: if_splits)

lemma qrun_q_inv: "qrun s ls t \<Longrightarrow> q_inv s \<Longrightarrow> q_inv t"
  by (induction rule: qrun.induct) (auto intro: qstep_q_inv)

subsection \<open>Building runs\<close>

lemma qrun_append: "qrun t ls' u \<Longrightarrow> qrun s ls t \<Longrightarrow> qrun s (ls @ ls') u"
  by (induction rule: qrun.induct) (auto simp flip: append_assoc intro: qrun.intros)

lemma qrun_cons: "qstep s l t \<Longrightarrow> qrun t ls u \<Longrightarrow> qrun s (l # ls) u"
  using qrun_append [of t ls u s "[l]"] qrun.intros(2) [OF qrun.intros(1), of s l t] by simp

lemmas poll_steps = blockingPoll.intros [THEN q_poll]

text \<open>A goroutine that holds the mutex, or waits for it, reaches the loop test by itself.\<close>

lemma poll_reaches_test:
  assumes "q_inv s" and "\<not> ctx_closed s" and "queue (q_queue s) \<noteq> []"
    and "q_pc s \<noteq> PollIdle" and "\<forall>r. q_pc s \<noteq> PollReturn r"
  shows "\<exists>ls t. qrun s ls t \<and> set ls \<subseteq> {LTau, LSignal} \<and> q_pc t = PollTest \<and> q_queue t = q_queue s"
proof -
  have lock: "\<exists>ls t. qrun u ls t \<and> set ls \<subseteq> {LTau, LSignal} \<and> q_pc t = PollTest \<and> q_queue t = q_queue u"
    if "q_pc u = PollLock" for u :: "'a qstate"
    using that by (intro exI conjI, rule qrun_cons [OF poll_steps(4) qrun_nil]) auto
  have woken: "\<exists>ls t. qrun u ls t \<and> set ls \<subseteq> {LTau, LSignal} \<and> q_pc t = PollTest \<and> q_queue t = q_queue u"
    if "q_pc u = PollWoken" "\<not> ctx_closed u" for u :: "'a qstate"
  proof -
    have "\<not> ctx_closed (u\<lparr>q_pc := PollRecheck\<rparr>)" using that by (simp add: ctx_closed_def)
    then have "qrun u [LTau, LTau] (u\<lparr>q_pc := PollRecheck, q_pc := PollTest\<rparr>)"
      using that by (intro qrun_cons [OF poll_steps(7)] qrun_cons [OF poll_steps(9)] qrun_nil) auto
    then show ?thesis 
      by (intro exI [of _ "[LTau, LTau]"] exI [of _ "u\<lparr>q_pc := PollTest\<rparr>"]) auto
  qed
  show ?thesis
  proof (cases "q_pc s")
    case PollCheckCtx
    let ?s = "s\<lparr>q_pc := PollLock\<rparr>"
    obtain ls t where "qrun ?s ls t" "set ls \<subseteq> {LTau, LSignal}" "q_pc t = PollTest" "q_queue t = q_queue s"
      using lock [of ?s] by auto
    with qrun_cons [OF poll_steps(3) [OF PollCheckCtx assms(2)]] show ?thesis
      by (intro exI [of _ "LTau # ls"] exI [of _ t]) auto
  next
    case PollAsleep
    with assms obtain n where n: "q_signals s = Suc n" by (auto simp: q_inv_def gr0_conv_Suc)
    let ?s = "s\<lparr>q_signals := n, q_pc := wake (q_pc s)\<rparr>"
    obtain ls t where "qrun ?s ls t" "set ls \<subseteq> {LTau, LSignal}" "q_pc t = PollTest" "q_queue t = q_queue s"
      using woken [of ?s] PollAsleep assms(2) by (auto simp: ctx_closed_def)
    with qrun_cons [OF q_signal [OF n]] show ?thesis
      by (intro exI [of _ "LSignal # ls"] exI [of _ t]) auto
  next
    case PollRecheck
    from qrun_cons [OF poll_steps(9) [OF this assms(2)] qrun_nil] show ?thesis
      by (intro exI [of _ "[LTau]"] exI [of _ "s\<lparr>q_pc := PollTest\<rparr>"]) simp
  next
    case PollTest
    with qrun_nil [of s] show ?thesis by (intro exI [of _ "[]"] exI [of _ s]) simp
  qed (use assms lock woken in auto)
qed

section \<open>Properties\<close>

text \<open>
  C20. First in, first out: along every interleaving of appenders, signals, cancellation and the
  polling goroutine in which nothing is put back with \<open>prepend\<close>, the messages appended so far
  are the messages returned to callers, then the one being returned, then the queue, in order.
  Nothing is lost, duplicated or reordered.
\<close>

theorem blockingPoll_fifo:
  assumes "qrun q_init ls s" and "\<forall>l \<in> set ls. \<not> is_prepend l"
  shows "appended ls = returned ls @ pending (q_pc s) @ queue (q_queue s)"
  using qrun_fifo [OF assms] by (simp add: q_init_def pending_def newUnboundedMessageQueue_def)

lemma two_msgs_run: "qrun q_init [LAppend 7, LAppend 8, LCall, LTau, LTau, LTake 7] two_msgs"
  unfolding q_init_def
  by (rule qrun_cons, rule q_append, simp add: poll_holds_lock_def,
      rule qrun_cons, rule q_append, simp add: poll_holds_lock_def,
      rule qrun_cons, rule poll_steps(1), simp,
      rule qrun_cons, rule poll_steps(3), simp, simp add: ctx_closed_def,
      rule qrun_cons, rule poll_steps(4), simp,
      rule qrun_cons, rule poll_steps(6), simp, simp add: queue_take_def queue_op_defs,
      simp add: two_msgs_def queue_op_defs qrun_nil)

theorem blockingPoll_fifo_witness:
  "\<exists>ls s. qrun q_init ls s \<and> appended ls = [7, 8] \<and> returned ls = [7 :: nat] \<and> [7, 8] = [7] @ pending (q_pc s) @ queue (q_queue s)"
proof -
  let ?ls = "[LAppend 7, LAppend 8, LCall, LTau, LTau, LTake 7] @ [LReturn (Some 7)]"
  have run: "qrun q_init ?ls (two_msgs\<lparr>q_pc := PollIdle\<rparr>)"
    by (rule qrun_step [OF two_msgs_run poll_return [THEN q_poll]]) (simp add: two_msgs_def)
  from blockingPoll_fifo [OF this] run show ?thesis by (intro exI [of _ ?ls] exI [of _ "two_msgs\<lparr>q_pc := PollIdle\<rparr>"]) simp
qed

text \<open>
  C21. No appended message is left behind: whenever a goroutine is inside \<open>blockingPoll\<close>, the
  queue is not empty and the context is open, pending signals and the goroutine's own steps are
  enough for it to return the message at the head of the queue.
\<close>

theorem blockingPoll_delivers:
  assumes "qrun q_init ls s" and "\<not> ctx_closed s"
    and "q_pc s \<noteq> PollIdle" and "\<forall>r. q_pc s \<noteq> PollReturn r"
    and "queue (q_queue s) = m # ms"
  shows "\<exists>ls' t. qrun s ls' t \<and> set ls' \<subseteq> {LTau, LSignal, LTake m} \<and>
           q_pc t = PollReturn (Some m) \<and> queue (q_queue t) = ms"
proof -
  have "q_inv s" using qrun_q_inv [OF assms(1) q_inv_init] .
  with assms obtain ls1 t1 where
    t1: "qrun s ls1 t1" "set ls1 \<subseteq> {LTau, LSignal}" "q_pc t1 = PollTest" "q_queue t1 = q_queue s"
    using poll_reaches_test [of s] by auto
  have "queue_take (q_queue t1) = Some (m, (q_queue t1)\<lparr>queue := ms\<rparr>)"
    using t1 assms(5) by (simp add: queue_take_def)
  from qrun_step [OF t1(1) poll_steps(6) [OF t1(3) this]] t1(2) show ?thesis by fastforce
qed

lemma asleep_with_msg_run: "qrun q_init [LCall, LTau, LTau, LTau, LAppend 7] asleep_with_msg"
  unfolding q_init_def
  by (rule qrun_cons, rule poll_steps(1), simp,
      rule qrun_cons, rule poll_steps(3), simp, simp add: ctx_closed_def,
      rule qrun_cons, rule poll_steps(4), simp,
      rule qrun_cons, rule poll_steps(5), simp, simp add: queue_take_def queue_op_defs,
      rule qrun_cons, rule q_append, simp add: poll_holds_lock_def,
      simp add: asleep_with_msg_def queue_op_defs qrun_nil)

theorem blockingPoll_delivers_witness:
  "\<exists>ls' t. qrun asleep_with_msg ls' t \<and> set ls' \<subseteq> {LTau, LSignal, LTake 7} \<and>
     q_pc t = PollReturn (Some 7) \<and> queue (q_queue t) = []"
  by (rule blockingPoll_delivers [OF asleep_with_msg_run])
     (simp_all add: asleep_with_msg_def ctx_closed_def)

text \<open>
  \<open>blockingPoll\<close> returns nil only after the context was closed.
\<close>

lemma blockingPoll_nil_only_when_closed:
  assumes "qrun q_init ls s" and "qstep s (LReturn None) t"
  shows "ctx_closed s"
proof -
  have "q_pc s = PollReturn None" using assms(2) by (auto elim!: qstepE blockingPollE)
  with qrun_q_inv [OF assms(1) q_inv_init] show ?thesis by (simp add: q_inv_def)
qed

lemma closed_before_poll_run: "qrun q_init [LCancel, LCall, LTau] closed_before_poll"
  unfolding q_init_def
  by (rule qrun_cons, rule q_cancel_ctx, simp,
      rule qrun_cons, rule poll_steps(1), simp,
      rule qrun_cons, rule poll_steps(2), simp, simp add: ctx_closed_def,
      simp add: closed_before_poll_def queue_op_defs qrun_nil)

text \<open>
  A lost wake-up: the comment on \<open>blockingPoll\<close> promises that closing the context unblocks
  it, but \<open>unblockPoll\<close> broadcasts without the mutex.  There is a run that closes the context,
  performs the broadcast and leaves the goroutine asleep, with nothing left that could wake it:
  every further step is another goroutine putting a new message into the queue.
\<close>

lemma blockingPoll_lost_wakeup:
  "\<exists>ls (s :: nat qstate). qrun q_init ls s \<and> q_pc s = PollAsleep \<and> q_cancel s = CancelDone \<and>
     {l. \<exists>t. qstep s l t} \<subseteq> range LAppend \<union> range LPrepend"
proof -
  let ?s = "\<lparr>q_queue = \<lparr>queue = []\<rparr>, q_pc = PollAsleep, q_signals = 0, q_cancel = CancelDone\<rparr> :: nat qstate"
  have "qrun q_init [LCall, LTau, LCancel, LBroadcast, LTau, LTau] ?s"
    unfolding q_init_def
    by (rule qrun_cons, rule poll_steps(1), simp,
        rule qrun_cons, rule poll_steps(3), simp, simp add: ctx_closed_def,
        rule qrun_cons, rule q_cancel_ctx, simp,
        rule qrun_cons, rule q_unblockPoll, simp,
        rule qrun_cons, rule poll_steps(4), simp,
        rule qrun_cons, rule poll_steps(5), simp, simp add: queue_take_def queue_op_defs,
        simp add: queue_op_defs qrun_nil)
  moreover have "{l. \<exists>t. qstep ?s l t} \<subseteq> range LAppend \<union> range LPrepend"
    by (auto elim!: qstepE blockingPollE)
  ultimately show ?thesis by (intro exI conjI) auto
qed

end
