(* ===== verification/Base_Connection.thy ===== *)
theory Base_Connection
  imports Message Message_Queue "HOL-Library.Sublist"
begin

text \<open>
  \<open>pkg/network/base_connection.go\<close> and \<open>errors.go\<close>: the queues of a connection, reading and
  writing one message on a \<open>net.Conn\<close>, and \<open>consumeConnection\<close>, whose three goroutines (the
  monitor that closes the connection, the writer, the reader) run concurrently with the users of
  the connection.  The goroutines are a labelled step relation with one program counter each;
  labels record what the outside sees (messages submitted, written, received, handed out,
  errors taken from the channel).
\<close>

section \<open>Errors\<close>

definition isTransientError :: "go_error \<Rightarrow> bool" where
  "isTransientError err =
     (case err of NetError _ temporary timeout \<Rightarrow> temporary \<or> timeout | _ \<Rightarrow> False)"

definition isEOF :: "go_error \<Rightarrow> bool" where
  "isEOF err \<longleftrightarrow> errors_Is err EOF \<or> errors_Is err ErrUnexpectedEOF"

section \<open>The connection state\<close>

text \<open>The channel \<open>unrecoverableErrors\<close> has room for ten errors (\<open>make(chan error, 10)\<close>).\<close>

definition errors_cap :: nat where
  "errors_cap = 10"

record baseTcpConnection =
  ctx_done :: bool
  writeQueue :: "Message unboundedMessageQueue"
  readQueue :: "Message unboundedMessageQueue"
  unrecoverableErrors :: "go_error list"
  errors_closed :: bool

definition newBaseTcpConnection :: baseTcpConnection where
  "newBaseTcpConnection =
     \<lparr>ctx_done = False, writeQueue = newUnboundedMessageQueue, readQueue = newUnboundedMessageQueue,
      unrecoverableErrors = [], errors_closed = False\<rparr>"

definition WriteMessage :: "baseTcpConnection \<Rightarrow> Message \<Rightarrow> baseTcpConnection" where
  "WriteMessage t msg = t\<lparr>writeQueue := queue_append (writeQueue t) msg\<rparr>"

text \<open>
  \<open>ReadMessage\<close>: \<open>None\<close> while it blocks, otherwise the returned pointer (nil or a message).  The argument \<open>closed\<close> is what
  \<open>blockingPoll\<close> saw when it last looked at the context, which may have been closed since: the look and the take are two steps of
  the code (Message_Queue has them apart).
\<close>

definition ReadMessage :: "bool \<Rightarrow> baseTcpConnection \<Rightarrow> (Message option \<times> baseTcpConnection) option" where
  "ReadMessage closed t =
     (if closed then Some (None, t)
      else case queue_take (readQueue t) of
             None \<Rightarrow> None
           | Some (m, q') \<Rightarrow> Some (Some m, t\<lparr>readQueue := q'\<rparr>))"

text \<open>\<open>Errors()\<close> hands out the channel; a receive takes its first element.\<close>

definition Errors_recv :: "baseTcpConnection \<Rightarrow> (go_error \<times> baseTcpConnection) option" where
  "Errors_recv t = (case unrecoverableErrors t of
     [] \<Rightarrow> None | e # es \<Rightarrow> Some (e, t\<lparr>unrecoverableErrors := es\<rparr>))"

text \<open>A send blocks (\<open>None\<close>) while the channel is full.\<close>

definition Errors_send :: "go_error \<Rightarrow> baseTcpConnection \<Rightarrow> baseTcpConnection option" where
  "Errors_send e t =
     (if length (unrecoverableErrors t) < errors_cap
      then Some (t\<lparr>unrecoverableErrors := unrecoverableErrors t @ [e]\<rparr>) else None)"

definition cleanup :: "baseTcpConnection \<Rightarrow> baseTcpConnection" where
  "cleanup t = t\<lparr>errors_closed := True\<rparr>"

section \<open>One message on the wire\<close>

definition lengthMismatch :: "nat \<Rightarrow> Message \<Rightarrow> go_error" where
  "lengthMismatch n msg =
     ErrorString (''the number of read bytes doesn't match the expected length: '' @ string_of_nat n
                  @ '' != '' @ string_of_nat (unat (Length (header msg)) + 24))"

definition connRead :: "conn \<Rightarrow> ((go_error + Message) \<times> conn) option" where
  "connRead c =
     (case Message_ReadFrom conn_Read zeroMessage c of
        None \<Rightarrow> None
      | Some (n, err, msg, c') \<Rightarrow>
          (case err of
             Some e \<Rightarrow> Some (Inl e, c')
           | None \<Rightarrow>
               if n \<noteq> unat (Length (header msg)) + 24
               then Some (Inl (lengthMismatch n msg), c')
               else Some (Inr msg, c')))"

definition connWrite :: "conn \<Rightarrow> Message \<Rightarrow> go_error option \<times> conn" where
  "connWrite c msg =
     (case Message_WriteTo conn_Write msg c of (n, err, c') \<Rightarrow>
        (case err of
           Some e \<Rightarrow> (Some e, c')
         | None \<Rightarrow>
             if n \<noteq> unat (Length (header msg)) + 24
             then (Some (lengthMismatch n msg), c')
             else (None, c')))"

section \<open>The three goroutines of consumeConnection\<close>

text \<open>Monitor: the \<open>select\<close>, \<open>unblockPoll\<close>, \<open>Close\<close>, returned.\<close>

datatype monitor_pc = MonSelect | MonUnblock | MonClose | MonDone

text \<open>
  Writer: inside \<open>blockingPoll\<close> (first context check, loop test, asleep, woken), writing a
  message, putting it back after an error, reporting the error, returned.
\<close>

datatype writer_pc =
    WCheck | WTake | WAsleep | WWoken
  | WWrite Message | WPrepend Message go_error | WReport go_error | WDone

text \<open>Reader: reading, reporting an error, checking the context, the deferred cancel, returned.\<close>

datatype reader_pc = RRead | RReport go_error | RCheck | RCancel | RDone

record session =
  base :: baseTcpConnection
  s_conn :: conn
  closedConnCtx :: bool
  monitor :: monitor_pc
  writer :: writer_pc
  reader :: reader_pc

definition start_session :: "baseTcpConnection \<Rightarrow> conn \<Rightarrow> session" where
  "start_session t c = \<lparr>base = t, s_conn = c, closedConnCtx = False,
                        monitor = MonSelect, writer = WCheck, reader = RRead\<rparr>"

text \<open>\<open>wg.Wait()\<close> returns: all three goroutines are done.\<close>

definition session_done :: "session \<Rightarrow> bool" where
  "session_done s \<longleftrightarrow> monitor s = MonDone \<and> writer s = WDone \<and> reader s = RDone"

datatype clabel =
    CTau | CSubmit Message | CWritten Message | CReceived Message | CHandOut Message
  | CCancel | CErrorTaken go_error

definition wake_writer :: "writer_pc \<Rightarrow> writer_pc" where
  "wake_writer pc = (if pc = WAsleep then WWoken else pc)"

inductive monitor_step :: "session \<Rightarrow> session \<Rightarrow> bool" where
  mon_closed: "monitor s = MonSelect \<Longrightarrow> closedConnCtx s \<Longrightarrow>
    monitor_step s (s\<lparr>monitor := MonUnblock\<rparr>)"
| mon_ctx: "monitor s = MonSelect \<Longrightarrow> ctx_done (base s) \<Longrightarrow>
    monitor_step s (s\<lparr>closedConnCtx := True, monitor := MonUnblock\<rparr>)"
| mon_unblock: "monitor s = MonUnblock \<Longrightarrow>
    monitor_step s (s\<lparr>monitor := MonClose, writer := wake_writer (writer s)\<rparr>)"
| mon_close: "monitor s = MonClose \<Longrightarrow>
    monitor_step s (s\<lparr>s_conn := snd (conn_Close (s_conn s)), monitor := MonDone\<rparr>)"

inductive writer_step :: "session \<Rightarrow> clabel \<Rightarrow> session \<Rightarrow> bool" where
  w_check_closed: "writer s = WCheck \<Longrightarrow> closedConnCtx s \<Longrightarrow> writer_step s CTau (s\<lparr>writer := WDone\<rparr>)"
| w_check_open: "writer s = WCheck \<Longrightarrow> \<not> closedConnCtx s \<Longrightarrow> writer_step s CTau (s\<lparr>writer := WTake\<rparr>)"
| w_sleep: "writer s = WTake \<Longrightarrow> queue_take (writeQueue (base s)) = None \<Longrightarrow>
    writer_step s CTau (s\<lparr>writer := WAsleep\<rparr>)"
| w_take: "writer s = WTake \<Longrightarrow> queue_take (writeQueue (base s)) = Some (m, q') \<Longrightarrow>
    writer_step s CTau (s\<lparr>base := (base s)\<lparr>writeQueue := q'\<rparr>, writer := WWrite m\<rparr>)"
| w_woken_closed: "writer s = WWoken \<Longrightarrow> closedConnCtx s \<Longrightarrow> writer_step s CTau (s\<lparr>writer := WDone\<rparr>)"
| w_woken_open: "writer s = WWoken \<Longrightarrow> \<not> closedConnCtx s \<Longrightarrow> writer_step s CTau (s\<lparr>writer := WTake\<rparr>)"
| w_written: "writer s = WWrite m \<Longrightarrow> connWrite (s_conn s) m = (None, c') \<Longrightarrow>
    writer_step s (CWritten m) (s\<lparr>s_conn := c', writer := WCheck\<rparr>)"
| w_failed: "writer s = WWrite m \<Longrightarrow> connWrite (s_conn s) m = (Some e, c') \<Longrightarrow>
    writer_step s CTau (s\<lparr>s_conn := c', writer := WPrepend m e\<rparr>)"
| w_prepend: "writer s = WPrepend m e \<Longrightarrow>
    writer_step s CTau (s\<lparr>base := (base s)\<lparr>writeQueue := queue_prepend (writeQueue (base s)) m\<rparr>,
                          writer := (if isEOF e then WDone else WReport e)\<rparr>)"
| w_report: "writer s = WReport e \<Longrightarrow> Errors_send e (base s) = Some b' \<Longrightarrow>
    writer_step s CTau (s\<lparr>base := b', writer := (if isTransientError e then WCheck else WDone)\<rparr>)"

inductive reader_step :: "session \<Rightarrow> clabel \<Rightarrow> session \<Rightarrow> bool" where
  r_received: "reader s = RRead \<Longrightarrow> connRead (s_conn s) = Some (Inr m, c') \<Longrightarrow>
    reader_step s (CReceived m)
      (s\<lparr>s_conn := c', base := (base s)\<lparr>readQueue := queue_append (readQueue (base s)) m\<rparr>, reader := RCheck\<rparr>)"
| r_failed: "reader s = RRead \<Longrightarrow> connRead (s_conn s) = Some (Inl e, c') \<Longrightarrow>
    reader_step s CTau (s\<lparr>s_conn := c', reader := (if isEOF e then RCancel else RReport e)\<rparr>)"
| r_report: "reader s = RReport e \<Longrightarrow> Errors_send e (base s) = Some b' \<Longrightarrow>
    reader_step s CTau (s\<lparr>base := b', reader := (if isTransientError e then RCheck else RCancel)\<rparr>)"
| r_check_done: "reader s = RCheck \<Longrightarrow> ctx_done (base s) \<Longrightarrow> reader_step s CTau (s\<lparr>reader := RCancel\<rparr>)"
| r_check_open: "reader s = RCheck \<Longrightarrow> \<not> ctx_done (base s) \<Longrightarrow> reader_step s CTau (s\<lparr>reader := RRead\<rparr>)"
| r_cancel: "reader s = RCancel \<Longrightarrow> reader_step s CTau (s\<lparr>closedConnCtx := True, reader := RDone\<rparr>)"

text \<open>
  The outside: \<open>WriteMessage\<close> (its append and its signal in one step), \<open>ReadMessage\<close>, the
  cancellation of the connection's context, and the receiver of the error channel.  A hand-out is the take of a poll that
  found the context open when it looked; how long ago is left open, so that messages may still be handed out after the cancellation.
\<close>

inductive user_step :: "session \<Rightarrow> clabel \<Rightarrow> session \<Rightarrow> bool" where
  u_submit: "user_step s (CSubmit m) (s\<lparr>base := WriteMessage (base s) m, writer := wake_writer (writer s)\<rparr>)"
| u_hand_out: "ReadMessage False (base s) = Some (Some m, b') \<Longrightarrow> user_step s (CHandOut m) (s\<lparr>base := b'\<rparr>)"
| u_cancel: "user_step s CCancel (s\<lparr>base := (base s)\<lparr>ctx_done := True\<rparr>\<rparr>)"
| u_error: "Errors_recv (base s) = Some (e, b') \<Longrightarrow> user_step s (CErrorTaken e) (s\<lparr>base := b'\<rparr>)"

inductive consumeConnection :: "session \<Rightarrow> clabel \<Rightarrow> session \<Rightarrow> bool" where
  c_monitor: "monitor_step s t \<Longrightarrow> consumeConnection s CTau t"
| c_writer: "writer_step s l t \<Longrightarrow> consumeConnection s l t"
| c_reader: "reader_step s l t \<Longrightarrow> consumeConnection s l t"

inductive session_step :: "session \<Rightarrow> clabel \<Rightarrow> session \<Rightarrow> bool" where
  s_consume: "consumeConnection s l t \<Longrightarrow> session_step s l t"
| s_user: "user_step s l t \<Longrightarrow> session_step s l t"

inductive session_run :: "session \<Rightarrow> clabel list \<Rightarrow> session \<Rightarrow> bool" where
  run_nil: "session_run s [] s"
| run_step: "session_run s ls t \<Longrightarrow> session_step t l u \<Longrightarrow> session_run s (ls @ [l]) u"

inductive_cases monitor_stepE: "monitor_step s t"
inductive_cases writer_stepE: "writer_step s l t"
inductive_cases reader_stepE: "reader_step s l t"
inductive_cases user_stepE: "user_step s l t"
inductive_cases consumeConnectionE: "consumeConnection s l t"
inductive_cases session_stepE: "session_step s l t"

lemmas session_elims = session_stepE consumeConnectionE monitor_stepE writer_stepE reader_stepE user_stepE

section \<open>What a run shows\<close>

fun submitted :: "clabel list \<Rightarrow> Message list" where
  "submitted [] = []"
| "submitted (CSubmit m # ls) = m # submitted ls"
| "submitted (_ # ls) = submitted ls"

fun written :: "clabel list \<Rightarrow> Message list" where
  "written [] = []"
| "written (CWritten m # ls) = m # written ls"
| "written (_ # ls) = written ls"

fun received :: "clabel list \<Rightarrow> Message list" where
  "received [] = []"
| "received (CReceived m # ls) = m # received ls"
| "received (_ # ls) = received ls"

fun handed_out :: "clabel list \<Rightarrow> Message list" where
  "handed_out [] = []"
| "handed_out (CHandOut m # ls) = m # handed_out ls"
| "handed_out (_ # ls) = handed_out ls"

text \<open>The message the writer holds, and everything still to be written, in order.\<close>

definition in_flight :: "writer_pc \<Rightarrow> Message list" where
  "in_flight pc = (case pc of WWrite m \<Rightarrow> [m] | WPrepend m _ \<Rightarrow> [m] | _ \<Rightarrow> [])"

definition unwritten :: "session \<Rightarrow> Message list" where
  "unwritten s = in_flight (writer s) @ queue (writeQueue (base s))"

text \<open>No write of the connection fails with a transient error.\<close>

definition no_transient_writes :: "wr_event list \<Rightarrow> bool" where
  "no_transient_writes ws \<longleftrightarrow> (\<forall>n e. WFail n e \<in> set ws \<longrightarrow> \<not> isTransientError e)"

section \<open>Lemmas on one message\<close>

text \<open>
  A write touches neither the incoming stream nor the closed flag, and an error it returns comes
  from the closed connection or from the connection's write script.
\<close>

definition write_frame :: "conn \<Rightarrow> go_error option \<Rightarrow> conn \<Rightarrow> bool" where
  "write_frame c e c' \<longleftrightarrow> c_in c' = c_in c \<and> c_closed c' = c_closed c \<and> set (c_wr c') \<subseteq> set (c_wr c) \<and>
     (\<forall>err. e = Some err \<longrightarrow> err = ErrClosed \<or> (\<exists>k. WFail k err \<in> set (c_wr c)))"

lemma conn_Write_frame: "conn_Write c bs = (n, e, c') \<Longrightarrow> write_frame c e c'"
  by (auto simp: write_frame_def conn_Write_def split: if_splits list.splits wr_event.splits)

lemma write_frame_comp: "write_frame c None c1 \<Longrightarrow> write_frame c1 e c2 \<Longrightarrow> write_frame c e c2"
  unfolding write_frame_def by (metis subset_iff)

lemma Message_WriteTo_frame: "Message_WriteTo conn_Write m c = (n, e, c') \<Longrightarrow> write_frame c e c'"
  by (rule Message_WriteTo_rel [where R = write_frame, OF conn_Write_frame write_frame_comp])

lemma not_transient [simp]:
  "\<not> isTransientError ErrClosed" "\<not> isTransientError EOF" "\<not> isTransientError ErrUnexpectedEOF"
  "\<not> isTransientError (lengthMismatch n m)"
  by (simp_all add: isTransientError_def lengthMismatch_def)

lemma connWrite_frame:
  assumes "connWrite c m = (e, c')"
  shows "c_in c' = c_in c" "c_closed c' = c_closed c" "set (c_wr c') \<subseteq> set (c_wr c)"
  using assms Message_WriteTo_frame [of m c]
  by (auto simp: connWrite_def write_frame_def split: prod.splits option.splits if_splits)

lemma connWrite_inbound:
  "connWrite c m = (e, c') \<Longrightarrow> conn_avail c' = conn_avail c \<and> conn_final c' = conn_final c"
  using connWrite_frame [of c m e c'] by (simp add: conn_avail_def conn_final_def)

lemma connWrite_not_transient:
  assumes "connWrite c m = (Some e, c')" and "no_transient_writes (c_wr c)"
  shows "\<not> isTransientError e"
  using assms Message_WriteTo_frame [of m c]
  by (auto simp: connWrite_def write_frame_def no_transient_writes_def split: prod.splits option.splits if_splits)

lemma connWrite_ok:
  assumes "wf_header (header m)" and "connWrite c m = (None, c')"
  shows "wf_message m" "c_out c' = c_out c @ encode m"
proof -
  obtain n where w: "Message_WriteTo conn_Write m c = (n, None, c')"
    and n: "n = unat (msg_length (header m)) + 24"
    using assms(2) by (auto simp: connWrite_def Length_def split: prod.splits option.splits if_splits)
  note p = conn_wr.Message_WriteTo_prefix [OF assms(1) w]
  then show "c_out c' = c_out c @ encode m" by simp
  have "n = 24 + length (payload_bytes m)"
    using p length_encode_header [OF assms(1)] by (simp add: encode_def)
  with n assms(1) show "wf_message m" by (simp add: wf_message_def)
qed

lemma connWrite_prefix:
  assumes "wf_header (header m)" and "connWrite c m = (e, c')"
  shows "\<exists>torn. prefix torn (encode m) \<and> c_out c' = c_out c @ torn"
proof -
  obtain n e' where "Message_WriteTo conn_Write m c = (n, e', c')"
    using assms(2) by (auto simp: connWrite_def split: prod.splits option.splits if_splits)
  from conn_wr.Message_WriteTo_prefix [OF assms(1) this] show ?thesis
    by (intro exI [of _ "take n (encode m)"]) (simp add: take_is_prefix)
qed

lemma header_as_received [simp]: "header (as_received m) = header m"
  by (simp add: as_received_def)

lemma connRead_encode:
  assumes "wf_message m" and "conn_avail c = encode m @ rest"
  shows "\<exists>c'. connRead c = Some (Inr (as_received m), c') \<and> conn_avail c' = rest \<and> conn_final c' = conn_final c"
  using conn_rd.Message_ReadFrom_encode [OF assms] length_encode [OF assms(1)]
  by (auto simp: connRead_def Length_def)

text \<open>Reading a stream that stops inside a message is an error, and not a transient one.\<close>

lemma connRead_torn:
  assumes "wf_message m" and "conn_avail c = take k (encode m)" and "k < length (encode m)"
    and "\<not> isTransientError (conn_final c)"
  shows "\<exists>e c'. connRead c = Some (Inl e, c') \<and> \<not> isTransientError e"
proof -
  have len: "length (conn_avail c) = k" using assms by simp
  have h: "wf_header (header m)" using assms(1) by (simp add: wf_message_def)
  show ?thesis
  proof (cases "k < 24")
    case True
    then show ?thesis
      using conn_rd.Message_ReadFrom_short_header [of c zeroMessage] len assms(4)
      by (auto simp: connRead_def)
  next
    case False
    have "take 24 (conn_avail c) = encode_header (header m)"
      using False length_encode_header [OF h] by (simp add: assms(2) encode_def min_def)
    then have "header m = messageHeaderFromBytes (take 24 (conn_avail c))"
      using messageHeaderFromBytes_encode [OF h] by simp
    from conn_rd.Message_ReadFrom_short_payload [OF _ this, of zeroMessage] False len assms
      length_encode [OF assms(1)]
    show ?thesis by (auto simp: connRead_def Length_def)
  qed
qed

text \<open>A read touches neither the outgoing bytes, nor the write script, nor the closed flag.\<close>

definition read_frame :: "conn \<Rightarrow> conn \<Rightarrow> bool" where
  "read_frame c c' \<longleftrightarrow> c_out c' = c_out c \<and> c_wr c' = c_wr c \<and> c_closed c' = c_closed c"

lemma Message_ReadFrom_frame: "Message_ReadFrom conn_Read m c = Some (n, e, m', c') \<Longrightarrow> read_frame c c'"
  by (erule Message_ReadFrom_rel [where R = read_frame, rotated 3])
     (auto simp: read_frame_def conn_Read_cases)

lemma connRead_frame: "connRead c = Some (r, c') \<Longrightarrow> read_frame c c'"
  by (auto simp: connRead_def dest!: Message_ReadFrom_frame split: option.splits if_splits)

lemma conn_Close_simps [simp]:
  "c_out (snd (conn_Close c)) = c_out c" "c_wr (snd (conn_Close c)) = c_wr c"
  "c_in (snd (conn_Close c)) = c_in c" "c_closed (snd (conn_Close c))"
  by (auto simp: conn_Close_def)

section \<open>Lemmas on runs\<close>

lemma submitted_append [simp]: "submitted (ls @ [l]) = submitted ls @ submitted [l]"
  by (induction ls rule: submitted.induct) auto

lemma written_append [simp]: "written (ls @ [l]) = written ls @ written [l]"
  by (induction ls rule: written.induct) auto

lemma received_append [simp]: "received (ls @ [l]) = received ls @ received [l]"
  by (induction ls rule: received.induct) auto

lemma handed_out_append [simp]: "handed_out (ls @ [l]) = handed_out ls @ handed_out [l]"
  by (induction ls rule: handed_out.induct) auto

lemma in_flight_simps [simp]:
  "in_flight WCheck = []" "in_flight WTake = []" "in_flight WAsleep = []" "in_flight WWoken = []"
  "in_flight (WWrite m) = [m]" "in_flight (WPrepend m e) = [m]" "in_flight (WReport e) = []"
  "in_flight WDone = []" "in_flight (wake_writer pc) = in_flight pc"
  by (simp_all add: in_flight_def wake_writer_def)

lemma Errors_send_Some:
  "Errors_send e t = Some t' \<longleftrightarrow> length (unrecoverableErrors t) < errors_cap \<and>
     t' = t\<lparr>unrecoverableErrors := unrecoverableErrors t @ [e]\<rparr>"
  by (auto simp: Errors_send_def)

lemma Errors_recv_Some:
  "Errors_recv t = Some (e, t') \<longleftrightarrow> (\<exists>es. unrecoverableErrors t = e # es \<and> t' = t\<lparr>unrecoverableErrors := es\<rparr>)"
  by (auto simp: Errors_recv_def split: list.splits)

lemma ReadMessage_Some:
  "ReadMessage closed t = Some (Some m, t') \<longleftrightarrow>
     \<not> closed \<and> (\<exists>ms. queue (readQueue t) = m # ms \<and> t' = t\<lparr>readQueue := (readQueue t)\<lparr>queue := ms\<rparr>\<rparr>)"
  by (auto simp: ReadMessage_def queue_take_def split: list.splits)

lemmas session_simps = Errors_send_Some Errors_recv_Some ReadMessage_Some queue_take_eq queue_op_defs
  WriteMessage_def

lemma session_step_order:
  "session_step s l t \<Longrightarrow> unwritten s @ submitted [l] = written [l] @ unwritten t"
  by (elim session_elims) (auto simp: unwritten_def session_simps)

lemma session_run_order:
  "session_run s ls t \<Longrightarrow> unwritten s @ submitted ls = written ls @ unwritten t"
proof (induction rule: session_run.induct)
  case (run_nil s)
  then show ?case by simp
next
  case (run_step s ls t l u)
  with session_step_order [OF run_step.hyps(2)] show ?case
    by (metis append_assoc submitted_append written_append)
qed

lemma session_step_inbound:
  "session_step s l t \<Longrightarrow>
     queue (readQueue (base s)) @ received [l] = handed_out [l] @ queue (readQueue (base t))"
  by (elim session_elims) (auto simp: session_simps)

lemma session_run_inbound:
  "session_run s ls t \<Longrightarrow>
     queue (readQueue (base s)) @ received ls = handed_out ls @ queue (readQueue (base t))"
proof (induction rule: session_run.induct)
  case (run_nil s)
  then show ?case by simp
next
  case (run_step s ls t l u)
  with session_step_inbound [OF run_step.hyps(2)] show ?case
    by (metis append_assoc received_append handed_out_append)
qed

subsection \<open>What is on the wire\<close>

text \<open>
  The bytes behind the completely written messages: none while the writer is in its loop; after a
  failed write, the beginning of the message that is again at the head of the queue.
\<close>

definition torn_ok :: "session \<Rightarrow> bytes \<Rightarrow> bool" where
  "torn_ok s torn \<longleftrightarrow> torn = [] \<or>
     (case writer s of
        WPrepend m e \<Rightarrow> prefix torn (encode m) \<and> \<not> isTransientError e
      | WReport e \<Rightarrow> \<not> isTransientError e \<and>
          (\<exists>m ms. queue (writeQueue (base s)) = m # ms \<and> prefix torn (encode m))
      | WDone \<Rightarrow> (\<exists>m ms. queue (writeQueue (base s)) = m # ms \<and> prefix torn (encode m))
      | _ \<Rightarrow> False)"

definition wire_inv :: "bytes \<Rightarrow> clabel list \<Rightarrow> session \<Rightarrow> bool" where
  "wire_inv out0 ls s \<longleftrightarrow> no_transient_writes (c_wr (s_conn s)) \<and>
     (\<exists>torn. c_out (s_conn s) = out0 @ concat (map encode (written ls)) @ torn \<and> torn_ok s torn)"

lemma torn_ok_Nil [simp]: "torn_ok s []"
  by (simp add: torn_ok_def)

lemma torn_ok_active:
  "torn_ok s torn \<Longrightarrow> \<forall>m e. writer s \<noteq> WPrepend m e \<Longrightarrow> \<forall>e. writer s \<noteq> WReport e \<Longrightarrow> writer s \<noteq> WDone \<Longrightarrow>
     torn = []"
  by (auto simp: torn_ok_def split: writer_pc.splits)

text \<open>Steps of the other goroutines wake the writer at most, and extend its queue at most.\<close>

definition outside_writer :: "session \<Rightarrow> session \<Rightarrow> bool" where
  "outside_writer s t \<longleftrightarrow> (writer t = writer s \<or> writer t = wake_writer (writer s)) \<and>
     prefix (queue (writeQueue (base s))) (queue (writeQueue (base t))) \<and>
     c_out (s_conn t) = c_out (s_conn s) \<and> c_wr (s_conn t) = c_wr (s_conn s)"

lemma torn_ok_outside:
  assumes "torn_ok s torn" and "outside_writer s t"
  shows "torn_ok t torn"
proof (cases "torn = []")
  case False
  then have "wake_writer (writer s) = writer s"
    using assms(1) by (auto simp: torn_ok_def wake_writer_def)
  then have w: "writer t = writer s" using assms(2) by (auto simp: outside_writer_def)
  have q: "queue (writeQueue (base s)) = m # ms \<Longrightarrow> \<exists>ms'. queue (writeQueue (base t)) = m # ms'" for m ms
    using assms(2) by (auto simp: outside_writer_def prefix_def)
  show ?thesis
    using assms(1) False q by (auto simp: torn_ok_def w split: writer_pc.splits)
qed simp

lemma wire_inv_outside:
  assumes "wire_inv out0 ls s" and "outside_writer s t" and "written [l] = []"
  shows "wire_inv out0 (ls @ [l]) t"
proof -
  obtain torn where "c_out (s_conn s) = out0 @ concat (map encode (written ls)) @ torn" "torn_ok s torn"
    using assms(1) by (auto simp: wire_inv_def)
  with torn_ok_outside [OF _ assms(2)] assms show ?thesis
    by (auto simp: wire_inv_def outside_writer_def simp del: written.simps)
qed

lemma monitor_outside_writer: "monitor_step s t \<Longrightarrow> outside_writer s t"
  by (elim monitor_stepE) (auto simp: outside_writer_def)

lemma reader_outside_writer: "reader_step s l t \<Longrightarrow> outside_writer s t \<and> written [l] = []"
  by (elim reader_stepE)
     (auto simp: outside_writer_def session_simps read_frame_def dest!: connRead_frame)

lemma user_outside_writer: "user_step s l t \<Longrightarrow> outside_writer s t \<and> written [l] = []"
  by (elim user_stepE) (auto simp: outside_writer_def session_simps)

lemma wire_inv_start: "no_transient_writes (c_wr c) \<Longrightarrow> wire_inv (c_out c) [] (start_session t c)"
  by (auto simp: wire_inv_def start_session_def)

lemma writer_step_wire_inv:
  assumes "writer_step s l t" and "wire_inv out0 ls s" and "\<forall>m \<in> set (unwritten s). wf_header (header m)"
  shows "wire_inv out0 (ls @ [l]) t"
proof -
  obtain torn where out: "c_out (s_conn s) = out0 @ concat (map encode (written ls)) @ torn"
    and torn: "torn_ok s torn" and nt: "no_transient_writes (c_wr (s_conn s))"
    using assms(2) by (auto simp: wire_inv_def)
  have nt': "no_transient_writes ws" if "set ws \<subseteq> set (c_wr (s_conn s))" for ws
    using nt that by (auto simp: no_transient_writes_def)
  from assms(1) show ?thesis
  proof cases
    case (w_written m c')
    have "wf_header (header m)" using assms(3) w_written by (simp add: unwritten_def)
    note ok = connWrite_ok(2) [OF this w_written(4)] and fr = connWrite_frame [OF w_written(4)]
    have "torn = []" using torn_ok_active [OF torn] w_written by simp
    with ok out nt' [OF fr(3)] w_written show ?thesis by (auto simp: wire_inv_def)
  next
    case (w_failed m e c')
    have h: "wf_header (header m)" using assms(3) w_failed by (simp add: unwritten_def)
    obtain torn' where t': "prefix torn' (encode m)" "c_out c' = c_out (s_conn s) @ torn'"
      using connWrite_prefix [OF h w_failed(4)] by auto
    have "torn = []" using torn_ok_active [OF torn] w_failed by simp
    moreover have "\<not> isTransientError e" using connWrite_not_transient [OF w_failed(4) nt] .
    ultimately show ?thesis
      using t' out w_failed nt' [OF connWrite_frame(3) [OF w_failed(4)]]
      by (auto simp: wire_inv_def torn_ok_def)
  qed (use out torn nt in \<open>auto simp: wire_inv_def torn_ok_def session_simps split: if_splits\<close>)
qed

lemma session_step_wire_inv:
  assumes "session_step s l t" and "wire_inv out0 ls s" and "\<forall>m \<in> set (unwritten s). wf_header (header m)"
  shows "wire_inv out0 (ls @ [l]) t"
  using assms(1)
proof (cases rule: session_step.cases)
  case s_consume
  then show ?thesis
  proof (cases rule: consumeConnection.cases)
    case c_writer
    then show ?thesis using writer_step_wire_inv assms by blast
  next
    case c_monitor
    with wire_inv_outside [OF assms(2) monitor_outside_writer] show ?thesis by simp
  next
    case c_reader
    with wire_inv_outside [OF assms(2)] reader_outside_writer show ?thesis by blast
  qed
next
  case s_user
  with wire_inv_outside [OF assms(2)] user_outside_writer show ?thesis by blast
qed

lemma start_session_simps [simp]:
  "base (start_session t c) = t" "s_conn (start_session t c) = c"
  "unwritten (start_session t c) = queue (writeQueue t)"
  by (simp_all add: start_session_def unwritten_def)

lemma session_run_wire_inv:
  assumes "session_run s0 ls s" and "s0 = start_session t c" and "no_transient_writes (c_wr c)"
    and "\<forall>m \<in> set (queue (writeQueue t) @ submitted ls). wf_header (header m)"
  shows "wire_inv (c_out c) ls s"
  using assms
proof (induction rule: session_run.induct)
  case (run_nil s)
  then show ?case by (simp add: wire_inv_start)
next
  case (run_step s ls u l v)
  then have "wire_inv (c_out c) ls u" by auto
  moreover have "set (unwritten u) \<subseteq> set (queue (writeQueue t) @ submitted ls)"
    using session_run_order [OF run_step.hyps(1)] run_step.prems(1) by (metis Un_upper2 set_append start_session_simps(3))
  then have "\<forall>m \<in> set (unwritten u). wf_header (header m)" using run_step.prems(3) by auto
  ultimately show ?case by (intro session_step_wire_inv [OF run_step.hyps(2)])
qed

text \<open>Everything on the wire is the beginning of the encoding of what was submitted, in order.\<close>

lemma wire_prefix_of_submitted:
  assumes "session_run (start_session t c) ls s" and "no_transient_writes (c_wr c)"
    and "\<forall>m \<in> set (queue (writeQueue t) @ submitted ls). wf_header (header m)"
  shows "prefix (c_out (s_conn s)) (c_out c @ concat (map encode (queue (writeQueue t) @ submitted ls)))"
proof -
  obtain torn where out: "c_out (s_conn s) = c_out c @ concat (map encode (written ls)) @ torn"
    and torn: "torn_ok s torn"
    using session_run_wire_inv [OF assms(1) refl assms(2,3)] by (auto simp: wire_inv_def)
  have "prefix torn (concat (map encode (unwritten s)))"
    using torn by (auto simp: torn_ok_def unwritten_def split: writer_pc.splits)
  moreover have "queue (writeQueue t) @ submitted ls = written ls @ unwritten s"
    using session_run_order [OF assms(1)] by simp
  ultimately show ?thesis by (simp add: out)
qed

subsection \<open>What the peer receives\<close>

lemma connRead_stream:
  assumes "prefix (conn_avail c) (concat (map encode ms))" and "\<forall>m \<in> set ms. wf_message m"
    and "\<not> isTransientError (conn_final c)"
  shows "(\<exists>e c'. connRead c = Some (Inl e, c') \<and> \<not> isTransientError e) \<or>
         (\<exists>m ms' c'. ms = m # ms' \<and> connRead c = Some (Inr (as_received m), c') \<and>
            prefix (conn_avail c') (concat (map encode ms')) \<and> conn_final c' = conn_final c)"
proof (cases ms)
  case Nil
  with assms(1) have "conn_avail c = []" by simp
  then have "connRead c = Some (Inl (conn_final c), snd (the (connRead c)))"
    using conn_rd.Message_ReadFrom_short_header [of c zeroMessage] by (auto simp: connRead_def)
  with assms(3) show ?thesis by blast
next
  case (Cons m ms')
  with assms(2) have wf: "wf_message m" by simp
  show ?thesis
  proof (cases "length (encode m) \<le> length (conn_avail c)")
    case True
    then obtain rest where "conn_avail c = encode m @ rest"
      using assms(1) Cons by (auto simp: prefix_def append_eq_append_conv2 dest: sym)
    with connRead_encode [OF wf this] assms(1) Cons show ?thesis by auto
  next
    case False
    then have "conn_avail c = take (length (conn_avail c)) (encode m)"
      using assms(1) Cons by (auto simp: prefix_def append_eq_append_conv2 dest: sym)
    with connRead_torn [OF wf this] False assms(3) show ?thesis by auto
  qed
qed

definition recv_inv :: "Message list \<Rightarrow> clabel list \<Rightarrow> session \<Rightarrow> bool" where
  "recv_inv ms ls s \<longleftrightarrow>
     (\<exists>k. k \<le> length ms \<and> received ls = map as_received (take k ms) \<and>
        (reader s = RRead \<or> reader s = RCheck \<longrightarrow>
           prefix (conn_avail (s_conn s)) (concat (map encode (drop k ms))) \<and>
           \<not> isTransientError (conn_final (s_conn s))) \<and>
        (\<forall>e. reader s = RReport e \<longrightarrow> \<not> isTransientError e))"

lemma recv_inv_outside:
  assumes "recv_inv ms ls s" and "reader t = reader s" and "received [l] = []"
    and "conn_avail (s_conn t) = conn_avail (s_conn s) \<and> conn_final (s_conn t) = conn_final (s_conn s) \<or>
         c_closed (s_conn t)"
  shows "recv_inv ms (ls @ [l]) t"
  using assms by (auto simp: recv_inv_def conn_avail_def conn_final_def simp del: received.simps)

lemma reader_step_recv_inv:
  assumes "reader_step s l t" and "recv_inv ms ls s" and "\<forall>m \<in> set ms. wf_message m"
  shows "recv_inv ms (ls @ [l]) t"
proof -
  obtain k where k: "k \<le> length ms" "received ls = map as_received (take k ms)"
    and live: "reader s = RRead \<or> reader s = RCheck \<longrightarrow>
           prefix (conn_avail (s_conn s)) (concat (map encode (drop k ms))) \<and>
           \<not> isTransientError (conn_final (s_conn s))"
    and rep: "\<forall>e. reader s = RReport e \<longrightarrow> \<not> isTransientError e"
    using assms(2) by (auto simp: recv_inv_def)
  have wf: "\<forall>m \<in> set (drop k ms). wf_message m" using assms(3) by (meson in_set_dropD)
  from assms(1) show ?thesis
  proof cases
    case (r_received m c')
    with connRead_stream [OF _ wf, of "s_conn s"] live obtain m0 ms' where
      "drop k ms = m0 # ms'" "m = as_received m0" "prefix (conn_avail c') (concat (map encode ms'))"
      "\<not> isTransientError (conn_final c')" by auto
    with drop_eq_ConsD [OF this(1)] r_received k show ?thesis
      by (auto simp: recv_inv_def intro!: exI [of _ "Suc k"])
  next
    case (r_failed e c')
    with connRead_stream [OF _ wf, of "s_conn s"] live have "\<not> isTransientError e" by auto
    with r_failed k show ?thesis by (auto simp: recv_inv_def)
  qed (use k live rep in \<open>auto simp: recv_inv_def session_simps split: if_splits\<close>)
qed

lemma session_step_recv_inv:
  assumes "session_step s l t" and "recv_inv ms ls s" and "\<forall>m \<in> set ms. wf_message m"
  shows "recv_inv ms (ls @ [l]) t"
  using assms(1)
proof (cases rule: session_step.cases)
  case s_consume
  then show ?thesis
  proof (cases rule: consumeConnection.cases)
    case c_reader
    then show ?thesis using reader_step_recv_inv assms by blast
  next
    case c_monitor
    then show ?thesis
      by (elim monitor_stepE) (auto intro!: recv_inv_outside [OF assms(2)])
  next
    case c_writer
    then show ?thesis
      by (elim writer_stepE)
         (auto intro!: recv_inv_outside [OF assms(2)] dest: connWrite_inbound simp: session_simps)
  qed
next
  case s_user
  then show ?thesis
    by (elim user_stepE) (auto intro!: recv_inv_outside [OF assms(2)] simp: session_simps)
qed

lemma session_run_recv_inv:
  assumes "session_run s0 ls s" and "s0 = start_session t c"
    and "prefix (conn_avail c) (concat (map encode ms))" and "\<not> isTransientError (conn_final c)"
    and "\<forall>m \<in> set ms. wf_message m"
  shows "recv_inv ms ls s"
  using assms
proof (induction rule: session_run.induct)
  case (run_nil s)
  then show ?case by (auto simp: recv_inv_def start_session_def)
next
  case (run_step s ls u l v)
  then show ?case using session_step_recv_inv by blast
qed

subsection \<open>Building runs\<close>

lemma session_run_append: "session_run t ls' u \<Longrightarrow> session_run s ls t \<Longrightarrow> session_run s (ls @ ls') u"
  by (induction rule: session_run.induct) (auto simp flip: append_assoc intro: session_run.intros)

lemma session_run_cons: "session_step s l t \<Longrightarrow> session_run t ls u \<Longrightarrow> session_run s (l # ls) u"
  using session_run_append [of t ls u s "[l]"] session_run.intros(2) [OF session_run.intros(1), of s l t]
  by simp

lemmas monitor_go = monitor_step.intros [THEN c_monitor, THEN s_consume]
lemmas writer_go = writer_step.intros [THEN c_writer, THEN s_consume]
lemmas reader_go = reader_step.intros [THEN c_reader, THEN s_consume]
lemmas user_go = user_step.intros [THEN s_user]

lemma writer_done_stays: "session_step s l t \<Longrightarrow> writer s = WDone \<Longrightarrow> writer t = WDone \<and> written [l] = []"
  by (elim session_elims) (auto simp: wake_writer_def)

lemma writer_done_run: "session_run s ls t \<Longrightarrow> writer s = WDone \<Longrightarrow> writer t = WDone \<and> written ls = []"
proof (induction rule: session_run.induct)
  case (run_step s ls t l u)
  with writer_done_stays [OF run_step.hyps(2)] show ?case by (simp del: written.simps)
qed simp

subsection \<open>Progress\<close>

definition session_inv :: "session \<Rightarrow> bool" where
  "session_inv s \<longleftrightarrow> (reader s = RDone \<longrightarrow> closedConnCtx s) \<and>
     (monitor s \<noteq> MonSelect \<longrightarrow> closedConnCtx s) \<and>
     (monitor s = MonDone \<longrightarrow> c_closed (s_conn s)) \<and>
     (writer s = WAsleep \<longrightarrow> queue (writeQueue (base s)) = [])"

lemma session_step_inv: "session_step s l t \<Longrightarrow> session_inv s \<Longrightarrow> session_inv t"
  by (elim session_elims)
     (auto simp: session_inv_def wake_writer_def session_simps read_frame_def
        dest: connRead_frame connWrite_frame(2) split: if_splits)

lemma session_run_inv: "session_run s ls t \<Longrightarrow> session_inv s \<Longrightarrow> session_inv t"
  by (induction rule: session_run.induct) (auto intro: session_step_inv)

lemma session_inv_start: "session_inv (start_session t c)"
  by (simp add: session_inv_def start_session_def)

lemma connRead_returns: "\<exists>r c'. connRead c = Some (r, c')"
proof -
  obtain n e m c' where "Message_ReadFrom conn_Read zeroMessage c = Some (n, e, m, c')"
    using conn_rd.Message_ReadFrom_returns [of zeroMessage c] by auto
  then show ?thesis by (auto simp: connRead_def split: option.splits)
qed

lemma writer_progress:
  assumes "length (unrecoverableErrors (base s)) < errors_cap" and "writer s \<noteq> WAsleep" and "writer s \<noteq> WDone"
  shows "\<exists>l t. consumeConnection s l t"
proof -
  have "\<exists>l t. writer_step s l t"
  proof (cases "writer s")
    case WCheck
    then show ?thesis using w_check_closed w_check_open by blast
  next
    case WTake
    then show ?thesis using w_sleep w_take by (cases "queue_take (writeQueue (base s))") (auto, blast+)
  next
    case WWoken
    then show ?thesis using w_woken_closed w_woken_open by blast
  next
    case (WWrite m)
    obtain e c' where "connWrite (s_conn s) m = (e, c')" by fastforce
    with WWrite show ?thesis using w_written w_failed by (cases e) blast+
  next
    case (WPrepend m e)
    then show ?thesis using w_prepend by blast
  next
    case (WReport e)
    with assms(1) show ?thesis using w_report by (simp add: Errors_send_Some) blast
  qed (use assms in auto)
  then show ?thesis using c_writer by blast
qed

lemma reader_progress:
  assumes "length (unrecoverableErrors (base s)) < errors_cap" and "reader s \<noteq> RDone"
  shows "\<exists>l t. consumeConnection s l t"
proof -
  have "\<exists>l t. reader_step s l t"
  proof (cases "reader s")
    case RRead
    obtain r c' where "connRead (s_conn s) = Some (r, c')" using connRead_returns by blast
    with RRead show ?thesis using r_received r_failed by (cases r) blast+
  next
    case (RReport e)
    with assms(1) show ?thesis using r_report by (simp add: Errors_send_Some) blast
  next
    case RCheck
    then show ?thesis using r_check_done r_check_open by blast
  next
    case RCancel
    then show ?thesis using r_cancel by blast
  qed (use assms in auto)
  then show ?thesis using c_reader by blast
qed

lemma monitor_progress:
  assumes "closedConnCtx s \<or> ctx_done (base s)" and "monitor s \<noteq> MonDone"
  shows "\<exists>l t. consumeConnection s l t"
proof -
  have "\<exists>t. monitor_step s t"
    using assms mon_closed mon_ctx mon_unblock mon_close by (cases "monitor s") blast+
  then show ?thesis using c_monitor by blast
qed

subsection \<open>Example runs\<close>

text \<open>One message submitted to an idle connection: the writer takes it and writes it once.\<close>

lemma send_one_run:
  assumes "queue (writeQueue b) = []" and "connWrite c m = (r, c')"
  shows "session_run (start_session b c)
           [CSubmit m, CTau, CTau, (case r of None \<Rightarrow> CWritten m | Some _ \<Rightarrow> CTau)]
           \<lparr>base = b, s_conn = c', closedConnCtx = False, monitor = MonSelect,
            writer = (case r of None \<Rightarrow> WCheck | Some e \<Rightarrow> WPrepend m e), reader = RRead\<rparr>"
proof -
  let ?b = "b\<lparr>writeQueue := \<lparr>queue = [m]\<rparr>\<rparr>"
  let ?s = "\<lambda>b c pc. \<lparr>base = b, s_conn = c, closedConnCtx = False, monitor = MonSelect,
                      writer = pc, reader = RRead\<rparr>"
  have b: "WriteMessage b m = ?b" using assms(1) by (simp add: WriteMessage_def queue_op_defs)
  have "writeQueue b = \<lparr>queue = []\<rparr>" using assms(1) by (cases "writeQueue b") simp
  then have restore: "?b\<lparr>writeQueue := \<lparr>queue = []\<rparr>\<rparr> = b" by (cases b) simp
  have 1: "session_step (start_session b c) (CSubmit m) (?s ?b c WCheck)"
    using u_submit [of "start_session b c" m, THEN s_user] by (simp add: start_session_def b wake_writer_def)
  have 2: "session_step (?s ?b c WCheck) CTau (?s ?b c WTake)"
    using w_check_open [of "?s ?b c WCheck", THEN c_writer, THEN s_consume] by simp
  have 3: "session_step (?s ?b c WTake) CTau (?s b c (WWrite m))"
    using w_take [of "?s ?b c WTake" m "\<lparr>queue = []\<rparr>", THEN c_writer, THEN s_consume] restore
    by (simp add: queue_take_eq)
  have 4: "session_step (?s b c (WWrite m)) (case r of None \<Rightarrow> CWritten m | Some _ \<Rightarrow> CTau)
             (?s b c' (case r of None \<Rightarrow> WCheck | Some e \<Rightarrow> WPrepend m e))"
    using w_written [of "?s b c (WWrite m)" m c', THEN c_writer, THEN s_consume]
      w_failed [of "?s b c (WWrite m)" m _ c', THEN c_writer, THEN s_consume] assms(2)
    by (cases r) simp_all
  show ?thesis by (intro session_run_cons [OF 1] session_run_cons [OF 2] session_run_cons [OF 3]
      session_run_cons [OF 4] run_nil)
qed

text \<open>One message received and handed out; the reader is back in its loop.\<close>

lemma receive_one_run:
  assumes "queue (readQueue b) = []" and "\<not> ctx_done b" and "connRead c = Some (Inr m, c')"
  shows "session_run (start_session b c) [CReceived m, CHandOut m, CTau] (start_session b c')"
proof -
  let ?s = "\<lambda>b re. \<lparr>base = b, s_conn = c', closedConnCtx = False, monitor = MonSelect, writer = WCheck, reader = re\<rparr>"
  let ?b = "b\<lparr>readQueue := \<lparr>queue = [m]\<rparr>\<rparr>"
  have "readQueue b = \<lparr>queue = []\<rparr>" using assms(1) by (cases "readQueue b") simp
  then have restore: "?b\<lparr>readQueue := \<lparr>queue = []\<rparr>\<rparr> = b" by (cases b) simp
  have 1: "session_step (start_session b c) (CReceived m) (?s ?b RCheck)"
    using r_received [of "start_session b c" m c', THEN c_reader, THEN s_consume] assms
    by (cases "readQueue b") (simp add: start_session_def queue_op_defs)
  have 2: "session_step (?s ?b RCheck) (CHandOut m) (?s b RCheck)"
    using u_hand_out [of "?s ?b RCheck" m b, THEN s_user] assms restore by (simp add: ReadMessage_Some)
  have 3: "session_step (?s b RCheck) CTau (start_session b c')"
    using r_check_open [of "?s b RCheck", THEN c_reader, THEN s_consume] assms(2) by (simp add: start_session_def)
  show ?thesis by (intro session_run_cons [OF 1] session_run_cons [OF 2] session_run_cons [OF 3] run_nil)
qed

text \<open>A write on an open connection whose writes do not fail.\<close>

lemma connWrite_clean:
  assumes "wf_message m" and "c_wr c = []" and "\<not> c_closed c"
  shows "connWrite c m = (None, c\<lparr>c_out := c_out c @ encode m\<rparr>)"
  using assms
  by (cases "payload m")
     (simp_all add: connWrite_def Message_WriteTo_def MessageHeader_WriteTo_def conn_Write_def Let_def Length_def
        encode_def encode_header_def payload_bytes_def wf_message_def wf_header_def)

lemma example_message_wf [simp]:
  "wf_message example_message" "wf_header (header example_message)"
  "as_received example_message = example_message"
  by (simp_all add: wf_message_def wf_header_def example_message_def payload_bytes_def as_received_def)

lemma connWrite_example:
  "\<exists>c'. connWrite (new_conn []) example_message = (None, c') \<and> c_out c' = encode example_message"
  using connWrite_clean [of example_message "new_conn []"] by (simp add: new_conn_def)

lemma newBase_queues [simp]:
  "queue (writeQueue newBaseTcpConnection) = []" "queue (readQueue newBaseTcpConnection) = []"
  "\<not> ctx_done newBaseTcpConnection" "unrecoverableErrors newBaseTcpConnection = []"
  by (simp_all add: newBaseTcpConnection_def newUnboundedMessageQueue_def)

lemma example_sent:
  "\<exists>s. session_run (start_session newBaseTcpConnection (new_conn []))
         [CSubmit example_message, CTau, CTau, CWritten example_message] s \<and>
       c_out (s_conn s) = encode example_message"
  using connWrite_example send_one_run [of newBaseTcpConnection "new_conn []" example_message None]
  by fastforce

text \<open>
  The first three bytes of the example message followed by the whole message: the length field
  that a reader of these bytes sees lies in the UUID of the message.
\<close>

lemma torn_then_whole_unreadable:
  "\<exists>e c'. connRead (new_conn [take 3 (encode example_message) @ encode example_message]) = Some (Inl e, c')"
proof -
  let ?c = "new_conn [take 3 (encode example_message) @ encode example_message]"
  let ?h = "messageHeaderFromBytes (take 24 (conn_avail ?c))"
  have "take 4 (drop 20 (take 24 (take 3 (encode example_message) @ encode example_message))) = [7, 7, 7, 0]"
    by code_simp
  then have "msg_length ?h = 117901056"
    by (simp add: messageHeaderFromBytes_def Uint32_def)
  moreover have "length (encode example_message) = 26"
    using length_encode [OF example_message_wf(1)] by (simp add: example_message_def)
  ultimately show ?thesis
    using conn_rd.Message_ReadFrom_short_payload [OF _ refl, of ?c zeroMessage]
    by (auto simp: connRead_def Length_def)
qed

section \<open>Properties\<close>

text \<open>
  C1. End to end: let one peer run any interleaving of its goroutines and users on a connection
  whose writes may fail at any point, but not with a transient error, and let the other peer run
  any interleaving on a connection that delivers any beginning of the bytes written, in any
  chunks, and then fails with an error that is not transient.  The messages the second peer hands
  to its service are a prefix, in order and without duplicates, of the messages submitted to the
  first: those left over in its write queue, then the new ones.
\<close>

theorem end_to_end_prefix:
  assumes "session_run (start_session b c) ls s" and "c_out c = []" and "no_transient_writes (c_wr c)"
    and "\<forall>m \<in> set (queue (writeQueue b) @ submitted ls). wf_message m"
    and "session_run (start_session b' c') ls' s'" and "queue (readQueue b') = []"
    and "prefix (conn_avail c') (c_out (s_conn s))" and "\<not> isTransientError (conn_final c')"
  shows "prefix (handed_out ls') (map as_received (queue (writeQueue b) @ submitted ls))"
proof -
  let ?ms = "queue (writeQueue b) @ submitted ls"
  have "prefix (c_out (s_conn s)) (concat (map encode ?ms))"
    using wire_prefix_of_submitted [OF assms(1,3)] assms(2,4) by (simp add: wf_message_def)
  with assms(7) have "prefix (conn_avail c') (concat (map encode ?ms))" by (rule prefix_order.trans)
  from session_run_recv_inv [OF assms(5) refl this assms(8,4)]
  obtain k where "received ls' = take k (map as_received ?ms)" by (auto simp: recv_inv_def take_map)
  then have "prefix (received ls') (map as_received ?ms)" using take_is_prefix by metis
  moreover have "prefix (handed_out ls') (received ls')"
    using session_run_inbound [OF assms(5)] assms(6) by simp
  ultimately show ?thesis using prefix_order.trans by blast
qed

theorem end_to_end_prefix_witness:
  "\<exists>ls s ls' s'. session_run (start_session newBaseTcpConnection (new_conn [])) ls s \<and>
     session_run (start_session newBaseTcpConnection (new_conn [c_out (s_conn s)])) ls' s' \<and>
     handed_out ls' = [example_message] \<and>
     prefix (handed_out ls') (map as_received ([] @ submitted ls))"
proof -
  let ?b = newBaseTcpConnection and ?m = example_message
  obtain s where s: "session_run (start_session ?b (new_conn [])) [CSubmit ?m, CTau, CTau, CWritten ?m] s"
    and out: "c_out (s_conn s) = encode ?m" using example_sent by blast
  obtain c' where "connRead (new_conn [encode ?m]) = Some (Inr ?m, c')"
    using connRead_encode [of ?m "new_conn [encode ?m]" "[]"] by auto
  from receive_one_run [OF _ _ this, of ?b]
  obtain s' where s': "session_run (start_session ?b (new_conn [encode ?m])) [CReceived ?m, CHandOut ?m, CTau] s'" by auto
  have "prefix (handed_out [CReceived ?m, CHandOut ?m, CTau])
          (map as_received (queue (writeQueue ?b) @ submitted [CSubmit ?m, CTau, CTau, CWritten ?m]))"
    by (rule end_to_end_prefix [OF s _ _ _ s'])
       (simp_all add: out new_conn_def [of "[]"] no_transient_writes_def isTransientError_def)
  with s s' out show ?thesis by (auto intro!: exI)
qed

text \<open>
  No message is lost, duplicated or reordered on the way to the wire, whatever the errors:
  in every state of every session, the messages left over from the previous session followed by
  those submitted since are exactly those completely written, then the one the writer holds, then
  those still queued; once the writer has returned, what was not written is again in the queue,
  ready for the next connection.
\<close>

lemma session_conserves_messages:
  assumes "session_run (start_session b c) ls s"
  shows "queue (writeQueue b) @ submitted ls = written ls @ in_flight (writer s) @ queue (writeQueue (base s)) \<and>
    (writer s = WDone \<longrightarrow> queue (writeQueue b) @ submitted ls = written ls @ queue (writeQueue (base s)))"
  using session_run_order [OF assms] by (auto simp: unwritten_def start_session_def)

text \<open>
  C27. \<open>consumeConnection\<close> can hang: there is an interleaving on a fresh connection that the peer closes
  at once after which the reader and the monitor have returned, the writer sleeps in \<open>blockingPoll\<close>,
  and no goroutine of \<open>consumeConnection\<close> can take a step: \<open>wg.Wait()\<close> does not return, and there is
  no redial, until another message is submitted.
\<close>

theorem consumeConnection_can_hang:
  "\<exists>ls s. session_run (start_session newBaseTcpConnection (new_conn [])) ls s \<and> submitted ls = [] \<and>
     \<not> session_done s \<and> closedConnCtx s \<and> c_closed (s_conn s) \<and> {(l, t). consumeConnection s l t} = {}"
proof -
  let ?b = newBaseTcpConnection and ?c = "new_conn []"
  let ?s = "\<lambda>c cl mo wr re. \<lparr>base = ?b, s_conn = c, closedConnCtx = cl, monitor = mo, writer = wr, reader = re\<rparr>"
  obtain c' where rd: "connRead ?c = Some (Inl EOF, c')"
    using conn_rd.Message_ReadFrom_short_header [of ?c zeroMessage] by (auto simp: connRead_def)
  let ?c'' = "snd (conn_Close c')"
  have 1: "session_step (?s ?c False MonSelect WCheck RRead) CTau (?s ?c False MonSelect WTake RRead)"
    using w_check_open [of "?s ?c False MonSelect WCheck RRead", THEN c_writer, THEN s_consume] by simp
  have 2: "session_step (?s ?c False MonSelect WTake RRead) CTau (?s c' False MonSelect WTake RCancel)"
    using r_failed [of "?s ?c False MonSelect WTake RRead" EOF c', THEN c_reader, THEN s_consume] rd
    by (simp add: isEOF_def errors_Is.simps)
  have 3: "session_step (?s c' False MonSelect WTake RCancel) CTau (?s c' True MonSelect WTake RDone)"
    using r_cancel [of "?s c' False MonSelect WTake RCancel", THEN c_reader, THEN s_consume] by simp
  have 4: "session_step (?s c' True MonSelect WTake RDone) CTau (?s c' True MonUnblock WTake RDone)"
    using mon_closed [of "?s c' True MonSelect WTake RDone", THEN c_monitor, THEN s_consume] by simp
  have 5: "session_step (?s c' True MonUnblock WTake RDone) CTau (?s c' True MonClose WTake RDone)"
    using mon_unblock [of "?s c' True MonUnblock WTake RDone", THEN c_monitor, THEN s_consume]
    by (simp add: wake_writer_def)
  have 6: "session_step (?s c' True MonClose WTake RDone) CTau (?s ?c'' True MonDone WTake RDone)"
    using mon_close [of "?s c' True MonClose WTake RDone", THEN c_monitor, THEN s_consume] by simp
  have 7: "session_step (?s ?c'' True MonDone WTake RDone) CTau (?s ?c'' True MonDone WAsleep RDone)"
    using w_sleep [of "?s ?c'' True MonDone WTake RDone", THEN c_writer, THEN s_consume]
    by (simp add: queue_take_def)
  note run = session_run_cons [OF 1 session_run_cons [OF 2 session_run_cons [OF 3 session_run_cons
    [OF 4 session_run_cons [OF 5 session_run_cons [OF 6 session_run_cons [OF 7 run_nil]]]]]]]
  have stuck: "{(l, t). consumeConnection (?s ?c'' True MonDone WAsleep RDone) l t} = {}"
    by (auto elim!: consumeConnectionE monitor_stepE writer_stepE reader_stepE)
  show ?thesis
    by (intro exI [of _ "[CTau, CTau, CTau, CTau, CTau, CTau, CTau]"]
          exI [of _ "?s ?c'' True MonDone WAsleep RDone"])
       (use run stuck in \<open>simp add: start_session_def session_done_def\<close>)
qed

text \<open>
  A write error that is neither transient nor an end of file ends the writer alone: the session
  stays open with the connection neither closed nor cancelled, the failed message stays queued, and no
  continuation of the session writes any message.
\<close>

lemma write_error_leaves_session_open:
  "\<exists>ls s. session_run (start_session newBaseTcpConnection ((new_conn [])\<lparr>c_wr := [WFail 0 (ErrorString ''broken pipe'')]\<rparr>)) ls s \<and>
     writer s = WDone \<and> monitor s = MonSelect \<and> reader s = RRead \<and> \<not> closedConnCtx s \<and> \<not> c_closed (s_conn s) \<and>
     queue (writeQueue (base s)) = [example_message] \<and>
     {m. \<exists>ls' t. session_run s ls' t \<and> m \<in> set (written ls')} = {}"
proof -
  let ?b = newBaseTcpConnection and ?e = "ErrorString ''broken pipe''" and ?m = example_message
  let ?c = "(new_conn [])\<lparr>c_wr := [WFail 0 ?e]\<rparr>"
  let ?b1 = "?b\<lparr>writeQueue := queue_prepend (writeQueue ?b) ?m\<rparr>"
  let ?b2 = "?b1\<lparr>unrecoverableErrors := [?e]\<rparr>"
  let ?s = "\<lambda>b pc. \<lparr>base = b, s_conn = new_conn [], closedConnCtx = False, monitor = MonSelect,
                    writer = pc, reader = RRead\<rparr>"
  have w: "connWrite ?c ?m = (Some ?e, new_conn [])"
    by (simp add: connWrite_def Message_WriteTo_def MessageHeader_WriteTo_def example_message_def new_conn_def
        conn_Write_def Let_def Length_def)
  have 1: "session_run (start_session ?b ?c) [CSubmit ?m, CTau, CTau, CTau] (?s ?b (WPrepend ?m ?e))"
    using send_one_run [OF _ w, of ?b] by simp
  have 2: "session_step (?s ?b (WPrepend ?m ?e)) CTau (?s ?b1 (WReport ?e))"
    using w_prepend [of "?s ?b (WPrepend ?m ?e)" ?m ?e, THEN c_writer, THEN s_consume]
    by (simp add: isEOF_def errors_Is.simps)
  have 3: "session_step (?s ?b1 (WReport ?e)) CTau (?s ?b2 WDone)"
    using w_report [of "?s ?b1 (WReport ?e)" ?e ?b2, THEN c_writer, THEN s_consume]
    by (simp add: Errors_send_Some errors_cap_def isTransientError_def)
  have run: "session_run (start_session ?b ?c) ([CSubmit ?m, CTau, CTau, CTau] @ [CTau, CTau]) (?s ?b2 WDone)"
    by (rule session_run_append [OF session_run_cons [OF 2 session_run_cons [OF 3 run_nil]] 1])
  have dead: "{m. \<exists>ls' t. session_run (?s ?b2 WDone) ls' t \<and> m \<in> set (written ls')} = {}"
    using writer_done_run [of "?s ?b2 WDone"] by fastforce
  show ?thesis
    by (intro exI [of _ "[CSubmit ?m, CTau, CTau, CTau] @ [CTau, CTau]"] exI [of _ "?s ?b2 WDone"])
       (use run dead in \<open>simp add: queue_op_defs new_conn_def\<close>)
qed

text \<open>
  A transient write error corrupts the stream: when a write stops after three bytes with a
  timeout, the writer keeps the connection and writes the whole message again behind the torn
  one.  The sender counts the message as written; a peer that reads these bytes gets an error
  instead of the message.
\<close>

lemma transient_write_error_corrupts_stream:
  "\<exists>ls s e c'. session_run (start_session newBaseTcpConnection
        ((new_conn [])\<lparr>c_wr := [WFail 3 (NetError ''i/o timeout'' False True)]\<rparr>)) ls s \<and>
     written ls = [example_message] \<and> c_out (s_conn s) = take 3 (encode example_message) @ encode example_message \<and>
     connRead (new_conn [c_out (s_conn s)]) = Some (Inl e, c')"
proof -
  let ?b = newBaseTcpConnection and ?e = "NetError ''i/o timeout'' False True" and ?m = example_message
  let ?c = "(new_conn [])\<lparr>c_wr := [WFail 3 ?e]\<rparr>" and ?c1 = "(new_conn [])\<lparr>c_out := take 3 (encode example_message)\<rparr>"
  let ?b1 = "?b\<lparr>writeQueue := \<lparr>queue = [?m]\<rparr>\<rparr>"
  let ?b2 = "?b1\<lparr>unrecoverableErrors := [?e]\<rparr>"
  let ?b3 = "?b2\<lparr>writeQueue := \<lparr>queue = []\<rparr>\<rparr>"
  let ?s = "\<lambda>b c pc. \<lparr>base = b, s_conn = c, closedConnCtx = False, monitor = MonSelect,
                    writer = pc, reader = RRead\<rparr>"
  have w: "connWrite ?c ?m = (Some ?e, ?c1)"
    by (simp add: connWrite_def Message_WriteTo_def MessageHeader_WriteTo_def example_message_def new_conn_def
        conn_Write_def Let_def Length_def encode_def encode_header_def)
  obtain c2 where w2: "connWrite ?c1 ?m = (None, c2)"
    by (simp add: connWrite_def Message_WriteTo_def MessageHeader_WriteTo_def example_message_def new_conn_def
        conn_Write_def Let_def Length_def)
  have out: "c_out c2 = take 3 (encode ?m) @ encode ?m" using connWrite_ok(2) [OF _ w2] by simp
  have 1: "session_run (start_session ?b ?c) [CSubmit ?m, CTau, CTau, CTau] (?s ?b ?c1 (WPrepend ?m ?e))"
    using send_one_run [OF _ w, of ?b] by simp
  have 2: "session_step (?s ?b ?c1 (WPrepend ?m ?e)) CTau (?s ?b1 ?c1 (WReport ?e))"
    using w_prepend [of "?s ?b ?c1 (WPrepend ?m ?e)" ?m ?e, THEN c_writer, THEN s_consume]
    by (simp add: isEOF_def errors_Is.simps queue_op_defs newBaseTcpConnection_def)
  have 3: "session_step (?s ?b1 ?c1 (WReport ?e)) CTau (?s ?b2 ?c1 WCheck)"
    using w_report [of "?s ?b1 ?c1 (WReport ?e)" ?e ?b2, THEN c_writer, THEN s_consume]
    by (simp add: Errors_send_Some errors_cap_def isTransientError_def)
  have 4: "session_step (?s ?b2 ?c1 WCheck) CTau (?s ?b2 ?c1 WTake)"
    using w_check_open [of "?s ?b2 ?c1 WCheck", THEN c_writer, THEN s_consume] by simp
  have 5: "session_step (?s ?b2 ?c1 WTake) CTau (?s ?b3 ?c1 (WWrite ?m))"
    using w_take [of "?s ?b2 ?c1 WTake" ?m "\<lparr>queue = []\<rparr>", THEN c_writer, THEN s_consume]
    by (simp add: queue_take_eq)
  have 6: "session_step (?s ?b3 ?c1 (WWrite ?m)) (CWritten ?m) (?s ?b3 c2 WCheck)"
    using w_written [of "?s ?b3 ?c1 (WWrite ?m)" ?m c2, THEN c_writer, THEN s_consume] w2 by simp
  let ?ls = "[CSubmit ?m, CTau, CTau, CTau] @ [CTau, CTau, CTau, CTau, CWritten ?m]"
  have run: "session_run (start_session ?b ?c) ?ls (?s ?b3 c2 WCheck)"
    by (rule session_run_append [OF session_run_cons [OF 2 session_run_cons [OF 3 session_run_cons
          [OF 4 session_run_cons [OF 5 session_run_cons [OF 6 run_nil]]]]] 1])
  obtain e c' where "connRead (new_conn [take 3 (encode ?m) @ encode ?m]) = Some (Inl e, c')"
    using torn_then_whole_unreadable by blast
  with run out show ?thesis
    by (intro exI [of _ ?ls] exI [of _ "?s ?b3 c2 WCheck"] exI [of _ e] exI [of _ c']) simp
qed

end
