(* ===== verification/Service_Message.thy ===== *)
theory Service_Message
  imports Message
begin

text \<open>
  \<open>pkg/service.go\<close>: the message a service hands to its handler, with the function that
  acknowledges it, and the shape of handlers.

  An acknowledgement acts on a world \<open>'w\<close> (the connection it is written to); a handler may
  also own a state \<open>'s\<close> and may panic, so it is a function to \<open>('s \<times> 'w) option\<close>, with
  \<open>None\<close> for a panic.  The context argument of handlers only carries the logger and is left out.
\<close>

section \<open>Service messages\<close>

definition AckOpCode :: byte where
  "AckOpCode = NOT 0"

record 'w ServiceMessage =
  inboundMessage :: Message
  ackFunc :: "go_error option \<Rightarrow> 'w \<Rightarrow> 'w"

definition NewServiceMessage :: "Message \<Rightarrow> (go_error option \<Rightarrow> 'w \<Rightarrow> 'w) \<Rightarrow> 'w ServiceMessage" where
  "NewServiceMessage m f = \<lparr>inboundMessage = m, ackFunc = f\<rparr>"

definition Headers :: "'w ServiceMessage \<Rightarrow> MessageHeader" where
  "Headers c = header (inboundMessage c)"

definition ServiceMessage_Payload :: "'w ServiceMessage \<Rightarrow> bytes option" where
  "ServiceMessage_Payload c = payload (inboundMessage c)"

definition Ack :: "'w ServiceMessage \<Rightarrow> 'w \<Rightarrow> 'w" where
  "Ack c = ackFunc c None"

definition AckWithError :: "'w ServiceMessage \<Rightarrow> go_error \<Rightarrow> 'w \<Rightarrow> 'w" where
  "AckWithError c err = ackFunc c (Some err)"

type_synonym ('s, 'w) MessageHandler = "'w ServiceMessage \<Rightarrow> 's \<times> 'w \<Rightarrow> ('s \<times> 'w) option"
type_synonym 's ErrorHandler = "go_error \<Rightarrow> 's \<Rightarrow> 's"

lemmas service_message_defs = NewServiceMessage_def Headers_def ServiceMessage_Payload_def Ack_def
  AckWithError_def

text \<open>The bytes of a payload as a parser indexes them: a nil slice has length 0.\<close>

definition slice_bytes :: "bytes option \<Rightarrow> bytes" where
  "slice_bytes p = (case p of None \<Rightarrow> [] | Some b \<Rightarrow> b)"

lemma slice_bytes_simps [simp]: "slice_bytes None = []" "slice_bytes (Some b) = b"
  by (simp_all add: slice_bytes_def)

lemma AckOpCode_eq: "AckOpCode = 255"
  by (simp add: AckOpCode_def)

end
