(* ===== verification/Notification_Store.thy ===== *)
theory Notification_Store
  imports Service_Message Async_Command
begin

text \<open>
  \<open>pkg/reconciler/notification_store.go\<close>: the store in which the control plane keeps the last
  notification of every pod of a resource, and \<open>async_command_notification_store.go\<close>, its
  specialisation to the results of asynchronous commands.

  An \<open>interface{}\<close> value is an \<open>'v option\<close> (\<open>None\<close> is nil).  The mutex makes every
  method one atomic step on the two-level map.  Values are compared by \<open>reflect.DeepEqual\<close>,
  which on values without pointers, functions and floats is equality.
\<close>

section \<open>The store\<close>

text \<open>\<open>types.NamespacedName\<close>: namespace and name.\<close>

type_synonym NamespacedName = "string \<times> string"

type_synonym 'v interface = "'v option"

type_synonym 'v PayloadParser = "bytes option \<Rightarrow> (go_error + 'v interface) option"
type_synonym 'v ValueMerger = "'v interface \<Rightarrow> 'v interface \<Rightarrow> 'v interface"

record ('v, 'w) NotificationStore =
  enqueueKey :: "NamespacedName \<Rightarrow> 'w \<Rightarrow> 'w"
  payloadParser :: "'v PayloadParser"
  notificationStore :: "(NamespacedName, (string, 'v interface) fmap) fmap"

definition PassNewValue :: "'v ValueMerger" where
  "PassNewValue old new = new"

definition DeepEqual :: "'v interface \<Rightarrow> 'v interface \<Rightarrow> bool" where
  "DeepEqual x y \<longleftrightarrow> x = y"

definition NewNotificationStore ::
  "(NamespacedName \<Rightarrow> 'w \<Rightarrow> 'w) \<Rightarrow> 'v PayloadParser \<Rightarrow> ('v, 'w) NotificationStore" where
  "NewNotificationStore enq parser =
     \<lparr>enqueueKey = enq, payloadParser = parser, notificationStore = fmempty\<rparr>"

text \<open>
  \<open>copyMap\<close>, with the order in which \<open>range\<close> visits the keys.  Whatever the order, the copy is the map itself
  (\<open>copyMap_eq\<close> below), and finite maps are values here, so that \<open>GetPodsNotifications\<close> returns the inner map.
  In the code it is the copy that is handed out, and what a caller does to it never reaches the store.
\<close>

definition copyMap :: "string list \<Rightarrow> (string, 'v interface) fmap \<Rightarrow> (string, 'v interface) fmap" where
  "copyMap order in_map =
     fold (\<lambda>k out. case fmlookup in_map k of None \<Rightarrow> out | Some v \<Rightarrow> fmupd k v out) order fmempty"

definition GetPodsNotifications ::
  "('v, 'w) NotificationStore \<Rightarrow> NamespacedName \<Rightarrow> (string, 'v interface) fmap option \<times> bool" where
  "GetPodsNotifications n srcName =
     (case fmlookup (notificationStore n) srcName of
        None \<Rightarrow> (None, False)
      | Some pods \<Rightarrow> (Some pods, True))"

definition GetPodNotification ::
  "('v, 'w) NotificationStore \<Rightarrow> NamespacedName \<Rightarrow> string \<Rightarrow> 'v interface \<times> bool" where
  "GetPodNotification n srcName pod =
     (case fmlookup (notificationStore n) srcName of
        None \<Rightarrow> (None, False)
      | Some podsNotifications \<Rightarrow>
          (case fmlookup podsNotifications pod of None \<Rightarrow> (None, False) | Some v \<Rightarrow> (v, True)))"

definition CleanPodsNotifications ::
  "('v, 'w) NotificationStore \<Rightarrow> NamespacedName \<Rightarrow> ('v, 'w) NotificationStore" where
  "CleanPodsNotifications n srcName =
     n\<lparr>notificationStore := fmdrop srcName (notificationStore n)\<rparr>"

definition CleanPodNotification ::
  "('v, 'w) NotificationStore \<Rightarrow> NamespacedName \<Rightarrow> string \<Rightarrow> ('v, 'w) NotificationStore" where
  "CleanPodNotification n srcName pod =
     (case fmlookup (notificationStore n) srcName of
        None \<Rightarrow> n
      | Some podsNotifications \<Rightarrow>
          let podsNotifications' = fmdrop pod podsNotifications;
              store' = fmupd srcName podsNotifications' (notificationStore n)
          in n\<lparr>notificationStore :=
                 (if podsNotifications' = fmempty then fmdrop srcName store' else store')\<rparr>)"

text \<open>
  \<open>storeNewValue\<close>: the inner map is created and registered first when it is missing, and removed
  again when the value to store is nil and nothing else is left.
\<close>

definition storeNewValue ::
  "('v, 'w) NotificationStore \<Rightarrow> NamespacedName \<Rightarrow> string \<Rightarrow> 'v ValueMerger \<Rightarrow> 'v interface \<Rightarrow>
     bool \<times> ('v, 'w) NotificationStore" where
  "storeNewValue n srcName pod valueMerger newValue =
     (let podsNotifications = (case fmlookup (notificationStore n) srcName of None \<Rightarrow> fmempty | Some p \<Rightarrow> p);
          store0 = fmupd srcName podsNotifications (notificationStore n);
          (oldValue, ok) = (case fmlookup podsNotifications pod of None \<Rightarrow> (None, False) | Some v \<Rightarrow> (v, True));
          valueToStore = (if ok then valueMerger oldValue newValue else newValue)
      in if valueToStore \<noteq> None
         then (\<not> DeepEqual oldValue valueToStore,
               n\<lparr>notificationStore := fmupd srcName (fmupd pod valueToStore podsNotifications) store0\<rparr>)
         else let podsNotifications' = fmdrop pod podsNotifications;
                  store1 = fmupd srcName podsNotifications' store0
              in (True, n\<lparr>notificationStore :=
                            (if podsNotifications' = fmempty then fmdrop srcName store1 else store1)\<rparr>))"

text \<open>\<open>MessageHandler\<close>: parse, store, ack, and only then enqueue the key of the resource.\<close>

definition NotificationStore_MessageHandler ::
  "NamespacedName \<Rightarrow> string \<Rightarrow> 'v ValueMerger \<Rightarrow> (('v, 'w) NotificationStore, 'w) MessageHandler" where
  "NotificationStore_MessageHandler srcName pod valueMerger message = (\<lambda>(n, w).
     case payloadParser n (ServiceMessage_Payload message) of
       None \<Rightarrow> None
     | Some (Inl err) \<Rightarrow> Some (n, w)
     | Some (Inr parsedPayload) \<Rightarrow>
         let (shouldRunReconcile, n') = storeNewValue n srcName pod valueMerger parsedPayload;
             w' = Ack message w
         in Some (n', if shouldRunReconcile then enqueueKey n' srcName w' else w'))"

section \<open>Results of asynchronous commands\<close>

text \<open>An \<open>AsyncCommand\<close> is what its \<open>SerializedId()\<close> returns.\<close>

type_synonym AsyncCommand = bytes

type_synonym 'w asyncCommandNotificationStoreImpl = "(AsyncCommandResult, 'w) NotificationStore"

text \<open>\<open>message.ParseAsyncCommandResult\<close> as a \<open>PayloadParser\<close>: it never returns the nil interface.\<close>

definition asyncResultParser :: "AsyncCommandResult PayloadParser" where
  "asyncResultParser p =
     (case ParseAsyncCommandResult (slice_bytes p) of
        None \<Rightarrow> None
      | Some (Inl e) \<Rightarrow> Some (Inl e)
      | Some (Inr acr) \<Rightarrow> Some (Inr (Some acr)))"

definition NewAsyncCommandNotificationStore ::
  "(NamespacedName \<Rightarrow> 'w \<Rightarrow> 'w) \<Rightarrow> 'w asyncCommandNotificationStoreImpl" where
  "NewAsyncCommandNotificationStore enq =
     \<lparr>enqueueKey = enq, payloadParser = asyncResultParser, notificationStore = fmempty\<rparr>"

text \<open>
  \<open>GetCommandResult\<close>: the outer \<open>None\<close> is the panic of the type assertion
  \<open>val.(message.AsyncCommandResult)\<close> on a nil value.
\<close>

definition GetCommandResult ::
  "'w asyncCommandNotificationStoreImpl \<Rightarrow> NamespacedName \<Rightarrow> string \<Rightarrow> AsyncCommand \<Rightarrow>
     AsyncCommandResult option option" where
  "GetCommandResult ns srcName pod command =
     (let (val, ok) = GetPodNotification ns srcName pod
      in if \<not> ok then Some None
         else case val of
                None \<Rightarrow> None
              | Some res \<Rightarrow> if CommandId res \<noteq> command then Some None else Some (Some res))"

definition Async_CleanPodsNotifications ::
  "'w asyncCommandNotificationStoreImpl \<Rightarrow> NamespacedName \<Rightarrow> 'w asyncCommandNotificationStoreImpl" where
  "Async_CleanPodsNotifications ns srcName = CleanPodsNotifications ns srcName"

definition Async_CleanPodNotification ::
  "'w asyncCommandNotificationStoreImpl \<Rightarrow> NamespacedName \<Rightarrow> string \<Rightarrow> 'w asyncCommandNotificationStoreImpl" where
  "Async_CleanPodNotification ns srcName pod = CleanPodNotification ns srcName pod"

definition Async_MessageHandler ::
  "NamespacedName \<Rightarrow> string \<Rightarrow> ('w asyncCommandNotificationStoreImpl, 'w) MessageHandler" where
  "Async_MessageHandler srcName pod = NotificationStore_MessageHandler srcName pod PassNewValue"

section \<open>Copies\<close>

lemma copyMap_loop:
  "fmlookup (fold (\<lambda>k out. case fmlookup m k of None \<Rightarrow> out | Some v \<Rightarrow> fmupd k v out) order out) x =
     (if x \<in> set order \<and> fmlookup m x \<noteq> None then fmlookup m x else fmlookup out x)"
  by (induction order arbitrary: out) (auto split: option.splits)

lemma copyMap_eq: "set order = fset (fmdom m) \<Longrightarrow> copyMap order m = m"
  by (rule fmap_ext) (auto simp: copyMap_def copyMap_loop fmlookup_dom_iff)

section \<open>The store as a flat map\<close>

text \<open>
  The specification: one value per resource and pod, nil when there is none.  A notification for
  a pod that has a value goes through the merger, the first one is stored as it is, and a nil
  result removes the value.
\<close>

datatype 'v store_op =
    Notify NamespacedName string "'v ValueMerger" "'v interface"
  | CleanPod NamespacedName string
  | CleanPods NamespacedName

type_synonym 'v flat_store = "NamespacedName \<Rightarrow> string \<Rightarrow> 'v interface"

definition merged :: "'v ValueMerger \<Rightarrow> 'v interface \<Rightarrow> 'v interface \<Rightarrow> 'v interface" where
  "merged mg old v = (if old = None then v else mg old v)"

fun flat_op :: "'v store_op \<Rightarrow> 'v flat_store \<Rightarrow> 'v flat_store" where
  "flat_op (Notify a b mg v) m = m(a := (m a)(b := merged mg (m a b) v))"
| "flat_op (CleanPod a b) m = m(a := (m a)(b := None))"
| "flat_op (CleanPods a) m = m(a := (\<lambda>_. None))"

fun ns_step :: "'v store_op \<Rightarrow> ('v, 'w) NotificationStore \<Rightarrow> ('v, 'w) NotificationStore" where
  "ns_step (Notify a b mg v) n = snd (storeNewValue n a b mg v)"
| "ns_step (CleanPod a b) n = CleanPodNotification n a b"
| "ns_step (CleanPods a) n = CleanPodsNotifications n a"

fun touches :: "NamespacedName \<Rightarrow> string \<Rightarrow> 'v store_op \<Rightarrow> bool" where
  "touches a b (Notify a' b' mg v) \<longleftrightarrow> a = a' \<and> b = b'"
| "touches a b (CleanPod a' b') \<longleftrightarrow> a = a' \<and> b = b'"
| "touches a b (CleanPods a') \<longleftrightarrow> a = a'"

text \<open>What a store must promise to be used as a flat map.\<close>

locale keyed_store =
  fixes step :: "'v store_op \<Rightarrow> 's \<Rightarrow> 's" and view :: "'s \<Rightarrow> 'v flat_store" and inv :: "'s \<Rightarrow> bool"
  assumes step_inv: "inv s \<Longrightarrow> inv (step op s)"
    and step_view: "inv s \<Longrightarrow> view (step op s) = flat_op op (view s)"
begin

lemma run_inv: "inv s \<Longrightarrow> inv (fold step ops s)"
  by (induction ops arbitrary: s) (auto intro: step_inv)

lemma run_view: "inv s \<Longrightarrow> view (fold step ops s) = fold flat_op ops (view s)"
  by (induction ops arbitrary: s) (simp_all add: step_view step_inv)

lemma flat_untouched: "\<not> touches a b op \<Longrightarrow> flat_op op m a b = m a b"
  by (cases op) auto

lemma flat_local: "m a b = m' a b \<Longrightarrow> flat_op op m a b = flat_op op m' a b"
  by (cases op) (auto simp: merged_def)

lemma flat_run_local: "m a b = m' a b \<Longrightarrow> fold flat_op ops m a b = fold flat_op ops m' a b"
proof (induction ops arbitrary: m m')
  case (Cons op ops)
  show ?case
    using Cons.IH [of "flat_op op m" "flat_op op m'"] flat_local [of m a b m' op] Cons.prems by simp
qed simp

lemma run_touching:
  assumes "inv s"
  shows "view (fold step ops s) a b = view (fold step (filter (touches a b) ops) s) a b"
proof -
  have "fold flat_op ops m a b = fold flat_op (filter (touches a b) ops) m a b" for m
  proof (induction ops arbitrary: m)
    case (Cons op ops)
    show ?case
      using flat_run_local [of "flat_op op m" a b m ops] flat_untouched [of a b op m] Cons.IH
      by (cases "touches a b op") simp_all
  qed simp
  with assms show ?thesis by (simp add: run_view)
qed

end

section \<open>The two-level map implements the flat map\<close>

definition ns_view :: "('v, 'w) NotificationStore \<Rightarrow> 'v flat_store" where
  "ns_view n a b = Option.bind (lookup2 (notificationStore n) a b) (\<lambda>v. v)"

definition ns_inv :: "('v, 'w) NotificationStore \<Rightarrow> bool" where
  "ns_inv n \<longleftrightarrow> no_empty_inner (notificationStore n) \<and> (\<forall>a b. lookup2 (notificationStore n) a b \<noteq> Some None)"

lemma ns_inv_New [simp]: "ns_inv (NewNotificationStore enq p)" "ns_inv (NewAsyncCommandNotificationStore enq)"
  by (simp_all add: ns_inv_def NewNotificationStore_def NewAsyncCommandNotificationStore_def)

lemma ns_view_New [simp]:
  "ns_view (NewNotificationStore enq p) = (\<lambda>_ _. None)"
  "ns_view (NewAsyncCommandNotificationStore enq) = (\<lambda>_ _. None)"
  by (simp_all add: ns_view_def fun_eq_iff NewNotificationStore_def NewAsyncCommandNotificationStore_def)

lemma ns_inv_no_nil: "ns_inv n \<Longrightarrow> lookup2 (notificationStore n) a b \<noteq> Some None"
  unfolding ns_inv_def by blast

lemma GetPodNotification_view:
  "ns_inv n \<Longrightarrow> GetPodNotification n a b = (ns_view n a b, ns_view n a b \<noteq> None)"
  using ns_inv_no_nil [of n a b]
  by (cases "lookup2 (notificationStore n) a b")
     (auto simp: GetPodNotification_def ns_view_def lookup2_def bind_eq_Some_conv split: option.splits)

lemma GetPodsNotifications_view:
  assumes "ns_inv n"
  shows "case GetPodsNotifications n a of
           (None, ok) \<Rightarrow> \<not> ok \<and> (\<forall>b. ns_view n a b = None)
         | (Some pods, ok) \<Rightarrow> ok \<and> (\<forall>b. fmlookup pods b = map_option Some (ns_view n a b)) \<and> pods \<noteq> fmempty"
proof (cases "fmlookup (notificationStore n) a")
  case None
  then show ?thesis by (simp add: GetPodsNotifications_def ns_view_def)
next
  case (Some pods)
  have "pods \<noteq> fmempty"
    using no_empty_innerD [of "notificationStore n" a pods] assms Some by (simp add: ns_inv_def)
  moreover have "fmlookup pods b = map_option Some (ns_view n a b)" for b
    using ns_inv_no_nil [OF assms, of a b] Some by (cases "fmlookup pods b") (auto simp: ns_view_def)
  ultimately show ?thesis using Some by (simp add: GetPodsNotifications_def)
qed

text \<open>
  \<open>storeNewValue\<close> in terms of the flat map.  Both results on one equation: the flag, and the
  store, which is the old one with the inner map rewritten.
\<close>

definition set_value :: "('a, ('b, 'v option) fmap) fmap \<Rightarrow> 'a \<Rightarrow> 'b \<Rightarrow> 'v option \<Rightarrow> ('a, ('b, 'v option) fmap) fmap" where
  "set_value m a b v =
     (let inner = (case fmlookup m a of None \<Rightarrow> fmempty | Some i \<Rightarrow> i);
          inner' = (if v = None then fmdrop b inner else fmupd b v inner)
      in if inner' = fmempty then fmdrop a m else fmupd a inner' m)"

lemma lookup2_set_value:
  "lookup2 (set_value m a b v) a' b' =
     (if a' = a \<and> b' = b then map_option Some v else lookup2 m a' b')"
  by (cases v) (auto simp: set_value_def Let_def lookup2_def fmdrop_eq_fmemptyD split: option.splits)

lemma no_empty_inner_set_value: "no_empty_inner m \<Longrightarrow> no_empty_inner (set_value m a b v)"
  by (auto simp: set_value_def Let_def)

lemma storeNewValue_eq:
  assumes "ns_inv n"
  shows "storeNewValue n a b mg v =
    (let new = merged mg (ns_view n a b) v
     in (new = None \<or> new \<noteq> ns_view n a b, n\<lparr>notificationStore := set_value (notificationStore n) a b new\<rparr>))"
proof (cases "lookup2 (notificationStore n) a b")
  case None
  then show ?thesis
    by (auto simp: storeNewValue_def set_value_def merged_def ns_view_def DeepEqual_def Let_def lookup2_def
        split: option.splits)
next
  case (Some x)
  with ns_inv_no_nil [OF assms, of a b] obtain y where "x = Some y" by auto
  with Some show ?thesis
    by (auto simp: storeNewValue_def set_value_def merged_def ns_view_def DeepEqual_def Let_def lookup2_def
        split: option.splits)
qed

lemma CleanPodNotification_eq:
  assumes "ns_inv n"
  shows "CleanPodNotification n a b = n\<lparr>notificationStore := set_value (notificationStore n) a b None\<rparr>"
proof (cases "fmlookup (notificationStore n) a")
  case None
  then show ?thesis
    by (simp add: CleanPodNotification_def set_value_def Let_def fmdrop_missing)
next
  case (Some i)
  then show ?thesis by (simp add: CleanPodNotification_def set_value_def Let_def)
qed

lemma ns_step_eq:
  assumes "ns_inv n"
  shows "notificationStore (ns_step op n) =
    (case op of
       Notify a b mg v \<Rightarrow> set_value (notificationStore n) a b (merged mg (ns_view n a b) v)
     | CleanPod a b \<Rightarrow> set_value (notificationStore n) a b None
     | CleanPods a \<Rightarrow> fmdrop a (notificationStore n))"
  using assms
  by (cases op) (simp_all add: storeNewValue_eq CleanPodNotification_eq CleanPodsNotifications_def Let_def)

interpretation ns: keyed_store ns_step ns_view ns_inv
proof unfold_locales
  fix n :: "('v, 'w) NotificationStore" and op
  assume inv: "ns_inv n"
  show "ns_inv (ns_step op n)"
    using inv unfolding ns_inv_def [of "ns_step op n"] ns_step_eq [OF inv]
    by (cases op) (auto simp: ns_inv_def lookup2_set_value no_empty_inner_set_value)
  show "ns_view (ns_step op n) = flat_op op (ns_view n)"
    unfolding fun_eq_iff ns_view_def [of "ns_step op n"] ns_step_eq [OF inv]
    by (cases op) (auto simp: lookup2_set_value ns_view_def map_option_case split: option.splits)
qed

section \<open>Runs of the store of command results\<close>

text \<open>
  What happens to the store of command results: the message with a result arrives for a pod, or
  the reconciler cleans up.  The header of the message and its ack function are arbitrary.
\<close>

datatype async_op =
    ResultArrives NamespacedName string AsyncCommandResult
  | CleanResult NamespacedName string
  | CleanResults NamespacedName

fun async_step ::
  "MessageHeader \<Rightarrow> (go_error option \<Rightarrow> 'w \<Rightarrow> 'w) \<Rightarrow> async_op \<Rightarrow>
     'w asyncCommandNotificationStoreImpl \<times> 'w \<Rightarrow> ('w asyncCommandNotificationStoreImpl \<times> 'w) option" where
  "async_step h ack (ResultArrives a b res) s =
     Async_MessageHandler a b (NewServiceMessage \<lparr>header = h, payload = Some (MarshalBinary res)\<rparr> ack) s"
| "async_step h ack (CleanResult a b) s = Some (Async_CleanPodNotification (fst s) a b, snd s)"
| "async_step h ack (CleanResults a) s = Some (Async_CleanPodsNotifications (fst s) a, snd s)"

fun async_run ::
  "MessageHeader \<Rightarrow> (go_error option \<Rightarrow> 'w \<Rightarrow> 'w) \<Rightarrow> async_op list \<Rightarrow>
     'w asyncCommandNotificationStoreImpl \<times> 'w \<Rightarrow> ('w asyncCommandNotificationStoreImpl \<times> 'w) option" where
  "async_run h ack [] s = Some s"
| "async_run h ack (op # ops) s = Option.bind (async_step h ack op s) (async_run h ack ops)"

text \<open>The specification: the last result that arrived for the pod and was not cleaned since.\<close>

fun latest_result :: "NamespacedName \<Rightarrow> string \<Rightarrow> async_op list \<Rightarrow> AsyncCommandResult option \<Rightarrow> AsyncCommandResult option" where
  "latest_result a b [] r = r"
| "latest_result a b (ResultArrives a' b' res # ops) r =
     latest_result a b ops (if a' = a \<and> b' = b then Some res else r)"
| "latest_result a b (CleanResult a' b' # ops) r = latest_result a b ops (if a' = a \<and> b' = b then None else r)"
| "latest_result a b (CleanResults a' # ops) r = latest_result a b ops (if a' = a then None else r)"

fun op_fits :: "async_op \<Rightarrow> bool" where
  "op_fits (ResultArrives a b res) = acr_fits res"
| "op_fits _ = True"

lemma asyncResultParser_MarshalBinary:
  "acr_fits k \<Longrightarrow> asyncResultParser (Some (MarshalBinary k)) = Some (Inr (Some k))"
  by (simp add: asyncResultParser_def ParseAsyncCommandResult_def MarshalBinary_acr_encode
      UnmarshalBinary_acr_encode)

fun as_store_op :: "async_op \<Rightarrow> AsyncCommandResult store_op" where
  "as_store_op (ResultArrives a b res) = Notify a b PassNewValue (Some res)"
| "as_store_op (CleanResult a b) = CleanPod a b"
| "as_store_op (CleanResults a) = CleanPods a"

lemma storeNewValue_parser [simp]: "payloadParser (snd (storeNewValue n a b mg v)) = payloadParser n"
  by (simp add: storeNewValue_def Let_def split: prod.splits)

lemma async_step_eq:
  assumes "payloadParser n = asyncResultParser" and "op_fits op"
  shows "\<exists>w'. async_step h ack op (n, w) = Some (ns_step (as_store_op op) n, w')"
  using assms
  by (cases op)
     (auto simp: Async_MessageHandler_def NotificationStore_MessageHandler_def service_message_defs
       asyncResultParser_MarshalBinary Async_CleanPodNotification_def Async_CleanPodsNotifications_def Let_def
       split: prod.splits)

lemma ns_step_parser: "ns_inv n \<Longrightarrow> payloadParser (ns_step op n) = payloadParser n"
  by (cases op) (simp_all add: CleanPodNotification_eq CleanPodsNotifications_def)

lemma async_run_eq:
  assumes "payloadParser n = asyncResultParser" and "ns_inv n" and "\<forall>op \<in> set ops. op_fits op"
  shows "\<exists>w'. async_run h ack ops (n, w) = Some (fold ns_step (map as_store_op ops) n, w')"
  using assms
proof (induction ops arbitrary: n w)
  case (Cons op ops)
  obtain w1 where "async_step h ack op (n, w) = Some (ns_step (as_store_op op) n, w1)"
    using async_step_eq [of n op h ack w] Cons.prems by auto
  then show ?case
    using Cons.IH [of "ns_step (as_store_op op) n" w1] Cons.prems ns.step_inv [of n] ns_step_parser [of n] by simp
qed simp

lemma flat_latest:
  "fold flat_op (map as_store_op ops) m a b = latest_result a b ops (m a b)"
proof (induction ops arbitrary: m)
  case (Cons op ops)
  show ?case
  proof (cases op)
    case (ResultArrives a' b' res)
    then show ?thesis using Cons.IH by (auto simp: merged_def PassNewValue_def)
  next
    case (CleanResult a' b')
    then show ?thesis using Cons.IH by auto
  next
    case (CleanResults a')
    then show ?thesis using Cons.IH by auto
  qed
qed simp

section \<open>Properties\<close>

text \<open>
  C15. Refinement: after any sequence of notifications and clean-ups, with any mergers, the
  two-level map of the store answers every lookup as the flat map does, and lists a resource
  exactly when one of its pods has a value (no empty inner map is ever left behind).
\<close>

theorem notification_store_refines_flat_map:
  "let n = fold ns_step ops (NewNotificationStore enq p); m = fold flat_op ops (\<lambda>_ _. None)
   in GetPodNotification n a b = (m a b, m a b \<noteq> None) \<and>
     (case GetPodsNotifications n a of
        (None, ok) \<Rightarrow> \<not> ok \<and> (\<forall>b. m a b = None)
      | (Some pods, ok) \<Rightarrow> ok \<and> (\<forall>b. fmlookup pods b = map_option Some (m a b)) \<and> pods \<noteq> fmempty)"
proof -
  let ?n = "fold ns_step ops (NewNotificationStore enq p)" and ?m = "fold flat_op ops (\<lambda>_ _. None)"
  have inv: "ns_inv ?n" by (rule ns.run_inv) simp
  have view: "ns_view ?n = ?m" by (subst ns.run_view) simp_all
  show ?thesis
    unfolding Let_def
    using GetPodNotification_view [OF inv, of a b] GetPodsNotifications_view [OF inv, of a]
    unfolding view by blast
qed

text \<open>
  Isolation: what the store holds for a pod depends only on the operations on that pod and on
  the clean-ups of its resource; all others can be left out.
\<close>

lemma notification_store_isolates_pods:
  "GetPodNotification (fold ns_step ops (NewNotificationStore enq p)) a b =
   GetPodNotification (fold ns_step (filter (touches a b) ops) (NewNotificationStore enq p)) a b"
proof -
  have inv: "ns_inv (fold ns_step ops' (NewNotificationStore enq p))" for ops' by (rule ns.run_inv) simp
  show ?thesis
    unfolding GetPodNotification_view [OF inv] using ns.run_touching [OF ns_inv_New(1), of ops enq p a b] by simp
qed

text \<open>
  C16. Correlation of commands and results: whatever results arrived and whatever was cleaned up,
  the handler never panics, and \<open>GetCommandResult\<close> returns the last result that arrived for that pod
  and was not cleaned since if its command identifier is that of the command, and nil otherwise.
\<close>

theorem async_command_results_correlated:
  assumes "\<forall>op \<in> set ops. op_fits op"
  shows "\<exists>n w'. async_run h ack ops (NewAsyncCommandNotificationStore enq, w) = Some (n, w') \<and>
    (\<forall>a b command. GetCommandResult n a b command =
       Some (case latest_result a b ops None of
               None \<Rightarrow> None | Some res \<Rightarrow> if CommandId res = command then Some res else None))"
proof -
  let ?n0 = "NewAsyncCommandNotificationStore enq" and ?ops = "map as_store_op ops"
  have p: "payloadParser ?n0 = asyncResultParser" by (simp add: NewAsyncCommandNotificationStore_def)
  from async_run_eq [OF p ns_inv_New(2) assms] obtain w' where
    run: "async_run h ack ops (?n0, w) = Some (fold ns_step ?ops ?n0, w')" by blast
  have inv: "ns_inv (fold ns_step ?ops ?n0)" by (rule ns.run_inv) simp
  have view: "ns_view (fold ns_step ?ops ?n0) a b = latest_result a b ops None" for a b
    by (simp add: ns.run_view flat_latest del: fold_map)
  have "GetCommandResult (fold ns_step ?ops ?n0) a b command =
      Some (case latest_result a b ops None of
              None \<Rightarrow> None | Some res \<Rightarrow> if CommandId res = command then Some res else None)" for a b command
    unfolding GetCommandResult_def GetPodNotification_view [OF inv] view by (simp split: option.splits)
  with run show ?thesis by blast
qed

theorem async_command_results_correlated_witness:
  "\<exists>n w'. async_run (header example_message) (\<lambda>err w. w)
       [ResultArrives (''ns'', ''src'') ''10.0.0.1'' \<lparr>CommandId = Int64CommandId 3, Error = ''boom''\<rparr>,
        CleanResult (''ns'', ''src'') ''10.0.0.2'']
       (NewAsyncCommandNotificationStore (\<lambda>k w. w), ()) = Some (n, w') \<and>
     GetCommandResult n (''ns'', ''src'') ''10.0.0.1'' (Int64CommandId 3) =
       Some (Some \<lparr>CommandId = Int64CommandId 3, Error = ''boom''\<rparr>) \<and>
     GetCommandResult n (''ns'', ''src'') ''10.0.0.1'' (Int64CommandId 4) = Some None"
proof -
  let ?ops = "[ResultArrives (''ns'', ''src'') ''10.0.0.1'' \<lparr>CommandId = Int64CommandId 3, Error = ''boom''\<rparr>,
        CleanResult (''ns'', ''src'') ''10.0.0.2'']"
  have "\<forall>op \<in> set ?ops. op_fits op" by (simp add: acr_fits_def Int64CommandId_def)
  from async_command_results_correlated [OF this, of "header example_message" "\<lambda>err w. w" "\<lambda>k w. w" "()"]
  obtain n w' where run: "async_run (header example_message) (\<lambda>err w. w) ?ops (NewAsyncCommandNotificationStore (\<lambda>k w. w), ()) = Some (n, w')"
    and get: "\<And>a b command. GetCommandResult n a b command =
       Some (case latest_result a b ?ops None of
               None \<Rightarrow> None | Some res \<Rightarrow> if CommandId res = command then Some res else None)" by blast
  have "GetCommandResult n (''ns'', ''src'') ''10.0.0.1'' (Int64CommandId 3) =
      Some (Some \<lparr>CommandId = Int64CommandId 3, Error = ''boom''\<rparr>)"
    and "GetCommandResult n (''ns'', ''src'') ''10.0.0.1'' (Int64CommandId 4) = Some None"
    unfolding get by (simp_all add: Int64CommandId_def)
  with run show ?thesis by blast
qed

text \<open>
  The handler, on every branch: a panic of the parser is its panic; a payload that cannot be
  parsed changes nothing and is not acked; otherwise the value is merged into the store, the
  message is acked exactly once and successfully, and afterwards the key of the resource is
  enqueued, unless the stored value is what was there before (a nil value always enqueues).
\<close>

lemma notification_handler_effects:
  assumes "ns_inv n"
  shows "NotificationStore_MessageHandler a b mg message (n, w) =
    (case payloadParser n (payload (inboundMessage message)) of
       None \<Rightarrow> None
     | Some (Inl err) \<Rightarrow> Some (n, w)
     | Some (Inr v) \<Rightarrow>
         let old = ns_view n a b; new = merged mg old v; acked = ackFunc message None w
         in Some (ns_step (Notify a b mg v) n,
                  if new \<noteq> None \<and> new = old then acked else enqueueKey n a acked))"
  by (auto simp: NotificationStore_MessageHandler_def service_message_defs storeNewValue_eq [OF assms] Let_def
      split: option.splits sum.splits)

end
