(* ===== verification/Handlers.thy ===== *)
theory Handlers
  imports Service_Message Async_Command
begin

text \<open>
  The message handlers of \<open>pkg/service\<close>: the default handlers (\<open>built_in_handlers.go\<close>), the
  router on opcodes (\<open>message_router.go\<close>), the handler of asynchronous commands
  (\<open>async_command_handler.go\<close>) and the service wrapper that suppresses repeated messages
  (\<open>service_caching_wrapper.go\<close>).
\<close>

section \<open>Default handlers\<close>

definition NoopMessageHandler :: "('s, 'w) MessageHandler" where
  "NoopMessageHandler message = (\<lambda>(s, w). Some (s, Ack message w))"

definition LoggerErrorHandler :: "'s ErrorHandler" where
  "LoggerErrorHandler err s = s"

section \<open>The router\<close>

type_synonym ('s, 'w) MessageRouter = "(byte, ('s, 'w) MessageHandler) fmap"

definition unknownOpCode :: "byte \<Rightarrow> go_error" where
  "unknownOpCode opc = ErrorString (''received an unknown opcode '' @ [CHR 0x27] @ string_of_nat (unat opc) @
     [CHR 0x27] @ '', I don't know what to do with it'')"

definition MessageRouter_HandleServiceMessage ::
  "('s, 'w) MessageRouter \<Rightarrow> ('s, 'w) MessageHandler" where
  "MessageRouter_HandleServiceMessage c message = (\<lambda>(s, w).
     case fmlookup c (OpCode (Headers message)) of
       Some handler \<Rightarrow> handler message (s, w)
     | None \<Rightarrow> Some (s, AckWithError message (unknownOpCode (OpCode (Headers message))) w))"

section \<open>Sending through a service\<close>

text \<open>
  An \<open>encoding.BinaryMarshaler\<close>: the value itself (as the caching service compares it) and what
  its \<open>MarshalBinary\<close> returns, an error or a slice that may be nil.  The nil interface is \<open>None\<close>.
\<close>

record 'p BinaryMarshaler =
  marshaler_value :: 'p
  marshaled :: "go_error + bytes option"

text \<open>
  \<open>SendAndWaitForAck\<close> of the interface \<open>control.Service\<close>, as a state transformer: the error it
  returns and the state of everything the service acts on.
\<close>

type_synonym ('p, 'w) SendAndWaitForAck =
  "byte \<Rightarrow> 'p BinaryMarshaler option \<Rightarrow> 'w \<Rightarrow> go_error option \<times> 'w"

section \<open>The caching service\<close>

record ('p, 'w) cachingService =
  Service :: "('p, 'w) SendAndWaitForAck"
  sentMessages :: "(byte, 'p option) fmap"

definition WithCachingService :: "('p, 'w) SendAndWaitForAck \<Rightarrow> ('p, 'w) cachingService" where
  "WithCachingService service = \<lparr>Service = service, sentMessages = fmempty\<rparr>"

definition cachingService_SendAndWaitForAck ::
  "('p, 'w) cachingService \<Rightarrow> byte \<Rightarrow> 'p BinaryMarshaler option \<Rightarrow> 'w \<Rightarrow>
     go_error option \<times> ('p, 'w) cachingService \<times> 'w" where
  "cachingService_SendAndWaitForAck c opc p w =
     (let value = map_option marshaler_value p
      in case fmlookup (sentMessages c) opc of
           Some lastPayload \<Rightarrow>
             if lastPayload = value then (None, c, w)
             else (case Service c opc p w of
                     (Some err, w') \<Rightarrow> (Some err, c, w')
                   | (None, w') \<Rightarrow> (None, c\<lparr>sentMessages := fmupd opc value (sentMessages c)\<rparr>, w'))
         | None \<Rightarrow>
             (case Service c opc p w of
                (Some err, w') \<Rightarrow> (Some err, c, w')
              | (None, w') \<Rightarrow> (None, c\<lparr>sentMessages := fmupd opc value (sentMessages c)\<rparr>, w')))"

section \<open>The handler of asynchronous commands\<close>

record ('c, 'w) AsyncCommandMessage =
  serviceMessage :: "'w ServiceMessage"
  parsedCommand :: 'c
  ac_service :: "(AsyncCommandResult, 'w) SendAndWaitForAck"
  resultOpCode :: byte

definition AsyncCommandMessage_Headers :: "('c, 'w) AsyncCommandMessage \<Rightarrow> MessageHeader" where
  "AsyncCommandMessage_Headers ac = Headers (serviceMessage ac)"

definition ParsedCommand :: "('c, 'w) AsyncCommandMessage \<Rightarrow> 'c" where
  "ParsedCommand ac = parsedCommand ac"

text \<open>The result as a \<open>BinaryMarshaler\<close>; \<open>AsyncCommandResult.MarshalBinary\<close> never fails.\<close>

definition result_marshaler :: "AsyncCommandResult \<Rightarrow> AsyncCommandResult BinaryMarshaler" where
  "result_marshaler r = \<lparr>marshaler_value = r, marshaled = Inr (Some (MarshalBinary r))\<rparr>"

text \<open>\<open>SerializedId\<close> is the method of the interface \<open>message.AsyncCommand\<close> at the command's type.\<close>

definition NotifySuccess ::
  "('c \<Rightarrow> bytes) \<Rightarrow> ('c, 'w) AsyncCommandMessage \<Rightarrow> 'w \<Rightarrow> 'w" where
  "NotifySuccess SerializedId ac w =
     snd (ac_service ac (resultOpCode ac)
            (Some (result_marshaler \<lparr>CommandId = SerializedId (parsedCommand ac), Error = ''''\<rparr>)) w)"

definition NotifyFailed ::
  "('c \<Rightarrow> bytes) \<Rightarrow> ('c, 'w) AsyncCommandMessage \<Rightarrow> go_error option \<Rightarrow> 'w \<Rightarrow> 'w" where
  "NotifyFailed SerializedId ac err w =
     (case err of
        None \<Rightarrow> NotifySuccess SerializedId ac w
      | Some e \<Rightarrow>
          snd (ac_service ac (resultOpCode ac)
                 (Some (result_marshaler \<lparr>CommandId = SerializedId (parsedCommand ac), Error = error_text e\<rparr>)) w))"

text \<open>
  \<open>payloadType\<close> is known to the handler by the \<open>UnmarshalBinary\<close> of a fresh value of the type
  (\<open>None\<close>: it panics); the command handler is a state transformer that may panic.
\<close>

record ('c, 's, 'w) asyncCommandHandler =
  ach_svc :: "(AsyncCommandResult, 'w) SendAndWaitForAck"
  ach_resultOpCode :: byte
  payloadType :: "bytes option \<Rightarrow> (go_error + 'c) option"
  ach_handler :: "('c, 'w) AsyncCommandMessage \<Rightarrow> 's \<times> 'w \<Rightarrow> ('s \<times> 'w) option"

definition NewAsyncCommandHandler ::
  "(AsyncCommandResult, 'w) SendAndWaitForAck \<Rightarrow> (bytes option \<Rightarrow> (go_error + 'c) option) \<Rightarrow> byte \<Rightarrow>
     (('c, 'w) AsyncCommandMessage \<Rightarrow> 's \<times> 'w \<Rightarrow> ('s \<times> 'w) option) \<Rightarrow> ('c, 's, 'w) asyncCommandHandler" where
  "NewAsyncCommandHandler svc unmarshal opc handle =
     \<lparr>ach_svc = svc, ach_resultOpCode = opc, payloadType = unmarshal, ach_handler = handle\<rparr>"

definition asyncCommandHandler_HandleServiceMessage ::
  "('c, 's, 'w) asyncCommandHandler \<Rightarrow> ('s, 'w) MessageHandler" where
  "asyncCommandHandler_HandleServiceMessage f msg = (\<lambda>(s, w).
     case payloadType f (ServiceMessage_Payload msg) of
       None \<Rightarrow> None
     | Some (Inl err) \<Rightarrow> Some (s, AckWithError msg (Wrapped ''error while parsing the async command: '' err) w)
     | Some (Inr payloadValue) \<Rightarrow>
         ach_handler f \<lparr>serviceMessage = msg, parsedCommand = payloadValue, ac_service = ach_svc f,
                        resultOpCode = ach_resultOpCode f\<rparr> (s, Ack msg w))"

section \<open>What the caching service forwards\<close>

text \<open>
  A sequence of sends through the caching service, with the trace of what happened: for each
  send the opcode, the value, whether it was forwarded to the wrapped service (whose calls are
  counted), and the error returned to the caller.
\<close>

record 'p sent =
  sent_opcode :: byte
  sent_value :: "'p option"
  forwarded :: bool
  outcome :: "go_error option"

definition counted :: "('p, 'w) SendAndWaitForAck \<Rightarrow> ('p, 'w \<times> nat) SendAndWaitForAck" where
  "counted service opc p wn = (let (err, w') = service opc p (fst wn) in (err, (w', Suc (snd wn))))"

fun caching_run ::
  "('p, 'w \<times> nat) cachingService \<Rightarrow> (byte \<times> 'p BinaryMarshaler option) list \<Rightarrow> 'w \<times> nat \<Rightarrow>
     'p sent list \<times> ('p, 'w \<times> nat) cachingService \<times> 'w \<times> nat" where
  "caching_run c [] w = ([], c, w)"
| "caching_run c ((opc, p) # reqs) w =
     (let (err, c', w') = cachingService_SendAndWaitForAck c opc p w;
          (tr, c'', w'') = caching_run c' reqs w'
      in (\<lparr>sent_opcode = opc, sent_value = map_option marshaler_value p, forwarded = (snd w' \<noteq> snd w),
           outcome = err\<rparr> # tr, c'', w''))"

text \<open>The value of the last successful send with an opcode.\<close>

fun last_acked :: "byte \<Rightarrow> 'p sent list \<Rightarrow> 'p option option \<Rightarrow> 'p option option" where
  "last_acked opc [] r = r"
| "last_acked opc (x # tr) r =
     last_acked opc tr (if sent_opcode x = opc \<and> outcome x = None then Some (sent_value x) else r)"

text \<open>
  The trace a caching service should produce: a send is forwarded unless the last successful
  send with its opcode had an equal value, and what is not forwarded succeeds.
\<close>

fun dedup_ok :: "(byte \<Rightarrow> 'p option option) \<Rightarrow> 'p sent list \<Rightarrow> bool" where
  "dedup_ok known [] \<longleftrightarrow> True"
| "dedup_ok known (x # tr) \<longleftrightarrow>
     (forwarded x \<longleftrightarrow> known (sent_opcode x) \<noteq> Some (sent_value x)) \<and>
     (forwarded x \<or> outcome x = None) \<and>
     dedup_ok (if outcome x = None then known(sent_opcode x := Some (sent_value x)) else known) tr"

lemma caching_send_cases:
  assumes "cachingService_SendAndWaitForAck c opc p w = (err, c', w')"
  shows "Service c' = Service c \<and>
    (if fmlookup (sentMessages c) opc = Some (map_option marshaler_value p)
     then err = None \<and> c' = c \<and> w' = w
     else Service c opc p w = (err, w') \<and>
       sentMessages c' = (if err = None then fmupd opc (map_option marshaler_value p) (sentMessages c) else sentMessages c))"
  using assms
  by (auto simp: cachingService_SendAndWaitForAck_def Let_def split: option.splits if_splits prod.splits)

lemma fmlookup_fmempty: "fmlookup fmempty = (\<lambda>_. None)"
  by (simp add: fun_eq_iff)

lemma caching_run_ok:
  assumes "caching_run c reqs w = (tr, c', w')" and "Service c = counted service"
  shows "dedup_ok (fmlookup (sentMessages c)) tr \<and>
    fmlookup (sentMessages c') opc = last_acked opc tr (fmlookup (sentMessages c) opc)"
  using assms
proof (induction reqs arbitrary: c w tr)
  case (Cons req reqs)
  obtain o' p where req: "req = (o', p)" by fastforce
  obtain err c1 w1 where send: "cachingService_SendAndWaitForAck c o' p w = (err, c1, w1)"
    using prod_cases3 by blast
  obtain tr2 where run: "caching_run c1 reqs w1 = (tr2, c', w')"
    and tr: "tr = \<lparr>sent_opcode = o', sent_value = map_option marshaler_value p,
       forwarded = (snd w1 \<noteq> snd w), outcome = err\<rparr> # tr2"
    using Cons.prems send by (auto simp: req Let_def split: prod.splits)
  let ?hit = "fmlookup (sentMessages c) o' = Some (map_option marshaler_value p)"
  note cs = caching_send_cases [OF send]
  have fwd: "snd w1 \<noteq> snd w \<longleftrightarrow> \<not> ?hit"
    using cs Cons.prems(2) by (auto simp: counted_def Let_def split: if_splits prod.splits)
  have upd: "fmlookup (sentMessages c1) =
      (if err = None then (fmlookup (sentMessages c))(o' := Some (map_option marshaler_value p))
       else fmlookup (sentMessages c))"
    using cs by (auto simp: fun_eq_iff split: if_splits)
  show ?case
    using Cons.IH [OF run] Cons.prems(2) cs by (auto simp: tr upd fwd split: if_splits)
qed simp

text \<open>
  The router hands a message to the handler registered for its opcode and to no other; a
  message without one is acked with an error that names its opcode, and the handlers' state is
  untouched.
\<close>

lemma router_dispatches:
  "MessageRouter_HandleServiceMessage (fmupd opc h c) message (s, w) =
     (if OpCode (header (inboundMessage message)) = opc then h message (s, w)
      else MessageRouter_HandleServiceMessage c message (s, w)) \<and>
   MessageRouter_HandleServiceMessage fmempty message (s, w) =
     Some (s, ackFunc message (Some (unknownOpCode (OpCode (header (inboundMessage message))))) w)"
  by (auto simp: MessageRouter_HandleServiceMessage_def service_message_defs)

section \<open>What the handlers do\<close>

text \<open>
  The caching service, over every sequence of sends and every behaviour of the wrapped
  service: a send is forwarded unless the last successful send with the same opcode had an equal
  payload, a send that is not forwarded returns nil, and a failed send is never remembered.
\<close>

lemma caching_service_forwards_new_values:
  "dedup_ok (\<lambda>_. None) (fst (caching_run (WithCachingService (counted service)) reqs w))"
proof -
  obtain tr c' w' where run: "caching_run (WithCachingService (counted service)) reqs w = (tr, c', w')"
    using prod_cases3 by blast
  show ?thesis
    using caching_run_ok [OF run, of service] run by (simp add: WithCachingService_def fmlookup_fmempty)
qed

text \<open>
  Asynchronous commands: a payload that does not parse is acked with an error and never
  reaches the command handler; otherwise the message is acked with success exactly once, before
  the command handler runs on the parsed command.  Whatever error the handler then reports, the
  service is asked to send, with the result opcode, the identifier of that command and the text
  of the error.
\<close>

lemma async_command_acked_then_handled:
  "asyncCommandHandler_HandleServiceMessage (NewAsyncCommandHandler svc unmarshal opc handle) msg (s, w) =
    (case unmarshal (payload (inboundMessage msg)) of
       None \<Rightarrow> None
     | Some (Inl err) \<Rightarrow> Some (s, ackFunc msg (Some (Wrapped ''error while parsing the async command: '' err)) w)
     | Some (Inr cmd) \<Rightarrow> handle \<lparr>serviceMessage = msg, parsedCommand = cmd, ac_service = svc, resultOpCode = opc\<rparr>
                             (s, ackFunc msg None w)) \<and>
   NotifyFailed sid \<lparr>serviceMessage = msg, parsedCommand = cmd, ac_service = svc, resultOpCode = opc\<rparr> err w =
     snd (svc opc (Some (result_marshaler
            \<lparr>CommandId = sid cmd, Error = (case err of None \<Rightarrow> '''' | Some e \<Rightarrow> error_text e)\<rparr>)) w)"
  by (auto simp: asyncCommandHandler_HandleServiceMessage_def NewAsyncCommandHandler_def service_message_defs
      NotifyFailed_def NotifySuccess_def split: option.splits sum.splits)

end
