(* ===== verification/Service.thy ===== *)
theory Service
  imports Base_Connection Handlers
begin

text \<open>
  \<open>pkg/service/service.go\<close>: sending a message and waiting for its acknowledgement, and
  dispatching incoming messages to the handler or to the sender that waits for them.

  The goroutines that are inside \<open>SendAndWaitForAck\<close> and those that run \<open>accept\<close> are
  interleaved by a labelled step relation; each has a program counter that stands at the next
  action on shared state.  The ack channels, of capacity one, live in a heap, because a goroutine
  of \<open>accept\<close> can hold one whose sender has already returned.
\<close>

section \<open>Acknowledgements\<close>

definition newAckMessage :: "bytes \<Rightarrow> go_error option \<Rightarrow> Message" where
  "newAckMessage u err = NewMessage u AckOpCode (map_option (\<lambda>e. bytes_of_string (error_text e)) err) []"

text \<open>The error \<open>accept\<close> takes out of an ack message.\<close>

definition ackError :: "Message \<Rightarrow> go_error option" where
  "ackError msg =
     (if Length (header msg) \<noteq> 0 then Some (ErrorString (string_of_bytes (slice_bytes (Payload msg)))) else None)"

section \<open>Starting a send\<close>

text \<open>\<open>uuid.UUID.String\<close> of the vendored package \<open>google/uuid\<close>: hexadecimal groups of 4-2-2-2-6 bytes.\<close>

definition hex_digit :: "nat \<Rightarrow> char" where
  "hex_digit n = ''0123456789abcdef'' ! n"

definition hex_Encode :: "bytes \<Rightarrow> string" where
  "hex_Encode b = concat (map (\<lambda>x. [hex_digit (unat x div 16), hex_digit (unat x mod 16)]) b)"

definition uuid_String :: "bytes \<Rightarrow> string" where
  "uuid_String u = hex_Encode (take 4 u) @ ''-'' @ hex_Encode (take 2 (drop 4 u)) @ ''-'' @
     hex_Encode (take 2 (drop 6 u)) @ ''-'' @ hex_Encode (take 2 (drop 8 u)) @ ''-'' @ hex_Encode (drop 10 u)"

text \<open>
  The part of \<open>SendAndWaitForAck\<close> and \<open>sendBinaryAndWaitForAck\<close> before any shared state is
  touched: marshal the payload, refuse the ack opcode, build the message with the identifier that
  \<open>uuid.New\<close> returned.
\<close>

definition sendBinary_start :: "bytes \<Rightarrow> byte \<Rightarrow> bytes option \<Rightarrow> go_error + Message" where
  "sendBinary_start u opc p =
     (if opc = AckOpCode then Inl (ErrorString ''you cannot send an ack manually'')
      else Inr (NewMessage u opc p []))"

definition SendAndWaitForAck_start :: "bytes \<Rightarrow> byte \<Rightarrow> 'p BinaryMarshaler option \<Rightarrow> go_error + Message" where
  "SendAndWaitForAck_start u opc p =
     (case p of
        None \<Rightarrow> sendBinary_start u opc None
      | Some m \<Rightarrow> (case marshaled m of Inl err \<Rightarrow> Inl err | Inr b \<Rightarrow> sendBinary_start u opc b))"

definition timeoutError :: "Message \<Rightarrow> go_error" where
  "timeoutError m = ErrorString (''timeout exceeded for outgoing message: '' @ uuid_String (UUID (header m)))"

section \<open>The service and its goroutines\<close>

text \<open>An ack channel; \<open>made_for\<close>, which no step reads, is the identifier of the message it was made for.\<close>

record ackChan =
  made_for :: bytes
  buffered :: "go_error option list"
  chan_closed :: bool

record 's service =
  svc_ctx_done :: bool
  connection :: baseTcpConnection
  waitingAcks :: "(bytes, nat) fmap"
  handler :: "('s, baseTcpConnection) MessageHandler"
  errorHandler :: "'s ErrorHandler"

text \<open>
  A sender: about to register its channel, to write the message, waiting in the \<open>select\<close>, and in
  the deferred function with the result it will return.
\<close>

datatype sender_pc =
    SRegister Message | SWrite Message nat | SWait Message nat | SUnregister Message "go_error option"

text \<open>
  A goroutine of \<open>accept\<close>: at its start, about to send on a channel, about to close it; or one of
  \<open>acceptError\<close>, with its error.
\<close>

datatype accept_pc = AStart Message | ASend nat "go_error option" | AClose nat | AError go_error

text \<open>\<open>pollingErrors\<close>: the second goroutine of \<open>startPolling\<close> has not returned.\<close>

record 's svc_world =
  svc :: "'s service"
  hstate :: 's
  ackChans :: "(nat, ackChan) fmap"
  senders :: "(nat, sender_pc) fmap"
  acceptors :: "accept_pc list"
  pollingErrors :: bool
  panicked :: bool

definition NewService :: "baseTcpConnection \<Rightarrow> 's service" where
  "NewService conn = \<lparr>svc_ctx_done = False, connection = conn, waitingAcks = fmempty,
                      handler = NoopMessageHandler, errorHandler = LoggerErrorHandler\<rparr>"

definition start_service :: "baseTcpConnection \<Rightarrow> 's \<Rightarrow> 's svc_world" where
  "start_service conn hs = \<lparr>svc = NewService conn, hstate = hs, ackChans = fmempty, senders = fmempty,
                            acceptors = [], pollingErrors = True, panicked = False\<rparr>"

definition service_MessageHandler ::
  "'s service \<Rightarrow> ('s, baseTcpConnection) MessageHandler \<Rightarrow> 's service" where
  "service_MessageHandler c h = c\<lparr>handler := h\<rparr>"

definition service_ErrorHandler :: "'s service \<Rightarrow> 's ErrorHandler \<Rightarrow> 's service" where
  "service_ErrorHandler c h = c\<lparr>errorHandler := h\<rparr>"

definition registerAck :: "'s service \<Rightarrow> Message \<Rightarrow> nat \<Rightarrow> 's service" where
  "registerAck c m ch = c\<lparr>waitingAcks := fmupd (UUID (header m)) ch (waitingAcks c)\<rparr>"

definition unregisterAck :: "'s service \<Rightarrow> Message \<Rightarrow> 's service" where
  "unregisterAck c m = c\<lparr>waitingAcks := fmdrop (UUID (header m)) (waitingAcks c)\<rparr>"

text \<open>The function a handler acks with: it writes an ack message for \<open>msg\<close> to the connection.\<close>

definition service_ackFunc :: "Message \<Rightarrow> go_error option \<Rightarrow> baseTcpConnection \<Rightarrow> baseTcpConnection" where
  "service_ackFunc msg err conn = WriteMessage conn (newAckMessage (UUID (header msg)) err)"

definition is_ack :: "Message \<Rightarrow> bool" where
  "is_ack msg \<longleftrightarrow> OpCode (header msg) = AckOpCode"

datatype svc_label =
    LTau | LCall nat Message | LReturn nat Message "go_error option" | LRejected go_error
  | LArrive Message | LAccept Message | LHandled Message | LHandlerPanic | LSetHandler | LTimeout nat

text \<open>
  The steps of the goroutines inside \<open>SendAndWaitForAck\<close>.  The context of the service is one that ends by cancellation, so that its error is
  \<open>context.Canceled\<close>: the packages set no deadline, and a caller's context with a deadline is outside the model.
\<close>

inductive sender_step :: "'s svc_world \<Rightarrow> svc_label \<Rightarrow> 's svc_world \<Rightarrow> bool" where
  snd_rejected: "SendAndWaitForAck_start u opc (p :: unit BinaryMarshaler option) = Inl e \<Longrightarrow> sender_step w (LRejected e) w"
| snd_call: "SendAndWaitForAck_start u opc (p :: unit BinaryMarshaler option) = Inr m \<Longrightarrow> fmlookup (senders w) tid = None \<Longrightarrow>
    sender_step w (LCall tid m) (w\<lparr>senders := fmupd tid (SRegister m) (senders w)\<rparr>)"
| snd_register: "fmlookup (senders w) tid = Some (SRegister m) \<Longrightarrow> fmlookup (ackChans w) ch = None \<Longrightarrow>
    sender_step w LTau (w\<lparr>svc := registerAck (svc w) m ch,
                          ackChans := fmupd ch \<lparr>made_for = UUID (header m), buffered = [], chan_closed = False\<rparr> (ackChans w),
                          senders := fmupd tid (SWrite m ch) (senders w)\<rparr>)"
| snd_write: "fmlookup (senders w) tid = Some (SWrite m ch) \<Longrightarrow>
    sender_step w LTau (w\<lparr>svc := (svc w)\<lparr>connection := WriteMessage (connection (svc w)) m\<rparr>,
                          senders := fmupd tid (SWait m ch) (senders w)\<rparr>)"
| snd_acked: "fmlookup (senders w) tid = Some (SWait m ch) \<Longrightarrow> fmlookup (ackChans w) ch = Some c \<Longrightarrow>
    buffered c = e # es \<Longrightarrow>
    sender_step w LTau (w\<lparr>ackChans := fmupd ch (c\<lparr>buffered := es\<rparr>) (ackChans w),
                          senders := fmupd tid (SUnregister m e) (senders w)\<rparr>)"
| snd_closed: "fmlookup (senders w) tid = Some (SWait m ch) \<Longrightarrow> fmlookup (ackChans w) ch = Some c \<Longrightarrow>
    buffered c = [] \<Longrightarrow> chan_closed c \<Longrightarrow>
    sender_step w LTau (w\<lparr>senders := fmupd tid (SUnregister m None) (senders w)\<rparr>)"
| snd_ctx: "fmlookup (senders w) tid = Some (SWait m ch) \<Longrightarrow> svc_ctx_done (svc w) \<Longrightarrow>
    sender_step w LTau (w\<lparr>senders := fmupd tid (SUnregister m (Some ContextCanceled)) (senders w)\<rparr>)"
| snd_timeout: "fmlookup (senders w) tid = Some (SWait m ch) \<Longrightarrow>
    sender_step w (LTimeout tid) (w\<lparr>senders := fmupd tid (SUnregister m (Some (timeoutError m))) (senders w)\<rparr>)"
| snd_return: "fmlookup (senders w) tid = Some (SUnregister m r) \<Longrightarrow>
    sender_step w (LReturn tid m r)
      (w\<lparr>svc := unregisterAck (svc w) m, senders := fmdrop tid (senders w)\<rparr>)"

text \<open>
  The steps of the polling loops and of \<open>accept\<close>.  A send on, or a close of, a closed channel
  panics; a send on a full channel waits.  The message taken from the read queue is that of a poll which found the connection's
  context open when it looked (\<open>ReadMessage\<close>).
\<close>

inductive accept_step :: "'s svc_world \<Rightarrow> svc_label \<Rightarrow> 's svc_world \<Rightarrow> bool" where
  acc_read: "ReadMessage False (connection (svc w)) = Some (Some m, b') \<Longrightarrow>
    accept_step w (LAccept m)
      (w\<lparr>svc := (svc w)\<lparr>connection := b'\<rparr>, acceptors := acceptors w @ [AStart m]\<rparr>)"
| acc_unknown: "acceptors w = xs @ AStart m # ys \<Longrightarrow> is_ack m \<Longrightarrow>
    fmlookup (waitingAcks (svc w)) (UUID (header m)) = None \<Longrightarrow>
    accept_step w LTau (w\<lparr>acceptors := xs @ ys\<rparr>)"
| acc_found: "acceptors w = xs @ AStart m # ys \<Longrightarrow> is_ack m \<Longrightarrow>
    fmlookup (waitingAcks (svc w)) (UUID (header m)) = Some ch \<Longrightarrow>
    accept_step w LTau (w\<lparr>acceptors := xs @ ASend ch (ackError m) # ys\<rparr>)"
| acc_send: "acceptors w = xs @ ASend ch e # ys \<Longrightarrow> fmlookup (ackChans w) ch = Some c \<Longrightarrow>
    \<not> chan_closed c \<Longrightarrow> buffered c = [] \<Longrightarrow>
    accept_step w LTau (w\<lparr>ackChans := fmupd ch (c\<lparr>buffered := [e]\<rparr>) (ackChans w),
                          acceptors := xs @ AClose ch # ys\<rparr>)"
| acc_send_panic: "acceptors w = xs @ ASend ch e # ys \<Longrightarrow> fmlookup (ackChans w) ch = Some c \<Longrightarrow>
    chan_closed c \<Longrightarrow> accept_step w LTau (w\<lparr>panicked := True\<rparr>)"
| acc_close: "acceptors w = xs @ AClose ch # ys \<Longrightarrow> fmlookup (ackChans w) ch = Some c \<Longrightarrow>
    \<not> chan_closed c \<Longrightarrow>
    accept_step w LTau (w\<lparr>ackChans := fmupd ch (c\<lparr>chan_closed := True\<rparr>) (ackChans w),
                          acceptors := xs @ ys\<rparr>)"
| acc_close_panic: "acceptors w = xs @ AClose ch # ys \<Longrightarrow> fmlookup (ackChans w) ch = Some c \<Longrightarrow>
    chan_closed c \<Longrightarrow> accept_step w LTau (w\<lparr>panicked := True\<rparr>)"
| acc_handle: "acceptors w = xs @ AStart m # ys \<Longrightarrow> \<not> is_ack m \<Longrightarrow>
    handler (svc w) (NewServiceMessage m (service_ackFunc m)) (hstate w, connection (svc w)) = Some (hs', b') \<Longrightarrow>
    accept_step w (LHandled m) (w\<lparr>svc := (svc w)\<lparr>connection := b'\<rparr>, hstate := hs', acceptors := xs @ ys\<rparr>)"
| acc_handle_panic: "acceptors w = xs @ AStart m # ys \<Longrightarrow> \<not> is_ack m \<Longrightarrow>
    handler (svc w) (NewServiceMessage m (service_ackFunc m)) (hstate w, connection (svc w)) = None \<Longrightarrow>
    accept_step w LHandlerPanic (w\<lparr>panicked := True\<rparr>)"
| acc_error_recv: "pollingErrors w \<Longrightarrow> Errors_recv (connection (svc w)) = Some (e, b') \<Longrightarrow>
    accept_step w LTau (w\<lparr>svc := (svc w)\<lparr>connection := b'\<rparr>, acceptors := acceptors w @ [AError e]\<rparr>)"
| acc_errors_closed: "pollingErrors w \<Longrightarrow> unrecoverableErrors (connection (svc w)) = [] \<Longrightarrow> errors_closed (connection (svc w)) \<Longrightarrow>
    accept_step w LTau (w\<lparr>pollingErrors := False\<rparr>)"
| acc_errors_ctx: "pollingErrors w \<Longrightarrow> svc_ctx_done (svc w) \<Longrightarrow> accept_step w LTau (w\<lparr>pollingErrors := False\<rparr>)"
| acc_error: "acceptors w = xs @ AError e # ys \<Longrightarrow>
    accept_step w LTau (w\<lparr>hstate := errorHandler (svc w) e (hstate w), acceptors := xs @ ys\<rparr>)"

text \<open>
  The outside: the connection receives messages, reports errors, is cleaned up; handlers are
  replaced, the contexts of the service and of the connection are cancelled.  What the connection takes
  out of the write queue is left in it here, so that the queue is the history of what was submitted.
\<close>

inductive outer_step :: "'s svc_world \<Rightarrow> svc_label \<Rightarrow> 's svc_world \<Rightarrow> bool" where
  out_arrive: "outer_step w (LArrive m)
    (w\<lparr>svc := (svc w)\<lparr>connection := (connection (svc w))\<lparr>readQueue := queue_append (readQueue (connection (svc w))) m\<rparr>\<rparr>\<rparr>)"
| out_handler: "outer_step w LSetHandler (w\<lparr>svc := service_MessageHandler (svc w) h\<rparr>)"
| out_errorHandler: "outer_step w LTau (w\<lparr>svc := service_ErrorHandler (svc w) eh\<rparr>)"
| out_cancel: "outer_step w LTau (w\<lparr>svc := (svc w)\<lparr>svc_ctx_done := True\<rparr>\<rparr>)"
| out_conn_cancel: "outer_step w LTau (w\<lparr>svc := (svc w)\<lparr>connection := (connection (svc w))\<lparr>ctx_done := True\<rparr>\<rparr>\<rparr>)"
| out_error: "Errors_send e (connection (svc w)) = Some b' \<Longrightarrow> outer_step w LTau (w\<lparr>svc := (svc w)\<lparr>connection := b'\<rparr>\<rparr>)"
| out_cleanup: "outer_step w LTau (w\<lparr>svc := (svc w)\<lparr>connection := cleanup (connection (svc w))\<rparr>\<rparr>)"

inductive svc_step :: "'s svc_world \<Rightarrow> svc_label \<Rightarrow> 's svc_world \<Rightarrow> bool" where
  st_sender: "\<not> panicked w \<Longrightarrow> sender_step w l w' \<Longrightarrow> svc_step w l w'"
| st_accept: "\<not> panicked w \<Longrightarrow> accept_step w l w' \<Longrightarrow> svc_step w l w'"
| st_outer: "\<not> panicked w \<Longrightarrow> outer_step w l w' \<Longrightarrow> svc_step w l w'"

inductive svc_run :: "'s svc_world \<Rightarrow> svc_label list \<Rightarrow> 's svc_world \<Rightarrow> bool" where
  svc_nil: "svc_run w [] w"
| svc_snoc: "svc_run w ls w' \<Longrightarrow> svc_step w' l w'' \<Longrightarrow> svc_run w (ls @ [l]) w''"

inductive_cases sender_stepE: "sender_step w l w'"
inductive_cases accept_stepE: "accept_step w l w'"
inductive_cases outer_stepE: "outer_step w l w'"
inductive_cases svc_stepE: "svc_step w l w'"

lemmas svc_elims = svc_stepE sender_stepE accept_stepE outer_stepE

lemmas svc_op_defs = registerAck_def unregisterAck_def service_MessageHandler_def service_ErrorHandler_def

section \<open>Where results come from\<close>

text \<open>The acknowledgements accepted in a run, as identifiers with the error they carry.\<close>

fun accepted_acks :: "svc_label list \<Rightarrow> (bytes \<times> go_error option) list" where
  "accepted_acks [] = []"
| "accepted_acks (LAccept m # ls) = (if is_ack m then [(UUID (header m), ackError m)] else []) @ accepted_acks ls"
| "accepted_acks (_ # ls) = accepted_acks ls"

lemma accepted_acks_append [simp]: "accepted_acks (ls @ [l]) = accepted_acks ls @ accepted_acks [l]"
  by (induction ls rule: accepted_acks.induct) auto

text \<open>What a call may return: the error of an accepted ack of its message, or an error of its own.\<close>

definition result_ok :: "(bytes \<times> go_error option) set \<Rightarrow> Message \<Rightarrow> go_error option \<Rightarrow> bool" where
  "result_ok A m r \<longleftrightarrow> (UUID (header m), r) \<in> A \<or> r = Some ContextCanceled \<or> r = Some (timeoutError m)"

definition chan_at :: "'s svc_world \<Rightarrow> nat \<Rightarrow> bytes \<Rightarrow> bool" where
  "chan_at w ch u \<longleftrightarrow> (\<exists>c. fmlookup (ackChans w) ch = Some c \<and> made_for c = u)"

definition waiting_ok :: "'s svc_world \<Rightarrow> bool" where
  "waiting_ok w \<longleftrightarrow> (\<forall>u ch. fmlookup (waitingAcks (svc w)) u = Some ch \<longrightarrow> chan_at w ch u)"

fun sender_chan :: "sender_pc \<Rightarrow> nat option" where
  "sender_chan (SWrite m ch) = Some ch"
| "sender_chan (SWait m ch) = Some ch"
| "sender_chan _ = None"

fun sender_ok :: "(bytes \<times> go_error option) set \<Rightarrow> 's svc_world \<Rightarrow> sender_pc \<Rightarrow> bool" where
  "sender_ok A w (SRegister m) = True"
| "sender_ok A w (SWrite m ch) = chan_at w ch (UUID (header m))"
| "sender_ok A w (SWait m ch) = chan_at w ch (UUID (header m))"
| "sender_ok A w (SUnregister m r) = result_ok A m r"

definition senders_ok :: "(bytes \<times> go_error option) set \<Rightarrow> 's svc_world \<Rightarrow> bool" where
  "senders_ok A w \<longleftrightarrow> (\<forall>tid pc. fmlookup (senders w) tid = Some pc \<longrightarrow> sender_ok A w pc)"

fun acceptor_ok :: "(bytes \<times> go_error option) set \<Rightarrow> 's svc_world \<Rightarrow> accept_pc \<Rightarrow> bool" where
  "acceptor_ok A w (AStart m) = (is_ack m \<longrightarrow> (UUID (header m), ackError m) \<in> A)"
| "acceptor_ok A w (ASend ch e) = (\<exists>u. chan_at w ch u \<and> (u, e) \<in> A)"
| "acceptor_ok A w (AClose ch) = (\<exists>u. chan_at w ch u)"
| "acceptor_ok A w (AError e) = True"

definition chans_ok :: "(bytes \<times> go_error option) set \<Rightarrow> 's svc_world \<Rightarrow> bool" where
  "chans_ok A w \<longleftrightarrow>
     (\<forall>ch c. fmlookup (ackChans w) ch = Some c \<longrightarrow> (\<forall>e \<in> set (buffered c). (made_for c, e) \<in> A))"

text \<open>
  A channel has one receiver, and while that one waits, a channel that is closed or about to be
  holds the value sent before.
\<close>

definition holds :: "'s svc_world \<Rightarrow> nat \<Rightarrow> nat \<Rightarrow> bool" where
  "holds w tid ch \<longleftrightarrow> (\<exists>pc. fmlookup (senders w) tid = Some pc \<and> sender_chan pc = Some ch)"

definition exclusive :: "'s svc_world \<Rightarrow> bool" where
  "exclusive w \<longleftrightarrow> (\<forall>tid tid' ch. holds w tid ch \<longrightarrow> holds w tid' ch \<longrightarrow> tid = tid')"

definition sent_before_closed :: "'s svc_world \<Rightarrow> bool" where
  "sent_before_closed w \<longleftrightarrow> (\<forall>tid ch c. holds w tid ch \<longrightarrow> fmlookup (ackChans w) ch = Some c \<longrightarrow>
     chan_closed c \<or> AClose ch \<in> set (acceptors w) \<longrightarrow> buffered c \<noteq> [])"

definition ack_inv :: "(bytes \<times> go_error option) set \<Rightarrow> 's svc_world \<Rightarrow> bool" where
  "ack_inv A w \<longleftrightarrow> waiting_ok w \<and> senders_ok A w \<and> (\<forall>pc \<in> set (acceptors w). acceptor_ok A w pc) \<and> chans_ok A w \<and>
     exclusive w \<and> sent_before_closed w"

lemma chan_at_stable:
  assumes "svc_step w l w'" and "chan_at w ch u"
  shows "chan_at w' ch u"
  using assms by (elim svc_elims) (auto simp: chan_at_def)

lemma waiting_origin:
  "svc_step w l w' \<Longrightarrow> fmlookup (waitingAcks (svc w')) u = Some ch \<Longrightarrow>
     fmlookup (waitingAcks (svc w)) u = Some ch \<or> chan_at w' ch u"
  by (elim svc_elims) (auto simp: chan_at_def svc_op_defs split: if_splits)

lemma waiting_ok_step: "svc_step w l w' \<Longrightarrow> waiting_ok w \<Longrightarrow> waiting_ok w'"
  unfolding waiting_ok_def using waiting_origin chan_at_stable by blast

lemma acceptor_ok_mono:
  assumes "svc_step w l w'" and "acceptor_ok A w pc" and "A \<subseteq> B"
  shows "acceptor_ok B w' pc"
  using assms(2,3) chan_at_stable [OF assms(1)] by (cases pc) auto

lemma sender_ok_mono:
  assumes "svc_step w l w'" and "sender_ok A w pc" and "A \<subseteq> B"
  shows "sender_ok B w' pc"
  using assms(2,3) chan_at_stable [OF assms(1)] by (cases pc) (auto simp: result_ok_def)

lemma ack_inv_senderD: "ack_inv A w \<Longrightarrow> fmlookup (senders w) tid = Some pc \<Longrightarrow> sender_ok A w pc"
  unfolding ack_inv_def senders_ok_def by blast

lemma ack_inv_chanD:
  "ack_inv A w \<Longrightarrow> fmlookup (ackChans w) ch = Some c \<Longrightarrow> e \<in> set (buffered c) \<Longrightarrow> (made_for c, e) \<in> A"
  unfolding ack_inv_def chans_ok_def by blast

lemma ack_inv_acceptorD: "ack_inv A w \<Longrightarrow> pc \<in> set (acceptors w) \<Longrightarrow> acceptor_ok A w pc"
  unfolding ack_inv_def by blast

text \<open>A new program counter of a sender, and a new value in a channel, are justified by the old state.\<close>

lemma sender_origin:
  assumes "svc_step w l w'" and "ack_inv A w" and "fmlookup (senders w') tid = Some pc"
  shows "fmlookup (senders w) tid = Some pc \<or> sender_ok A w' pc"
proof -
  have closed: False
    if "fmlookup (senders w) t = Some (SWait m ch)" "fmlookup (ackChans w) ch = Some c" "buffered c = []"
      "chan_closed c" for t m ch c
    using assms(2) that unfolding ack_inv_def sent_before_closed_def holds_def
    by (metis sender_chan.simps(2))
  have acked: "result_ok A m e"
    if "fmlookup (senders w) t = Some (SWait m ch)" "fmlookup (ackChans w) ch = Some c" "buffered c = e # es"
    for t m ch c e es
  proof -
    have "made_for c = UUID (header m)"
      using ack_inv_senderD [OF assms(2) that(1)] that(2) by (simp add: chan_at_def)
    with ack_inv_chanD [OF assms(2) that(2), of e] that(3) show ?thesis by (simp add: result_ok_def)
  qed
  have wait: "chan_at w ch (UUID (header m))"
    if "fmlookup (senders w) t = Some (SWrite m ch)" for t m ch
    using ack_inv_senderD [OF assms(2) that] by simp
  from assms(1,3) show ?thesis
    by (elim svc_elims) (auto simp: chan_at_def result_ok_def split: if_splits dest: closed acked [unfolded result_ok_def] wait [unfolded chan_at_def])
qed

lemma acceptor_origin:
  assumes "svc_step w l w'" and "ack_inv A w" and "pc \<in> set (acceptors w')"
  shows "pc \<in> set (acceptors w) \<or> acceptor_ok (A \<union> set (accepted_acks [l])) w' pc"
proof -
  have found: "chan_at w ch (UUID (header m)) \<and> (UUID (header m), ackError m) \<in> A"
    if "AStart m \<in> set (acceptors w)" "is_ack m" "fmlookup (waitingAcks (svc w)) (UUID (header m)) = Some ch" for m ch
    using assms(2) that by (auto simp: ack_inv_def waiting_ok_def)
  from assms(1,3) show ?thesis
    by (elim svc_elims) (auto simp: chan_at_def dest!: found [unfolded chan_at_def, rotated 2])
qed

lemma chan_origin:
  assumes "svc_step w l w'" and "ack_inv A w" and "fmlookup (ackChans w') ch = Some c'" and "e \<in> set (buffered c')"
  shows "(made_for c', e) \<in> A"
proof -
  note old = ack_inv_chanD [OF assms(2)]
  have rest: "(made_for c, e) \<in> A"
    if "fmlookup (ackChans w) ch = Some c" "buffered c = e' # es" "e \<in> set es" for c e' es
    using old [OF that(1), of e] that by simp
  have new: "(made_for c, e) \<in> A"
    if "acceptors w = xs @ ASend ch e # ys" "fmlookup (ackChans w) ch = Some c" for c xs ys
    using ack_inv_acceptorD [OF assms(2), of "ASend ch e"] that by (auto simp: chan_at_def)
  from assms(1,3,4) show ?thesis
    by (elim svc_elims) (auto split: if_splits intro: old rest new)
qed

lemma holds_chan: "ack_inv A w \<Longrightarrow> holds w tid ch \<Longrightarrow> fmlookup (ackChans w) ch \<noteq> None"
  unfolding holds_def using ack_inv_senderD [of A w tid]
  by (auto simp: chan_at_def elim!: sender_chan.elims)

lemma holds_origin:
  assumes "svc_step w l w'" and "holds w' tid ch"
  shows "holds w tid ch \<or>
    fmlookup (ackChans w) ch = None \<and> (\<forall>tid'. holds w' tid' ch \<longrightarrow> tid' = tid \<or> holds w tid' ch)"
  using assms by (elim svc_elims) (auto simp: holds_def split: if_splits)

lemma exclusive_step:
  assumes "svc_step w l w'" and "ack_inv A w"
  shows "exclusive w'"
  unfolding exclusive_def
proof (intro allI impI)
  fix tid tid' ch
  assume h: "holds w' tid ch" "holds w' tid' ch"
  show "tid = tid'"
    using holds_origin [OF assms(1) h(1)] holds_origin [OF assms(1) h(2)] h holds_chan [OF assms(2)] assms(2)
    unfolding ack_inv_def exclusive_def by metis
qed

text \<open>
  A channel that its waiting receiver can find closed, or about to be closed, was so before, or it
  has just been filled; and only its receiver empties it.
\<close>

lemma closed_origin:
  assumes "svc_step w l w'" and "ack_inv A w" and "fmlookup (ackChans w') ch = Some c'"
    and "chan_closed c' \<or> AClose ch \<in> set (acceptors w')" and "buffered c' = []"
  shows "(\<exists>c. fmlookup (ackChans w) ch = Some c \<and> (chan_closed c \<or> AClose ch \<in> set (acceptors w)) \<and>
           (buffered c = [] \<or> (\<exists>tid m. fmlookup (senders w) tid = Some (SWait m ch) \<and> \<not> holds w' tid ch)))"
proof -
  have cl: "AClose ch \<in> set (acceptors w) \<Longrightarrow> fmlookup (ackChans w) ch \<noteq> None"
    using ack_inv_acceptorD [OF assms(2), of "AClose ch"] by (auto simp: chan_at_def)
  from assms(1,3,4,5) show ?thesis
    by (elim svc_elims) (auto simp: holds_def split: if_splits dest: cl)
qed

lemma sent_before_closed_step:
  assumes "svc_step w l w'" and "ack_inv A w"
  shows "sent_before_closed w'"
  unfolding sent_before_closed_def
proof (intro allI impI notI)
  fix tid ch c'
  assume h: "holds w' tid ch" and c': "fmlookup (ackChans w') ch = Some c'"
    and "chan_closed c' \<or> AClose ch \<in> set (acceptors w')" "buffered c' = []"
  from closed_origin [OF assms c' this(3,4)] obtain c where c: "fmlookup (ackChans w) ch = Some c"
    "chan_closed c \<or> AClose ch \<in> set (acceptors w)"
    and e: "buffered c = [] \<or> (\<exists>tid m. fmlookup (senders w) tid = Some (SWait m ch) \<and> \<not> holds w' tid ch)"
    by blast
  have "holds w tid ch" using holds_origin [OF assms(1) h] c(1) by auto
  with assms(2) c have "buffered c \<noteq> []" unfolding ack_inv_def sent_before_closed_def by blast
  with e obtain t m where "fmlookup (senders w) t = Some (SWait m ch)" "\<not> holds w' t ch" by blast
  moreover from this(1) have "holds w t ch" by (simp add: holds_def)
  ultimately show False
    using \<open>holds w tid ch\<close> h assms(2) unfolding ack_inv_def exclusive_def by metis
qed

lemma ack_inv_step:
  assumes "svc_step w l w'" and "ack_inv A w"
  shows "ack_inv (A \<union> set (accepted_acks [l])) w'" (is "ack_inv ?B w'")
proof -
  have "waiting_ok w'" using waiting_ok_step [OF assms(1)] assms(2) by (simp add: ack_inv_def)
  moreover have "senders_ok ?B w'"
    unfolding senders_ok_def
  proof (intro allI impI)
    fix tid pc assume "fmlookup (senders w') tid = Some pc"
    from sender_origin [OF assms this] show "sender_ok ?B w' pc"
    proof
      assume "fmlookup (senders w) tid = Some pc"
      from sender_ok_mono [OF assms(1) ack_inv_senderD [OF assms(2) this]] show ?thesis by simp
    qed (cases pc; auto simp: result_ok_def)
  qed
  moreover have "\<forall>pc \<in> set (acceptors w'). acceptor_ok ?B w' pc"
    using acceptor_origin [OF assms] acceptor_ok_mono [OF assms(1) ack_inv_acceptorD [OF assms(2)], of _ ?B] by blast
  moreover have "chans_ok ?B w'" using chan_origin [OF assms] by (auto simp: chans_ok_def)
  ultimately show ?thesis
    using exclusive_step [OF assms] sent_before_closed_step [OF assms] by (simp add: ack_inv_def)
qed

lemma ack_inv_start: "ack_inv {} (start_service conn hs)"
  by (simp add: ack_inv_def start_service_def NewService_def waiting_ok_def senders_ok_def chans_ok_def
      exclusive_def sent_before_closed_def holds_def)

lemma ack_inv_run: "svc_run w0 ls w \<Longrightarrow> w0 = start_service conn hs \<Longrightarrow> ack_inv (set (accepted_acks ls)) w"
proof (induction rule: svc_run.induct)
  case (svc_nil w)
  then show ?case by (simp add: ack_inv_start)
next
  case (svc_snoc w ls w' l w'')
  from ack_inv_step [OF svc_snoc.hyps(2) svc_snoc.IH [OF svc_snoc.prems]] show ?case
    by (simp add: Un_commute del: accepted_acks.simps)
qed

lemma return_result:
  assumes "svc_run w0 ls w" and "w0 = start_service conn hs" and "LReturn tid m r \<in> set ls"
  shows "result_ok (set (accepted_acks ls)) m r"
  using assms
proof (induction rule: svc_run.induct)
  case (svc_snoc w ls w' l w'')
  have mono: "result_ok (set (accepted_acks ls)) m r \<Longrightarrow> result_ok (set (accepted_acks (ls @ [l]))) m r"
    by (auto simp: result_ok_def simp del: accepted_acks.simps)
  show ?case
  proof (cases "LReturn tid m r \<in> set ls")
    case True
    with svc_snoc mono show ?thesis by blast
  next
    case False
    with svc_snoc.prems have "l = LReturn tid m r" by simp
    with svc_snoc.hyps(2) have "fmlookup (senders w') tid = Some (SUnregister m r)" by (auto elim!: svc_elims)
    with ack_inv_senderD [OF ack_inv_run [OF svc_snoc.hyps(1) svc_snoc.prems(1)]] have
      "result_ok (set (accepted_acks ls)) m r" by fastforce
    with mono show ?thesis by blast
  qed
qed simp

fun sender_msg :: "sender_pc \<Rightarrow> Message" where
  "sender_msg (SRegister m) = m"
| "sender_msg (SWrite m ch) = m"
| "sender_msg (SWait m ch) = m"
| "sender_msg (SUnregister m r) = m"

subsection \<open>No entry is left behind\<close>

text \<open>A call that has registered the channel \<open>ch\<close> under \<open>u\<close> and has not returned; in the deferred function it has no more use for the channel.\<close>

fun owns :: "sender_pc \<Rightarrow> bytes \<Rightarrow> nat \<Rightarrow> bool" where
  "owns (SRegister m) u ch \<longleftrightarrow> False"
| "owns (SWrite m c) u ch \<longleftrightarrow> UUID (header m) = u \<and> c = ch"
| "owns (SWait m c) u ch \<longleftrightarrow> UUID (header m) = u \<and> c = ch"
| "owns (SUnregister m r) u ch \<longleftrightarrow> UUID (header m) = u"

definition owned :: "'s svc_world \<Rightarrow> bytes \<Rightarrow> nat \<Rightarrow> bool" where
  "owned w u ch \<longleftrightarrow> (\<exists>tid pc. fmlookup (senders w) tid = Some pc \<and> owns pc u ch)"

lemma owned_registered: "senders w = fmupd tid (SWrite m ch) S \<Longrightarrow> owned w (UUID (header m)) ch"
  by (auto simp: owned_def intro!: exI [of _ tid])

lemma owns_kept:
  assumes "svc_step w l w'" and "fmlookup (senders w) tid = Some pc" and "owns pc u ch" and "fmlookup (waitingAcks (svc w')) u = Some ch"
  shows "\<exists>pc'. fmlookup (senders w') tid = Some pc' \<and> owns pc' u ch"
  using assms by (elim svc_elims) (auto simp: svc_op_defs split: if_splits)

lemma entry_origin:
  assumes "svc_step w l w'" and "fmlookup (waitingAcks (svc w')) u = Some ch"
  shows "fmlookup (waitingAcks (svc w)) u = Some ch \<or> owned w' u ch"
  using assms by (elim svc_elims) (auto simp: svc_op_defs split: if_splits intro: owned_registered)

lemma entries_owned:
  "svc_run w0 ls w \<Longrightarrow> w0 = start_service conn hs \<Longrightarrow> fmlookup (waitingAcks (svc w)) u = Some ch \<Longrightarrow> owned w u ch"
proof (induction rule: svc_run.induct)
  case (svc_nil w)
  then show ?case by (simp add: start_service_def NewService_def)
next
  case (svc_snoc w ls w' l w'')
  then show ?case
    using entry_origin [OF svc_snoc.hyps(2) svc_snoc.prems(2)] owns_kept [OF svc_snoc.hyps(2)] unfolding owned_def by blast
qed

subsection \<open>No panic\<close>

text \<open>
  The identifier of the acknowledgement a goroutine of \<open>accept\<close> works on.  When no two accepted
  acks have the same identifier, these are pairwise different, and different from those of the
  channels closed already.
\<close>

definition chan_uuid :: "(nat, ackChan) fmap \<Rightarrow> nat \<Rightarrow> bytes" where
  "chan_uuid m ch = (case fmlookup m ch of None \<Rightarrow> [] | Some c \<Rightarrow> made_for c)"

fun token :: "(nat, ackChan) fmap \<Rightarrow> accept_pc \<Rightarrow> bytes list" where
  "token f (AStart m) = (if is_ack m then [UUID (header m)] else [])"
| "token f (ASend ch e) = [chan_uuid f ch]"
| "token f (AClose ch) = [chan_uuid f ch]"
| "token f (AError e) = []"

definition tokens :: "(nat, ackChan) fmap \<Rightarrow> accept_pc list \<Rightarrow> bytes list" where
  "tokens f pcs = concat (map (token f) pcs)"

definition closes :: "ackChan option \<Rightarrow> bytes \<Rightarrow> bool" where
  "closes oc u = (case oc of None \<Rightarrow> False | Some c \<Rightarrow> chan_closed c \<and> made_for c = u)"

definition closed_uuids :: "(nat, ackChan) fmap \<Rightarrow> bytes set" where
  "closed_uuids m = {u. \<exists>ch. closes (fmlookup m ch) u}"

definition token_inv :: "bytes set \<Rightarrow> 's svc_world \<Rightarrow> bool" where
  "token_inv U w \<longleftrightarrow> (let ts = tokens (ackChans w) (acceptors w); cl = closed_uuids (ackChans w)
     in distinct ts \<and> set ts \<subseteq> U \<and> cl \<subseteq> U \<and> set ts \<inter> cl = {})"

lemma tokens_append [simp]:
  "tokens f (xs @ ys) = tokens f xs @ tokens f ys" "tokens f (pc # ys) = token f pc @ tokens f ys" "tokens f [] = []"
  by (simp_all add: tokens_def)

lemma chan_uuid_same:
  "fmlookup m ch = Some c \<Longrightarrow> made_for c' = made_for c \<Longrightarrow> chan_uuid (fmupd ch c' m) = chan_uuid m"
  by (auto simp: fun_eq_iff chan_uuid_def)

lemma tokens_cong: "chan_uuid f = chan_uuid g \<Longrightarrow> tokens f pcs = tokens g pcs"
proof -
  assume eq: "chan_uuid f = chan_uuid g"
  have "token f pc = token g pc" for pc by (cases pc) (simp_all add: eq)
  then have "token f = token g" by (rule ext)
  then show ?thesis by (simp add: tokens_def)
qed

lemma closed_uuids_same:
  assumes "fmlookup m ch = Some c" and "made_for c' = made_for c" and "chan_closed c' = chan_closed c"
  shows "closed_uuids (fmupd ch c' m) = closed_uuids m"
proof -
  have "closes (fmlookup (fmupd ch c' m) x) u = closes (fmlookup m x) u" for x u
    using assms by (auto simp: closes_def)
  then show ?thesis by (simp add: closed_uuids_def)
qed

lemma closed_uuids_close:
  assumes "fmlookup m ch = Some c"
  shows "closed_uuids (fmupd ch (c\<lparr>chan_closed := True\<rparr>) m) = insert (made_for c) (closed_uuids m)"
proof -
  have "closes (fmlookup (fmupd ch (c\<lparr>chan_closed := True\<rparr>) m) x) u \<longleftrightarrow>
      closes (fmlookup m x) u \<or> x = ch \<and> u = made_for c" for x u
    using assms by (auto simp: closes_def)
  then show ?thesis by (auto simp: closed_uuids_def)
qed

lemma closed_uuids_new:
  assumes "fmlookup m ch = None" and "\<not> chan_closed c"
  shows "closed_uuids (fmupd ch c m) = closed_uuids m"
proof -
  have "closes (fmlookup (fmupd ch c m) x) u = closes (fmlookup m x) u" for x u
    using assms by (auto simp: closes_def)
  then show ?thesis by (simp add: closed_uuids_def)
qed

lemma tokens_new:
  assumes "ack_inv A w" and "fmlookup (ackChans w) ch = None" and "set pcs \<subseteq> set (acceptors w)"
  shows "tokens (fmupd ch c (ackChans w)) pcs = tokens (ackChans w) pcs"
proof -
  have "token (fmupd ch c (ackChans w)) pc = token (ackChans w) pc" if "pc \<in> set pcs" for pc
    using ack_inv_acceptorD [OF assms(1), of pc] that assms(2,3)
    by (cases pc) (fastforce simp: chan_at_def chan_uuid_def)+
  then show ?thesis by (simp add: tokens_def cong: map_cong)
qed

lemma sender_step_tokens:
  assumes "sender_step w l w'" and "ack_inv A w"
  shows "tokens (ackChans w') (acceptors w') = tokens (ackChans w) (acceptors w) \<and>
    closed_uuids (ackChans w') = closed_uuids (ackChans w) \<and> accepted_acks [l] = []"
  using assms(1)
proof cases
  case (snd_acked tid m ch c e es)
  then show ?thesis
    using closed_uuids_same [of "ackChans w" ch c "c\<lparr>buffered := es\<rparr>"]
      tokens_cong [OF chan_uuid_same [of "ackChans w" ch c "c\<lparr>buffered := es\<rparr>"]] by simp
qed (simp_all add: closed_uuids_new tokens_new [OF assms(2)])

lemma accept_step_tokens:
  assumes "accept_step w l w'" and "ack_inv A w"
  shows "(tokens (ackChans w') (acceptors w') = tokens (ackChans w) (acceptors w) @ map fst (accepted_acks [l]) \<and>
      closed_uuids (ackChans w') = closed_uuids (ackChans w)) \<or>
    (\<exists>xs u ys. tokens (ackChans w) (acceptors w) = xs @ u # ys \<and> tokens (ackChans w') (acceptors w') = xs @ ys \<and>
      closed_uuids (ackChans w') \<subseteq> insert u (closed_uuids (ackChans w)) \<and> accepted_acks [l] = [])"
  using assms(1)
proof cases
  case (acc_found xs m ys ch)
  then have "chan_at w ch (UUID (header m))" using assms(2) by (auto simp: ack_inv_def waiting_ok_def)
  then have "chan_uuid (ackChans w) ch = UUID (header m)" by (auto simp: chan_at_def chan_uuid_def)
  with acc_found show ?thesis by simp
next
  case (acc_send xs ch e ys c)
  then show ?thesis
    using closed_uuids_same [of "ackChans w" ch c "c\<lparr>buffered := [e]\<rparr>"]
      chan_uuid_same [of "ackChans w" ch c "c\<lparr>buffered := [e]\<rparr>"]
      tokens_cong [OF chan_uuid_same [of "ackChans w" ch c "c\<lparr>buffered := [e]\<rparr>"]] by simp
next
  case (acc_close xs ch ys c)
  have "chan_uuid (ackChans w) ch = made_for c" using acc_close by (simp add: chan_uuid_def)
  moreover have "tokens (ackChans w') pcs = tokens (ackChans w) pcs" for pcs
    using acc_close tokens_cong [OF chan_uuid_same [of "ackChans w" ch c "c\<lparr>chan_closed := True\<rparr>"]] by simp
  moreover have "closed_uuids (ackChans w') = insert (made_for c) (closed_uuids (ackChans w))"
    using acc_close closed_uuids_close [of "ackChans w" ch c] by simp
  ultimately show ?thesis
    using acc_close by (intro disjI2 exI [of _ "tokens (ackChans w) xs"] exI [of _ "made_for c"]
        exI [of _ "tokens (ackChans w) ys"]) simp
next
  case (acc_unknown xs m ys)
  then show ?thesis
    by (intro disjI2 exI [of _ "tokens (ackChans w) xs"] exI [of _ "UUID (header m)"]
        exI [of _ "tokens (ackChans w) ys"]) auto
qed simp_all

lemma token_inv_step:
  assumes "svc_step w l w'" and "ack_inv A w" and "token_inv (set us) w"
    and "distinct (us @ map fst (accepted_acks [l]))"
  shows "token_inv (set (us @ map fst (accepted_acks [l]))) w'"
  using assms(1)
proof cases
  case st_sender
  with sender_step_tokens [OF this(2) assms(2)] assms(3) show ?thesis by (simp add: token_inv_def Let_def)
next
  case st_outer
  from st_outer(2) have "ackChans w' = ackChans w \<and> acceptors w' = acceptors w \<and> accepted_acks [l] = []"
    by cases simp_all
  with assms(3) show ?thesis by (simp add: token_inv_def del: accepted_acks.simps)
next
  case st_accept
  from accept_step_tokens [OF st_accept(2) assms(2)] show ?thesis
  proof
    assume "tokens (ackChans w') (acceptors w') = tokens (ackChans w) (acceptors w) @ map fst (accepted_acks [l]) \<and>
      closed_uuids (ackChans w') = closed_uuids (ackChans w)"
    with assms(3,4) show ?thesis by (auto simp: token_inv_def Let_def simp del: accepted_acks.simps)
  next
    assume "\<exists>xs u ys. tokens (ackChans w) (acceptors w) = xs @ u # ys \<and>
      tokens (ackChans w') (acceptors w') = xs @ ys \<and>
      closed_uuids (ackChans w') \<subseteq> insert u (closed_uuids (ackChans w)) \<and> accepted_acks [l] = []"
    then obtain xs u ys where t: "tokens (ackChans w) (acceptors w) = xs @ u # ys"
      "tokens (ackChans w') (acceptors w') = xs @ ys" "accepted_acks [l] = []"
      and cl: "closed_uuids (ackChans w') \<subseteq> insert u (closed_uuids (ackChans w))" by blast
    have "(set xs \<union> set ys) \<inter> insert u (closed_uuids (ackChans w)) = {}"
      "insert u (closed_uuids (ackChans w)) \<subseteq> set us"
      using assms(3) t by (auto simp: token_inv_def Let_def)
    with cl have "(set xs \<union> set ys) \<inter> closed_uuids (ackChans w') = {}" "closed_uuids (ackChans w') \<subseteq> set us" by blast+
    with assms(3) t show ?thesis by (simp add: token_inv_def Let_def)
  qed
qed

lemma token_inv_start: "token_inv {} (start_service conn hs)"
  by (simp add: token_inv_def start_service_def closed_uuids_def closes_def)

lemma token_inv_run:
  assumes "svc_run w0 ls w" and "w0 = start_service conn hs" and "distinct (map fst (accepted_acks ls))"
  shows "token_inv (set (map fst (accepted_acks ls))) w"
  using assms
proof (induction rule: svc_run.induct)
  case (svc_nil w)
  then show ?case by (simp add: token_inv_start)
next
  case (svc_snoc w ls w' l w'')
  have d: "distinct (map fst (accepted_acks ls))" using svc_snoc.prems(2) by (simp del: accepted_acks.simps)
  from token_inv_step [OF svc_snoc.hyps(2) ack_inv_run [OF svc_snoc.hyps(1) svc_snoc.prems(1)]
      svc_snoc.IH [OF svc_snoc.prems(1) d]] svc_snoc.prems(2)
  show ?case by (simp del: accepted_acks.simps)
qed

lemma tokens_not_closed:
  assumes "token_inv U w" and "pc \<in> set (acceptors w)" and "u \<in> set (token (ackChans w) pc)"
    and "fmlookup (ackChans w) ch = Some c" and "made_for c = u"
  shows "\<not> chan_closed c"
proof
  assume "chan_closed c"
  then have "closes (fmlookup (ackChans w) ch) u" using assms(4,5) by (simp add: closes_def)
  then have "u \<in> closed_uuids (ackChans w)" by (auto simp: closed_uuids_def)
  moreover have "u \<in> set (tokens (ackChans w) (acceptors w))" using assms(2,3) by (auto simp: tokens_def)
  ultimately show False using assms(1) by (auto simp: token_inv_def Let_def)
qed

lemma step_no_panic:
  assumes "svc_step w l w'" and "token_inv U w" and "l \<noteq> LHandlerPanic"
  shows "\<not> panicked w'"
  using assms(1)
proof cases
  case st_accept
  from st_accept(2) show ?thesis
  proof cases
    case (acc_send_panic xs ch e ys c)
    have "\<not> chan_closed c"
      by (rule tokens_not_closed [OF assms(2) _ _ acc_send_panic(4) refl, of "ASend ch e"])
         (use acc_send_panic in \<open>simp_all add: chan_uuid_def\<close>)
    with acc_send_panic show ?thesis by simp
  next
    case (acc_close_panic xs ch ys c)
    have "\<not> chan_closed c"
      by (rule tokens_not_closed [OF assms(2) _ _ acc_close_panic(4) refl, of "AClose ch"])
         (use acc_close_panic in \<open>simp_all add: chan_uuid_def\<close>)
    with acc_close_panic show ?thesis by simp
  qed (use st_accept(1) assms(3) in simp_all)
qed (auto elim!: sender_stepE outer_stepE)

lemma run_no_panic:
  assumes "svc_run w0 ls w" and "w0 = start_service conn hs" and "distinct (map fst (accepted_acks ls))"
    and "LHandlerPanic \<notin> set ls"
  shows "\<not> panicked w"
  using assms
proof (cases rule: svc_run.cases)
  case (svc_snoc ls' w' l)
  then have "distinct (map fst (accepted_acks ls'))" using assms(3) by (simp del: accepted_acks.simps)
  from step_no_panic [OF svc_snoc(3) token_inv_run [OF svc_snoc(2) assms(2) this]] assms(4) svc_snoc(1) show ?thesis by auto
qed (simp add: start_service_def)

lemma word_of_nat_32_eq_0: "n < 2 ^ 32 \<Longrightarrow> (word_of_nat n :: 32 word) = 0 \<longleftrightarrow> n = 0"
  by (auto simp: word_of_nat_eq_0_iff dest: dvd_imp_le)

lemma ackError_newAckMessage:
  assumes "\<forall>e. err = Some e \<longrightarrow> length (error_text e) < 2 ^ 32"
  shows "ackError (as_received (newAckMessage u err)) =
    (case err of None \<Rightarrow> None
     | Some e \<Rightarrow> if error_text e = '''' then None else Some (ErrorString (error_text e)))"
proof (cases err)
  case None
  then show ?thesis by (simp add: ackError_def newAckMessage_def NewMessage_def Length_def as_received_def)
next
  case (Some e)
  with assms have "length (error_text e) < 2 ^ 32" by simp
  note zero = word_of_nat_32_eq_0 [OF this]
  show ?thesis
    by (simp add: Some ackError_def newAckMessage_def NewMessage_def Length_def as_received_def Payload_def zero)
qed

subsection \<open>Example runs\<close>

lemma svc_run_snoc2: "svc_run w ls w' \<Longrightarrow> svc_step w' l w'' \<Longrightarrow> ls' = ls @ [l] \<Longrightarrow> svc_run w ls' w''"
  by (simp add: svc_snoc)

definition example_request :: Message where
  "example_request = NewMessage (replicate 16 7) 1 None []"

definition example_ack :: Message where
  "example_ack = newAckMessage (replicate 16 7) None"

lemma example_ack_simps [simp]:
  "is_ack example_ack" "UUID (header example_ack) = replicate 16 7" "UUID (header example_request) = replicate 16 7"
  "ackError example_ack = None"
  by (simp_all add: example_ack_def example_request_def newAckMessage_def NewMessage_def is_ack_def OpCode_def UUID_def
      ackError_def Length_def)

text \<open>One call, up to the point where it waits, with acks for it about to be accepted.\<close>

definition waiting_world :: "baseTcpConnection \<Rightarrow> unit svc_world" where
  "waiting_world conn =
     \<lparr>svc = (NewService conn)\<lparr>waitingAcks := fmupd (replicate 16 7) 0 fmempty\<rparr>, hstate = (),
      ackChans = fmupd 0 \<lparr>made_for = replicate 16 7, buffered = [], chan_closed = False\<rparr> fmempty,
      senders = fmupd 0 (SWait example_request 0) fmempty, acceptors = [], pollingErrors = True, panicked = False\<rparr>"

lemma example_call:
  "\<exists>conn. svc_run (start_service newBaseTcpConnection ()) [LCall 0 example_request, svc_label.LTau, svc_label.LTau] (waiting_world conn) \<and>
     \<not> ctx_done conn \<and> queue (readQueue conn) = [] \<and> queue (writeQueue conn) = [example_request]"
proof -
  let ?w0 = "start_service newBaseTcpConnection ()" and ?m = example_request
  let ?w1 = "?w0\<lparr>senders := fmupd 0 (SRegister ?m) (senders ?w0)\<rparr>"
  let ?w2 = "?w1\<lparr>svc := registerAck (svc ?w1) ?m 0,
       ackChans := fmupd 0 \<lparr>made_for = UUID (header ?m), buffered = [], chan_closed = False\<rparr> (ackChans ?w1),
       senders := fmupd 0 (SWrite ?m 0) (senders ?w1)\<rparr>"
  let ?w3 = "?w2\<lparr>svc := (svc ?w2)\<lparr>connection := WriteMessage (connection (svc ?w2)) ?m\<rparr>,
       senders := fmupd 0 (SWait ?m 0) (senders ?w2)\<rparr>"
  have "SendAndWaitForAck_start (replicate 16 7) 1 (None :: unit BinaryMarshaler option) = Inr ?m"
    by (simp add: SendAndWaitForAck_start_def sendBinary_start_def example_request_def AckOpCode_eq)
  then have 1: "svc_step ?w0 (LCall 0 ?m) ?w1"
    by (intro st_sender snd_call) (simp_all add: start_service_def)
  have 2: "svc_step ?w1 svc_label.LTau ?w2"
    by (intro st_sender snd_register) (simp_all add: start_service_def)
  have 3: "svc_step ?w2 svc_label.LTau ?w3"
    by (intro st_sender snd_write) (simp_all add: start_service_def)
  have "?w3 = waiting_world (WriteMessage newBaseTcpConnection ?m)"
    by (simp add: start_service_def waiting_world_def NewService_def registerAck_def fmap_ext)
  moreover have "svc_run ?w0 [LCall 0 ?m, svc_label.LTau, svc_label.LTau] ?w3"
    by (rule svc_run_snoc2 [OF svc_run_snoc2 [OF svc_run_snoc2 [OF svc_nil 1 refl] 2 refl] 3]) simp
  ultimately have "svc_run ?w0 [LCall 0 ?m, svc_label.LTau, svc_label.LTau] (waiting_world (WriteMessage newBaseTcpConnection ?m))"
    by simp
  then show ?thesis by (intro exI conjI) (assumption, simp_all add: WriteMessage_def queue_op_defs)
qed

lemma accept_run:
  assumes "\<not> panicked w" and "\<not> ctx_done (connection (svc w))" and "queue (readQueue (connection (svc w))) = []"
  shows "svc_run w [LArrive m, LAccept m] (w\<lparr>acceptors := acceptors w @ [AStart m]\<rparr>)"
proof -
  let ?c = "connection (svc w)"
  let ?c1 = "?c\<lparr>readQueue := queue_append (readQueue ?c) m\<rparr>"
  let ?w1 = "w\<lparr>svc := (svc w)\<lparr>connection := ?c1\<rparr>\<rparr>"
  have 1: "svc_step w (LArrive m) ?w1" by (intro st_outer out_arrive assms)
  have "readQueue ?c = \<lparr>queue = []\<rparr>" using assms(3) by (cases "readQueue ?c") simp
  then have "ReadMessage False ?c1 = Some (Some m, ?c)"
    using assms(2) by (cases ?c) (simp add: ReadMessage_Some queue_op_defs)
  then have 2: "svc_step ?w1 (LAccept m) (?w1\<lparr>svc := (svc ?w1)\<lparr>connection := ?c\<rparr>, acceptors := acceptors ?w1 @ [AStart m]\<rparr>)"
    using assms(1) by (intro st_accept acc_read) simp_all
  have "?w1\<lparr>svc := (svc ?w1)\<lparr>connection := ?c\<rparr>, acceptors := acceptors ?w1 @ [AStart m]\<rparr> =
      w\<lparr>acceptors := acceptors w @ [AStart m]\<rparr>"
    by simp
  with svc_run_snoc2 [OF svc_run_snoc2 [OF svc_nil 1 refl] 2] show ?thesis by simp
qed

lemma svc_run_append: "svc_run w' ls' w'' \<Longrightarrow> svc_run w ls w' \<Longrightarrow> svc_run w (ls @ ls') w''"
  by (induction rule: svc_run.induct) (auto simp flip: append_assoc intro: svc_run.intros)

text \<open>The ack is delivered: the call returns nil.\<close>

definition example_trace :: "svc_label list" where
  "example_trace = [LCall 0 example_request, LTau, LTau, LArrive example_ack, LAccept example_ack,
     LTau, LTau, LTau, LReturn 0 example_request None]"

lemma example_trace_run:
  "\<exists>w. svc_run (start_service newBaseTcpConnection ()) example_trace w \<and> senders w = fmempty \<and>
     queue (writeQueue (connection (svc w))) = [example_request]"
proof -
  let ?m = example_request and ?a = example_ack and ?u = "replicate 16 (7 :: byte)"
  obtain conn where call: "svc_run (start_service newBaseTcpConnection ()) [LCall 0 ?m, svc_label.LTau, svc_label.LTau] (waiting_world conn)"
    and conn: "\<not> ctx_done conn" "queue (readQueue conn) = []" "queue (writeQueue conn) = [example_request]"
    using example_call by blast
  let ?w = "waiting_world conn"
  let ?w2 = "?w\<lparr>acceptors := acceptors ?w @ [AStart ?a]\<rparr>" and ?w3 = "?w\<lparr>acceptors := [ASend 0 None]\<rparr>"
  let ?c = "\<lparr>made_for = ?u, buffered = [], chan_closed = False\<rparr>"
  let ?w4 = "?w3\<lparr>ackChans := fmupd 0 (?c\<lparr>buffered := [None]\<rparr>) (ackChans ?w3), acceptors := [AClose 0]\<rparr>"
  let ?w5 = "?w4\<lparr>ackChans := fmupd 0 (?c\<lparr>buffered := []\<rparr>) (ackChans ?w4), senders := fmupd 0 (SUnregister ?m None) (senders ?w4)\<rparr>"
  let ?w6 = "?w5\<lparr>svc := unregisterAck (svc ?w5) ?m, senders := fmdrop 0 (senders ?w5)\<rparr>"
  have 2: "svc_run ?w [LArrive ?a, LAccept ?a] ?w2"
    by (rule accept_run) (use conn in \<open>simp_all add: waiting_world_def NewService_def\<close>)
  have 3: "svc_step ?w2 svc_label.LTau ?w3"
    using acc_found [of ?w2 "[]" ?a "[]" 0] by (intro st_accept) (simp_all add: waiting_world_def)
  have 4: "svc_step ?w3 svc_label.LTau ?w4"
    using acc_send [of ?w3 "[]" 0 None "[]" ?c] by (intro st_accept) (simp_all add: waiting_world_def)
  have 5: "svc_step ?w4 svc_label.LTau ?w5"
    using snd_acked [of ?w4 0 ?m 0 "?c\<lparr>buffered := [None]\<rparr>" None "[]"] by (intro st_sender) (simp_all add: waiting_world_def)
  have 6: "svc_step ?w5 (LReturn 0 ?m None) ?w6"
    by (intro st_sender snd_return) (simp_all add: waiting_world_def)
  have "svc_run ?w2 [svc_label.LTau, svc_label.LTau, svc_label.LTau, LReturn 0 ?m None] ?w6"
    by (rule svc_run_snoc2 [OF svc_run_snoc2 [OF svc_run_snoc2 [OF svc_run_snoc2 [OF svc_nil 3 refl] 4 refl] 5 refl] 6]) simp
  from svc_run_append [OF svc_run_append [OF this 2] call]
  have "svc_run (start_service newBaseTcpConnection ()) example_trace ?w6" by (simp add: example_trace_def)
  then show ?thesis
    by (intro exI conjI) (assumption, simp_all add: waiting_world_def NewService_def svc_op_defs conn fmdrop_missing)
qed

lemma example_acked:
  "\<exists>ls w. svc_run (start_service newBaseTcpConnection ()) ls w \<and> LReturn 0 example_request None \<in> set ls \<and>
     senders w = fmempty \<and> distinct (map fst (accepted_acks ls)) \<and> LHandlerPanic \<notin> set ls"
  using example_trace_run by (intro exI [of _ example_trace]) (auto simp: example_trace_def)

section \<open>Properties\<close>

text \<open>
  C6. \<open>SendAndWaitForAck\<close> tells the truth: whatever the interleaving of senders, arriving messages,
  handlers and cancellations, a call returns nil only if an ack message with the identifier of its
  message and an empty payload was accepted; any error it returns is the text of such an ack, the
  context's error or its own timeout.
\<close>

theorem send_returns_what_was_acked:
  assumes "svc_run (start_service conn hs) ls w" and "LReturn tid m r \<in> set ls"
  shows "(UUID (header m), r) \<in> set (accepted_acks ls) \<or> r = Some ContextCanceled \<or> r = Some (timeoutError m)"
  using return_result [OF assms(1) refl assms(2)] by (simp add: result_ok_def)

theorem send_returns_what_was_acked_witness:
  "\<exists>ls w. svc_run (start_service newBaseTcpConnection ()) ls w \<and> LReturn 0 example_request None \<in> set ls \<and>
     (replicate 16 7, None) \<in> set (accepted_acks ls)"
proof -
  obtain ls w where "svc_run (start_service newBaseTcpConnection ()) ls w" "LReturn 0 example_request None \<in> set ls"
    using example_acked by blast
  with send_returns_what_was_acked [OF this] show ?thesis by auto
qed

text \<open>
  C25. No leak: every entry of \<open>waitingAcks\<close> is that of a call which has registered it, under the identifier of its message and, until it has its
  result, with its own channel, and which has not returned; a call that returns, by ack, timeout or cancellation, leaves no entry for
  its identifier; and when all calls have returned the map is empty.
\<close>

theorem waiting_acks_are_released:
  assumes "svc_run (start_service conn hs) ls w"
  shows "(\<forall>u ch. fmlookup (waitingAcks (svc w)) u = Some ch \<longrightarrow> (\<exists>tid pc. fmlookup (senders w) tid = Some pc \<and> owns pc u ch)) \<and>
    (\<forall>tid m r w'. svc_step w (LReturn tid m r) w' \<longrightarrow> fmlookup (waitingAcks (svc w')) (UUID (header m)) = None) \<and>
    (senders w = fmempty \<longrightarrow> waitingAcks (svc w) = fmempty)"
proof (intro conjI allI impI)
  show owner: "\<exists>tid pc. fmlookup (senders w) tid = Some pc \<and> owns pc u ch" if "fmlookup (waitingAcks (svc w)) u = Some ch" for u ch
    using entries_owned [OF assms refl that] by (simp add: owned_def)
  show "fmlookup (waitingAcks (svc w')) (UUID (header m)) = None" if "svc_step w (LReturn tid m r) w'" for tid m r w'
    using that by (elim svc_elims) (auto simp: unregisterAck_def)
  show "waitingAcks (svc w) = fmempty" if "senders w = fmempty"
    by (rule fmap_ext) (use owner that in \<open>fastforce intro: option.exhaust\<close>)
qed

theorem waiting_acks_are_released_witness:
  "(\<exists>w. svc_run (start_service newBaseTcpConnection ()) example_trace w \<and> waitingAcks (svc w) = fmempty) \<and>
   (\<exists>w ls. svc_run (start_service newBaseTcpConnection ()) ls w \<and> fmlookup (waitingAcks (svc w)) (replicate 16 7) = Some 0 \<and>
      (\<exists>tid pc. fmlookup (senders w) tid = Some pc \<and> owns pc (replicate 16 7) 0))"
proof (intro conjI)
  obtain w where "svc_run (start_service newBaseTcpConnection ()) example_trace w" "senders w = fmempty"
    using example_trace_run by blast
  with waiting_acks_are_released [OF this(1)]
  show "\<exists>w. svc_run (start_service newBaseTcpConnection ()) example_trace w \<and> waitingAcks (svc w) = fmempty" by blast
  obtain conn where call: "svc_run (start_service newBaseTcpConnection ()) [LCall 0 example_request, svc_label.LTau, svc_label.LTau] (waiting_world conn)"
    using example_call by blast
  have "fmlookup (waitingAcks (svc (waiting_world conn))) (replicate 16 7) = Some 0" by (simp add: waiting_world_def)
  with waiting_acks_are_released [OF call] call
  show "\<exists>w ls. svc_run (start_service newBaseTcpConnection ()) ls w \<and> fmlookup (waitingAcks (svc w)) (replicate 16 7) = Some 0 \<and>
      (\<exists>tid pc. fmlookup (senders w) tid = Some pc \<and> owns pc (replicate 16 7) 0)" by blast
qed

text \<open>
  C24. No panic: as long as no two accepted acks carry the same identifier and the handlers do not
  panic, no interleaving makes \<open>accept\<close> send on or close a closed channel.
\<close>

theorem single_acks_never_panic:
  assumes "svc_run (start_service conn hs) ls w" and "distinct (map fst (accepted_acks ls))"
    and "LHandlerPanic \<notin> set ls"
  shows "\<not> panicked w"
  using run_no_panic [OF assms(1) refl assms(2,3)] .

theorem single_acks_never_panic_witness:
  "\<exists>ls w. svc_run (start_service newBaseTcpConnection ()) ls w \<and> LReturn 0 example_request None \<in> set ls \<and> \<not> panicked w"
proof -
  obtain ls w where "svc_run (start_service newBaseTcpConnection ()) ls w" "LReturn 0 example_request None \<in> set ls"
    "distinct (map fst (accepted_acks ls))" "LHandlerPanic \<notin> set ls" using example_acked by blast
  with single_acks_never_panic [OF this(1,3,4)] show ?thesis by blast
qed

text \<open>
  C39. A repeated ack can crash the process: there is an interleaving of one call and two accepted
  acks of its message (the peer acked twice, or received the message twice because it was written
  again after a connection was lost) in which the second goroutine of \<open>accept\<close> sends on the channel
  that the first has closed.
\<close>

theorem duplicate_ack_can_panic:
  "\<exists>ls w. svc_run (start_service newBaseTcpConnection ()) ls w \<and> panicked w \<and>
     accepted_acks ls = [(replicate 16 7, None), (replicate 16 7, None)] \<and> LHandlerPanic \<notin> set ls"
proof -
  let ?m = example_request and ?a = example_ack and ?u = "replicate 16 (7 :: byte)"
  obtain conn where call: "svc_run (start_service newBaseTcpConnection ()) [LCall 0 ?m, svc_label.LTau, svc_label.LTau] (waiting_world conn)"
    and conn: "\<not> ctx_done conn" "queue (readQueue conn) = []" using example_call by blast
  let ?w = "waiting_world conn" and ?c = "\<lparr>made_for = ?u, buffered = [None], chan_closed = False\<rparr>"
  let ?w1 = "?w\<lparr>acceptors := acceptors ?w @ [AStart ?a]\<rparr>"
  let ?w2 = "?w1\<lparr>acceptors := acceptors ?w1 @ [AStart ?a]\<rparr>" and ?w3 = "?w\<lparr>acceptors := [ASend 0 None, AStart ?a]\<rparr>"
    and ?w4 = "?w\<lparr>acceptors := [ASend 0 None, ASend 0 None]\<rparr>"
  let ?w5 = "?w4\<lparr>ackChans := fmupd 0 ?c (ackChans ?w4), acceptors := [AClose 0, ASend 0 None]\<rparr>"
  let ?w6 = "?w5\<lparr>ackChans := fmupd 0 (?c\<lparr>chan_closed := True\<rparr>) (ackChans ?w5), acceptors := [ASend 0 None]\<rparr>"
  have 1: "svc_run ?w [LArrive ?a, LAccept ?a] ?w1" and 2: "svc_run ?w1 [LArrive ?a, LAccept ?a] ?w2"
    by (rule accept_run; use conn in \<open>simp add: waiting_world_def NewService_def\<close>)+
  have 3: "svc_step ?w2 svc_label.LTau ?w3"
    using acc_found [of ?w2 "[]" ?a "[AStart ?a]" 0] by (intro st_accept) (simp_all add: waiting_world_def)
  have 4: "svc_step ?w3 svc_label.LTau ?w4"
    using acc_found [of ?w3 "[ASend 0 None]" ?a "[]" 0] by (intro st_accept) (simp_all add: waiting_world_def)
  have 5: "svc_step ?w4 svc_label.LTau ?w5"
    using acc_send [of ?w4 "[]" 0 None "[ASend 0 None]" "?c\<lparr>buffered := []\<rparr>"] by (intro st_accept) (simp_all add: waiting_world_def)
  have 6: "svc_step ?w5 svc_label.LTau ?w6"
    using acc_close [of ?w5 "[]" 0 "[ASend 0 None]" ?c] by (intro st_accept) (simp_all add: waiting_world_def)
  have 7: "svc_step ?w6 svc_label.LTau (?w6\<lparr>panicked := True\<rparr>)"
    using acc_send_panic [of ?w6 "[]" 0 None "[]" "?c\<lparr>chan_closed := True\<rparr>"] by (intro st_accept) (simp_all add: waiting_world_def)
  have "svc_run ?w2 (replicate 5 svc_label.LTau) (?w6\<lparr>panicked := True\<rparr>)"
    by (rule svc_run_snoc2 [OF svc_run_snoc2 [OF svc_run_snoc2 [OF svc_run_snoc2 [OF svc_run_snoc2
          [OF svc_nil 3 refl] 4 refl] 5 refl] 6 refl] 7]) (simp add: numeral_eq_Suc)
  from svc_run_append [OF svc_run_append [OF svc_run_append [OF this 2] 1] call]
  show ?thesis by (intro exI conjI) (assumption, simp_all add: numeral_eq_Suc)
qed

text \<open>
  An error passes through an ack: the ack message a handler writes for an error, once received
  and accepted at the other end, is nil for success and an error with the same text otherwise;
  except that an error with an empty text arrives as success.
\<close>

lemma ack_carries_error_text:
  assumes "\<forall>e. err = Some e \<longrightarrow> length (error_text e) < 2 ^ 32"
  shows "ackError (as_received (newAckMessage u err)) =
    (case err of None \<Rightarrow> None
     | Some e \<Rightarrow> if error_text e = '''' then None else Some (ErrorString (error_text e)))"
  using ackError_newAckMessage [OF assms] .

end
