(* ===== verification/Connection_Pool.thy ===== *)
theory Connection_Pool
  imports Prelude "HOL-Library.List_Lexorder" "HOL-Library.Char_ord"
begin

text \<open>
  \<open>pkg/reconciler/connection_pool.go\<close> and \<open>connection_pool_option.go\<close>: the pool of connections that
  the control plane keeps, per resource key, to the hosts of its data plane.

  Every dialled connection runs under a context of its own; a holder keeps the number of that
  context, and the world records which contexts have not been cancelled, that is, which
  connections are still running.  What the dialled network does (\<open>network.StartControlClient\<close>, the
  TLS dialer factory) and what the callbacks of the reconciler do are arguments that act on the
  rest of the world.  The order in which Go iterates over a map is an argument too (\<open>iter\<close>), of
  which only \<open>enumerates\<close> is assumed.  The methods are modelled one call after the other; \<open>Pool_Concurrency\<close> interleaves them.
\<close>

section \<open>State\<close>

record 'svc clientServiceHolder =
  service :: 'svc
  cancelFn :: nat

record ('svc, 'd, 'w) controlPlaneConnectionPoolImpl =
  tlsDialerFactory :: "('d \<Rightarrow> 'w \<Rightarrow> (go_error + 'd) \<times> 'w) option"
  baseDialOptions :: 'd
  serviceWrapperFactories :: "('svc \<Rightarrow> 'svc) list"
  conns :: "(string, (string, 'svc clientServiceHolder) fmap) fmap"

record 'w pool_world =
  next_ctx :: nat
  live :: "nat fset"
  io :: 'w

type_synonym ('svc, 'd, 'w) pool_option =
  "('svc, 'd, 'w) controlPlaneConnectionPoolImpl \<Rightarrow> ('svc, 'd, 'w) controlPlaneConnectionPoolImpl"

definition WithServiceWrapper :: "('svc \<Rightarrow> 'svc) \<Rightarrow> ('svc, 'd, 'w) pool_option" where
  "WithServiceWrapper wrapper pool =
     pool\<lparr>serviceWrapperFactories := serviceWrapperFactories pool @ [wrapper]\<rparr>"

text \<open>\<open>netDialer\<close> builds a \<open>net.Dialer\<close> without a deadline from its keep-alive time, in nanoseconds.\<close>

definition keepAlive :: int where "keepAlive = 30 * 1000000000"

definition NewControlPlaneConnectionPool ::
  "('d \<Rightarrow> 'w \<Rightarrow> (go_error + 'd) \<times> 'w) option \<Rightarrow> (int \<Rightarrow> 'd) \<Rightarrow> ('svc, 'd, 'w) pool_option list \<Rightarrow>
     ('svc, 'd, 'w) controlPlaneConnectionPoolImpl" where
  "NewControlPlaneConnectionPool tls netDialer opts =
     fold (\<lambda>fn. fn) opts
       \<lparr>tlsDialerFactory = tls, baseDialOptions = netDialer keepAlive, serviceWrapperFactories = [], conns = fmempty\<rparr>"

definition NewInsecureControlPlaneConnectionPool ::
  "(int \<Rightarrow> 'd) \<Rightarrow> ('svc, 'd, 'w) pool_option list \<Rightarrow> ('svc, 'd, 'w) controlPlaneConnectionPoolImpl" where
  "NewInsecureControlPlaneConnectionPool netDialer opts = NewControlPlaneConnectionPool None netDialer opts"

text \<open>
  The contexts: \<open>context.WithCancel\<close> and the cancel function it returns.  \<open>live\<close> holds the contexts whose own cancel function
  has not been called, which is what the pool is responsible for; the parent is the context of the caller, who may end all of its
  children at any time, and is not part of the model.
\<close>

definition WithCancel :: "'w pool_world \<Rightarrow> nat \<times> 'w pool_world" where
  "WithCancel w = (next_ctx w, w\<lparr>next_ctx := Suc (next_ctx w), live := finsert (next_ctx w) (live w)\<rparr>)"

definition cancel :: "nat \<Rightarrow> 'w pool_world \<Rightarrow> 'w pool_world" where
  "cancel c w = w\<lparr>live := live w |-| {|c|}\<rparr>"

text \<open>What is known of the iteration over the keys of a map: every key once, in some order.\<close>

definition enumerates :: "(string fset \<Rightarrow> string list) \<Rightarrow> bool" where
  "enumerates iter \<longleftrightarrow> (\<forall>A. set (iter A) = fset A \<and> distinct (iter A))"

section \<open>Operations\<close>

fun setDifference_loop :: "(string, bool) fmap \<Rightarrow> string list \<Rightarrow> string list \<Rightarrow> string list" where
  "setDifference_loop m [] diff = diff"
| "setDifference_loop m (item # a) diff =
     setDifference_loop m a (case fmlookup m item of None \<Rightarrow> diff @ [item] | Some _ \<Rightarrow> diff)"

definition setDifference :: "string list \<Rightarrow> string list \<Rightarrow> string list" where
  "setDifference a b = setDifference_loop (fold (\<lambda>item m. fmupd item True m) b fmempty) a []"

text \<open>A nil slice and an empty one are both \<open>[]\<close>: no caller distinguishes them.\<close>

definition GetConnectedHosts ::
  "(string fset \<Rightarrow> string list) \<Rightarrow> ('svc, 'd, 'w) controlPlaneConnectionPoolImpl \<Rightarrow> string \<Rightarrow> string list" where
  "GetConnectedHosts iter cc key =
     (case fmlookup (conns cc) key of None \<Rightarrow> [] | Some m \<Rightarrow> iter (fmdom m))"

definition GetServices ::
  "('svc, 'd, 'w) controlPlaneConnectionPoolImpl \<Rightarrow> string \<Rightarrow> (string, 'svc) fmap option" where
  "GetServices cc key = map_option (fmmap service) (fmlookup (conns cc) key)"

definition ResolveControlInterface ::
  "('svc, 'd, 'w) controlPlaneConnectionPoolImpl \<Rightarrow> string \<Rightarrow> string \<Rightarrow> string \<times> 'svc option" where
  "ResolveControlInterface cc key host =
     (case fmlookup (conns cc) key of
        None \<Rightarrow> ('''', None)
      | Some m \<Rightarrow> (case fmlookup m host of
                    Some holder \<Rightarrow> (host, Some (service holder))
                  | None \<Rightarrow> ('''', None)))"

definition RemoveConnection ::
  "string \<Rightarrow> string \<Rightarrow> ('svc, 'd, 'w) controlPlaneConnectionPoolImpl \<times> 'w pool_world \<Rightarrow>
     ('svc, 'd, 'w) controlPlaneConnectionPoolImpl \<times> 'w pool_world" where
  "RemoveConnection key host = (\<lambda>(cc, w).
     case fmlookup (conns cc) key of
       None \<Rightarrow> (cc, w)
     | Some m \<Rightarrow>
         (case fmlookup m host of
            None \<Rightarrow> (cc, w)
          | Some holder \<Rightarrow>
              let w' = cancel (cancelFn holder) w;
                  m' = fmdrop host m;
                  conns' = fmupd key m' (conns cc)
              in (cc\<lparr>conns := if m' = fmempty then fmdrop key conns' else conns'\<rparr>, w')))"

text \<open>The loop that cancels every holder of one key.\<close>

definition cancelAll ::
  "(string fset \<Rightarrow> string list) \<Rightarrow> (string, 'svc clientServiceHolder) fmap \<Rightarrow> 'w pool_world \<Rightarrow> 'w pool_world" where
  "cancelAll iter m w = fold (\<lambda>host. case fmlookup m host of Some h \<Rightarrow> cancel (cancelFn h) | None \<Rightarrow> id) (iter (fmdom m)) w"

definition RemoveAllConnections ::
  "(string fset \<Rightarrow> string list) \<Rightarrow> string \<Rightarrow> ('svc, 'd, 'w) controlPlaneConnectionPoolImpl \<times> 'w pool_world \<Rightarrow>
     ('svc, 'd, 'w) controlPlaneConnectionPoolImpl \<times> 'w pool_world" where
  "RemoveAllConnections iter key = (\<lambda>(cc, w).
     case fmlookup (conns cc) key of
       None \<Rightarrow> (cc, w)
     | Some m \<Rightarrow> (cc\<lparr>conns := fmdrop key (conns cc)\<rparr>, cancelAll iter m w))"

definition pool_Close ::
  "(string fset \<Rightarrow> string list) \<Rightarrow> ('svc, 'd, 'w) controlPlaneConnectionPoolImpl \<times> 'w pool_world \<Rightarrow>
     ('svc, 'd, 'w) controlPlaneConnectionPoolImpl \<times> 'w pool_world" where
  "pool_Close iter = (\<lambda>(cc, w).
     (cc\<lparr>conns := fmempty\<rparr>,
      fold (\<lambda>key. case fmlookup (conns cc) key of Some m \<Rightarrow> cancelAll iter m | None \<Rightarrow> id)
        (iter (fmdom (conns cc))) w))"

text \<open>
  \<open>DialControlService\<close>: the dialer (with TLS when a factory is set), a context, the client, the
  wrappers, and the entry in the map.
\<close>

type_synonym ('svc, 'd, 'w) start_client = "'d \<Rightarrow> string \<Rightarrow> 'w \<Rightarrow> (go_error + 'svc) \<times> 'w"

definition dialer_for ::
  "('svc, 'd, 'w) controlPlaneConnectionPoolImpl \<Rightarrow> 'w \<Rightarrow> (go_error + 'd) \<times> 'w" where
  "dialer_for cc x = (case tlsDialerFactory cc of
                        None \<Rightarrow> (Inr (baseDialOptions cc), x)
                      | Some generate \<Rightarrow> generate (baseDialOptions cc) x)"

definition DialControlService ::
  "('svc, 'd, 'w) start_client \<Rightarrow> string \<Rightarrow> string \<Rightarrow> ('svc, 'd, 'w) controlPlaneConnectionPoolImpl \<times> 'w pool_world \<Rightarrow>
     (go_error + string \<times> 'svc) \<times> ('svc, 'd, 'w) controlPlaneConnectionPoolImpl \<times> 'w pool_world" where
  "DialControlService StartControlClient key host = (\<lambda>(cc, w).
     case dialer_for cc (io w) of
       (Inl err, x) \<Rightarrow> (Inl err, cc, w\<lparr>io := x\<rparr>)
     | (Inr dialer, x) \<Rightarrow>
         let (ctx, w1) = WithCancel (w\<lparr>io := x\<rparr>)
         in (case StartControlClient dialer host (io w1) of
               (Inl err, y) \<Rightarrow> (Inl err, cc, cancel ctx (w1\<lparr>io := y\<rparr>))
             | (Inr svc0, y) \<Rightarrow>
                 let newSvc = fold (\<lambda>wrap. wrap) (serviceWrapperFactories cc) svc0;
                     m = (case fmlookup (conns cc) key of None \<Rightarrow> fmempty | Some m \<Rightarrow> m)
                 in (Inr (host, newSvc),
                     cc\<lparr>conns := fmupd key (fmupd host \<lparr>service = newSvc, cancelFn = ctx\<rparr> m) (conns cc)\<rparr>,
                     w1\<lparr>io := y\<rparr>)))"

text \<open>\<open>ReconcileConnections\<close>: its two loops, and the method.\<close>

fun dialAll ::
  "('svc, 'd, 'w) start_client \<Rightarrow> string \<Rightarrow> (string \<Rightarrow> 'svc \<Rightarrow> 'w \<Rightarrow> 'w) option \<Rightarrow> string list \<Rightarrow>
     ('svc, 'd, 'w) controlPlaneConnectionPoolImpl \<times> 'w pool_world \<Rightarrow>
     go_error option \<times> ('svc, 'd, 'w) controlPlaneConnectionPoolImpl \<times> 'w pool_world" where
  "dialAll start key newServiceCb [] s = (None, s)"
| "dialAll start key newServiceCb (newConn # rest) s =
     (case DialControlService start key newConn s of
        (Inl err, s') \<Rightarrow> (Some (Wrapped ''cannot connect to the pod: '' err), s')
      | (Inr (_, ctrl), (cc', w')) \<Rightarrow>
          dialAll start key newServiceCb rest
            (cc', case newServiceCb of None \<Rightarrow> w' | Some cb \<Rightarrow> w'\<lparr>io := cb newConn ctrl (io w')\<rparr>))"

fun removeOld ::
  "string \<Rightarrow> (string \<Rightarrow> 'w \<Rightarrow> 'w) option \<Rightarrow> string list \<Rightarrow>
     ('svc, 'd, 'w) controlPlaneConnectionPoolImpl \<times> 'w pool_world \<Rightarrow>
     ('svc, 'd, 'w) controlPlaneConnectionPoolImpl \<times> 'w pool_world" where
  "removeOld key oldServiceCb [] s = s"
| "removeOld key oldServiceCb (oldConn # rest) s =
     removeOld key oldServiceCb rest
       (RemoveConnection key oldConn
          (fst s, case oldServiceCb of None \<Rightarrow> snd s | Some cb \<Rightarrow> (snd s)\<lparr>io := cb oldConn (io (snd s))\<rparr>))"

definition ReconcileConnections ::
  "(string fset \<Rightarrow> string list) \<Rightarrow> ('svc, 'd, 'w) start_client \<Rightarrow> string \<Rightarrow> string list \<Rightarrow>
     (string \<Rightarrow> 'svc \<Rightarrow> 'w \<Rightarrow> 'w) option \<Rightarrow> (string \<Rightarrow> 'w \<Rightarrow> 'w) option \<Rightarrow>
     ('svc, 'd, 'w) controlPlaneConnectionPoolImpl \<times> 'w pool_world \<Rightarrow>
     (go_error + (string, 'svc) fmap option) \<times> ('svc, 'd, 'w) controlPlaneConnectionPoolImpl \<times> 'w pool_world" where
  "ReconcileConnections iter start key wantConnections newServiceCb oldServiceCb s =
     (let existingConnections = GetConnectedHosts iter (fst s) key;
          newConnections = setDifference wantConnections existingConnections;
          oldConnections = setDifference existingConnections wantConnections
      in case dialAll start key newServiceCb newConnections s of
           (Some err, s') \<Rightarrow> (Inl err, s')
         | (None, s') \<Rightarrow>
             let s'' = removeOld key oldServiceCb oldConnections s'
             in (Inr (GetServices (fst s'') key), s''))"

section \<open>Lemmas\<close>

subsection \<open>The difference of two lists\<close>

lemma setDifference_loop_eq: "setDifference_loop m a diff = diff @ filter (\<lambda>x. fmlookup m x = None) a"
  by (induction m a diff rule: setDifference_loop.induct) (auto split: option.splits)

lemma fold_fmupd_lookup: "fmlookup (fold (\<lambda>item m. fmupd item True m) b m) x = (if x \<in> set b then Some True else fmlookup m x)"
  by (induction b arbitrary: m) auto

lemma setDifference_eq: "setDifference a b = filter (\<lambda>x. x \<notin> set b) a"
  by (simp add: setDifference_def setDifference_loop_eq fold_fmupd_lookup)

subsection \<open>Entries and running contexts\<close>

definition held :: "(string, (string, 'svc clientServiceHolder) fmap) fmap \<Rightarrow> (string \<Rightarrow> string \<Rightarrow> bool) \<Rightarrow> nat set" where
  "held m P = {c. \<exists>k h hd. P k h \<and> lookup2 m k h = Some hd \<and> cancelFn hd = c}"

text \<open>
  The invariant: no empty inner map, no two entries with the same context, and the contexts that
  are running are exactly those of the entries: nothing leaks, nothing dead is handed out.
\<close>

definition pool_ok :: "('svc, 'd, 'w) controlPlaneConnectionPoolImpl \<times> 'w pool_world \<Rightarrow> bool" where
  "pool_ok s \<longleftrightarrow> (case s of (cc, w) \<Rightarrow>
     no_empty_inner (conns cc) \<and>
     (\<forall>k h hd k' h' hd'. lookup2 (conns cc) k h = Some hd \<longrightarrow> lookup2 (conns cc) k' h' = Some hd' \<longrightarrow>
        cancelFn hd = cancelFn hd' \<longrightarrow> k = k' \<and> h = h') \<and>
     fset (live w) = held (conns cc) (\<lambda>_ _. True) \<and> (\<forall>c \<in> fset (live w). c < next_ctx w))"

lemma pool_ok_dropI:
  assumes ok: "pool_ok (cc, w)" and ne: "no_empty_inner (conns cc')"
    and look: "\<And>k h. lookup2 (conns cc') k h = (if P k h then None else lookup2 (conns cc) k h)"
    and liv: "fset (live w') = fset (live w) - held (conns cc) P" and nx: "next_ctx w' = next_ctx w"
  shows "pool_ok (cc', w')"
proof -
  have inj: "\<And>k h hd k' h' hd'. lookup2 (conns cc) k h = Some hd \<Longrightarrow> lookup2 (conns cc) k' h' = Some hd' \<Longrightarrow>
        cancelFn hd = cancelFn hd' \<Longrightarrow> k = k' \<and> h = h'"
    and all: "fset (live w) = held (conns cc) (\<lambda>_ _. True)" and lt: "\<forall>c \<in> fset (live w). c < next_ctx w"
    using ok by (auto simp: pool_ok_def)
  have "held (conns cc) (\<lambda>_ _. True) - held (conns cc) P = held (conns cc') (\<lambda>_ _. True)"
    using inj by (auto simp: held_def look) metis+
  with liv all have "fset (live w') = held (conns cc') (\<lambda>_ _. True)" by simp
  moreover have "\<forall>c \<in> fset (live w'). c < next_ctx w'" using lt liv nx by auto
  moreover have "k = k' \<and> h = h'"
    if "lookup2 (conns cc') k h = Some hd" "lookup2 (conns cc') k' h' = Some hd'" "cancelFn hd = cancelFn hd'"
    for k h hd k' h' hd'
    using that inj [of k h hd k' h' hd'] by (auto simp: look split: if_splits)
  ultimately show ?thesis using ne unfolding pool_ok_def by blast
qed

lemma RemoveConnection_lookup:
  "lookup2 (conns (fst (RemoveConnection key host (cc, w)))) k h =
     (if k = key \<and> h = host then None else lookup2 (conns cc) k h)"
  by (auto simp: RemoveConnection_def lookup2_def Let_def fmdrop_eq_fmemptyD split: option.splits)

lemma RemoveConnection_world:
  "fset (live (snd (RemoveConnection key host (cc, w)))) = fset (live w) - held (conns cc) (\<lambda>k h. k = key \<and> h = host)"
  "next_ctx (snd (RemoveConnection key host (cc, w))) = next_ctx w"
  "io (snd (RemoveConnection key host (cc, w))) = io w"
  by (auto simp: RemoveConnection_def held_def lookup2_def Let_def cancel_def split: option.splits)

lemma RemoveConnection_no_empty:
  "no_empty_inner (conns cc) \<Longrightarrow> no_empty_inner (conns (fst (RemoveConnection key host (cc, w))))"
  by (auto simp: RemoveConnection_def Let_def split: option.splits)

lemma RemoveConnection_ok: "pool_ok (cc, w) \<Longrightarrow> pool_ok (RemoveConnection key host (cc, w))"
  using pool_ok_dropI [of cc w "fst (RemoveConnection key host (cc, w))" "\<lambda>k h. k = key \<and> h = host"
      "snd (RemoveConnection key host (cc, w))"] RemoveConnection_no_empty [of cc key host w]
  by (simp add: RemoveConnection_lookup RemoveConnection_world pool_ok_def [of "(cc, w)"])

lemma fold_cancel:
  fixes m :: "(string, 'svc clientServiceHolder) fmap"
  defines "f \<equiv> \<lambda>host. case fmlookup m host of Some h \<Rightarrow> cancel (cancelFn h) | None \<Rightarrow> id"
  shows "fset (live (fold f hs w)) = fset (live w) - {c. \<exists>h \<in> set hs. \<exists>hd. fmlookup m h = Some hd \<and> cancelFn hd = c}"
    and "next_ctx (fold f hs w) = next_ctx w" and "io (fold f hs w) = io w"
  by (induction hs arbitrary: w) (auto simp: f_def cancel_def split: option.splits)

lemma cancelAll_world:
  assumes "enumerates iter"
  shows "fset (live (cancelAll iter m w)) = fset (live w) - {c. \<exists>h hd. fmlookup m h = Some hd \<and> cancelFn hd = c}"
    and "next_ctx (cancelAll iter m w) = next_ctx w"
proof -
  have "set (iter (fmdom m)) = fset (fmdom m)" using assms by (simp add: enumerates_def)
  then show "fset (live (cancelAll iter m w)) = fset (live w) - {c. \<exists>h hd. fmlookup m h = Some hd \<and> cancelFn hd = c}"
    unfolding cancelAll_def fold_cancel(1) by (auto intro: fmdomI)
qed (simp add: cancelAll_def fold_cancel)

lemma RemoveAllConnections_ok:
  assumes "pool_ok (cc, w)" and "enumerates iter"
  shows "pool_ok (RemoveAllConnections iter key (cc, w))"
proof (cases "fmlookup (conns cc) key")
  case None
  with assms show ?thesis by (simp add: RemoveAllConnections_def)
next
  case (Some m)
  have "held (conns cc) (\<lambda>k h. k = key) = {c. \<exists>h hd. fmlookup m h = Some hd \<and> cancelFn hd = c}"
    using Some by (auto simp: held_def lookup2_def)
  then have "pool_ok (cc\<lparr>conns := fmdrop key (conns cc)\<rparr>, cancelAll iter m w)"
    using assms(1) cancelAll_world [OF assms(2), of m w]
    by (intro pool_ok_dropI [OF assms(1), where P = "\<lambda>k h. k = key"]) (auto simp: pool_ok_def)
  with Some show ?thesis by (simp add: RemoveAllConnections_def)
qed

lemma fold_cancelAll:
  assumes "enumerates iter"
  shows "fset (live (fold (\<lambda>key. case fmlookup M key of Some m \<Rightarrow> cancelAll iter m | None \<Rightarrow> id) ks w)) =
      fset (live w) - {c. \<exists>k \<in> set ks. \<exists>h hd. lookup2 M k h = Some hd \<and> cancelFn hd = c}"
    and "next_ctx (fold (\<lambda>key. case fmlookup M key of Some m \<Rightarrow> cancelAll iter m | None \<Rightarrow> id) ks w) = next_ctx w"
  by (induction ks arbitrary: w)
     (auto simp: cancelAll_world [OF assms] lookup2_def split: option.splits)

lemma lookup2_fmdom: "lookup2 M k h = Some x \<Longrightarrow> k |\<in>| fmdom M"
  by (cases "fmlookup M k") (auto intro: fmdomI)

lemma pool_Close_world:
  assumes "enumerates iter" and "pool_ok (cc, w)"
  shows "live (snd (pool_Close iter (cc, w))) = {||}"
    and "next_ctx (snd (pool_Close iter (cc, w))) = next_ctx w"
proof -
  have dom: "set (iter (fmdom (conns cc))) = fset (fmdom (conns cc))" using assms(1) by (simp add: enumerates_def)
  have "fset (live w) = held (conns cc) (\<lambda>_ _. True)" using assms(2) by (simp add: pool_ok_def)
  then have "fset (live w) \<subseteq> {c. \<exists>k \<in> fset (fmdom (conns cc)). \<exists>h hd. lookup2 (conns cc) k h = Some hd \<and> cancelFn hd = c}"
    unfolding held_def using lookup2_fmdom [of "conns cc"] by blast
  then have "fset (live (snd (pool_Close iter (cc, w)))) = {}"
    unfolding pool_Close_def prod.case snd_conv fold_cancelAll(1) [OF assms(1)] dom by blast
  then show "live (snd (pool_Close iter (cc, w))) = {||}" by (metis bot_fset.rep_eq fset_inject)
qed (simp add: pool_Close_def fold_cancelAll [OF assms(1)])

lemma pool_ok_empty: "conns cc = fmempty \<Longrightarrow> live w = {||} \<Longrightarrow> pool_ok (cc, w)"
  by (simp add: pool_ok_def held_def)

lemma pool_Close_ok: "enumerates iter \<Longrightarrow> pool_ok (cc, w) \<Longrightarrow> pool_ok (pool_Close iter (cc, w))"
  using pool_ok_empty [of "fst (pool_Close iter (cc, w))" "snd (pool_Close iter (cc, w))"] pool_Close_world [of iter cc w]
  by (simp add: pool_Close_def)

subsection \<open>Dialling\<close>

text \<open>What a dial does: nothing but I/O when it fails, one new entry with a new context otherwise.\<close>

lemma Dial_cases:
  assumes "DialControlService start key host (cc, w) = (r, cc', w')" and "\<forall>c \<in> fset (live w). c < next_ctx w"
  obtains (fail) err where "r = Inl err" "cc' = cc" "live w' = live w" "next_ctx w \<le> next_ctx w'"
  | (ok) svc where "r = Inr (host, svc)" "live w' = finsert (next_ctx w) (live w)" "next_ctx w' = Suc (next_ctx w)"
      "\<And>k h. lookup2 (conns cc') k h =
         (if k = key \<and> h = host then Some \<lparr>service = svc, cancelFn = next_ctx w\<rparr> else lookup2 (conns cc) k h)"
      "no_empty_inner (conns cc) \<longrightarrow> no_empty_inner (conns cc')"
proof -
  have "next_ctx w |\<notin>| live w" using assms(2) by auto
  then have restore: "finsert (next_ctx w) (live w) |-| {|next_ctx w|} = live w" by auto
  obtain d x where d: "dialer_for cc (io w) = (d, x)" by fastforce
  show ?thesis
  proof (cases d)
    case (Inl err)
    with assms(1) d show ?thesis by (intro fail [of err]) (auto simp: DialControlService_def)
  next
    case (Inr dl)
    obtain c y where c: "start dl host x = (c, y)" by fastforce
    let ?w1 = "w\<lparr>next_ctx := Suc (next_ctx w), live := finsert (next_ctx w) (live w), io := y\<rparr>"
    show ?thesis
    proof (cases c)
      case (Inl err)
      have "(r, cc', w') = (Inl err, cc, cancel (next_ctx w) ?w1)"
        unfolding assms(1) [symmetric] by (simp add: DialControlService_def d c Inl \<open>d = Inr dl\<close> WithCancel_def)
      then show ?thesis by (intro fail [of err]) (simp_all add: cancel_def restore)
    next
      case (Inr svc0)
      let ?svc = "fold (\<lambda>wrap. wrap) (serviceWrapperFactories cc) svc0"
      let ?m = "fmupd host \<lparr>service = ?svc, cancelFn = next_ctx w\<rparr>
              (case fmlookup (conns cc) key of None \<Rightarrow> fmempty | Some m \<Rightarrow> m)"
      have eq: "(r, cc', w') = (Inr (host, ?svc), cc\<lparr>conns := fmupd key ?m (conns cc)\<rparr>, ?w1)"
        unfolding assms(1) [symmetric]
        by (simp add: DialControlService_def d c Inr \<open>d = Inr dl\<close> WithCancel_def Let_def)
      have "lookup2 (conns cc') k h =
         (if k = key \<and> h = host then Some \<lparr>service = ?svc, cancelFn = next_ctx w\<rparr> else lookup2 (conns cc) k h)" for k h
        using eq by (cases "fmlookup (conns cc) key") auto
      moreover have "no_empty_inner (conns cc) \<longrightarrow> no_empty_inner (conns cc')"
        using eq no_empty_inner_fmupd [of "conns cc" ?m key] by simp
      ultimately show ?thesis using eq by (intro ok [of ?svc]) simp_all
    qed
  qed
qed

text \<open>Updating one missing entry adds its context to those held.\<close>

lemma held_update:
  assumes "\<And>k h. lookup2 m' k h = (if k = key \<and> h = host then Some hd0 else lookup2 m k h)"
    and "lookup2 m key host = None"
  shows "held m' (\<lambda>_ _. True) = insert (cancelFn hd0) (held m (\<lambda>_ _. True))"
proof (intro equalityI subsetI)
  fix c assume "c \<in> held m' (\<lambda>_ _. True)"
  then show "c \<in> insert (cancelFn hd0) (held m (\<lambda>_ _. True))"
    by (auto simp: held_def assms(1) split: if_splits)
next
  fix c assume "c \<in> insert (cancelFn hd0) (held m (\<lambda>_ _. True))"
  then consider "c = cancelFn hd0" | k h hd where "lookup2 m k h = Some hd" "cancelFn hd = c"
    by (auto simp: held_def)
  then show "c \<in> held m' (\<lambda>_ _. True)"
  proof cases
    case 1
    then show ?thesis using assms(1) [of key host] by (auto simp: held_def)
  next
    case 2
    then have "lookup2 m' k h = Some hd" using assms by auto
    with 2 show ?thesis by (auto simp: held_def)
  qed
qed

lemma Dial_ok:
  assumes "pool_ok (cc, w)" and "lookup2 (conns cc) key host = None"
    and "DialControlService start key host (cc, w) = (r, cc', w')"
  shows "pool_ok (cc', w')"
proof -
  have lt: "\<forall>c \<in> fset (live w). c < next_ctx w" and all: "fset (live w) = held (conns cc) (\<lambda>_ _. True)"
    using assms(1) by (auto simp: pool_ok_def)
  then have old: "cancelFn hd < next_ctx w" if "lookup2 (conns cc) k h = Some hd" for k h hd
    using that by (auto simp: held_def)
  from assms(3) lt show ?thesis
  proof (cases rule: Dial_cases)
    case (fail err)
    with assms(1) lt show ?thesis by (fastforce simp: pool_ok_def)
  next
    case (ok svc)
    have "held (conns cc') (\<lambda>_ _. True) = insert (next_ctx w) (held (conns cc) (\<lambda>_ _. True))"
      using held_update [OF ok(4) assms(2)] by simp
    moreover have "k = k' \<and> h = h'"
      if "lookup2 (conns cc') k h = Some hd" "lookup2 (conns cc') k' h' = Some hd'" "cancelFn hd = cancelFn hd'"
      for k h hd k' h' hd'
      using that old [of k h hd] old [of k' h' hd'] assms(1)
      by (auto simp: ok(4) pool_ok_def split: if_splits)
    ultimately show ?thesis
      using assms(1) ok(2,3,5) all lt by (auto simp: pool_ok_def less_Suc_eq)
  qed
qed

subsection \<open>Reconciling\<close>

lemma pool_ok_io [simp]: "pool_ok (cc, w\<lparr>io := x\<rparr>) = pool_ok (cc, w)"
  by (simp add: pool_ok_def)

definition connected :: "('svc, 'd, 'w) controlPlaneConnectionPoolImpl \<Rightarrow> string \<Rightarrow> string set" where
  "connected cc key = {h. lookup2 (conns cc) key h \<noteq> None}"

text \<open>\<open>cc'\<close> keeps every entry of \<open>cc\<close>, and has new ones only for the hosts \<open>A\<close> under \<open>key\<close>.\<close>

definition extends :: "('svc, 'd, 'w) controlPlaneConnectionPoolImpl \<Rightarrow> string \<Rightarrow> string set \<Rightarrow>
    ('svc, 'd, 'w) controlPlaneConnectionPoolImpl \<Rightarrow> bool" where
  "extends cc key A cc' \<longleftrightarrow> (\<forall>k h. (lookup2 (conns cc) k h \<noteq> None \<longrightarrow> lookup2 (conns cc') k h = lookup2 (conns cc) k h) \<and>
     (lookup2 (conns cc) k h = None \<longrightarrow> (lookup2 (conns cc') k h \<noteq> None \<longleftrightarrow> k = key \<and> h \<in> A)))"

lemma extends_connected:
  assumes "extends cc key A cc'"
  shows "connected cc' k = connected cc k \<union> (if k = key then A else {})"
proof (rule set_eqI)
  fix h
  have "(lookup2 (conns cc) k h \<noteq> None \<longrightarrow> lookup2 (conns cc') k h = lookup2 (conns cc) k h) \<and>
     (lookup2 (conns cc) k h = None \<longrightarrow> (lookup2 (conns cc') k h \<noteq> None \<longleftrightarrow> k = key \<and> h \<in> A))"
    using assms unfolding extends_def by blast
  then show "h \<in> connected cc' k \<longleftrightarrow> h \<in> connected cc k \<union> (if k = key then A else {})"
    by (cases "lookup2 (conns cc) k h") (simp_all add: connected_def)
qed

lemma extends_refl: "extends cc key {} cc"
  by (simp add: extends_def)

lemma extends_trans: "extends cc key A cc1 \<Longrightarrow> extends cc1 key B cc2 \<Longrightarrow> extends cc key (A \<union> B) cc2"
  unfolding extends_def by (metis Un_iff)

lemma Dial_extends:
  assumes "DialControlService start key host (cc, w) = (Inr (h', svc), cc', w')" and "pool_ok (cc, w)"
    and "lookup2 (conns cc) key host = None"
  shows "extends cc key {host} cc'"
proof -
  have "\<forall>c \<in> fset (live w). c < next_ctx w" using assms(2) by (simp add: pool_ok_def)
  with assms(1) show ?thesis
  proof (cases rule: Dial_cases)
    case (ok svc')
    with assms(3) show ?thesis by (auto simp: extends_def)
  qed simp
qed

lemma Dial_fail_same:
  assumes "DialControlService start key host (cc, w) = (Inl err, cc', w')" and "pool_ok (cc, w)"
  shows "cc' = cc"
proof -
  have "\<forall>c \<in> fset (live w). c < next_ctx w" using assms(2) by (simp add: pool_ok_def)
  with assms(1) show ?thesis by (cases rule: Dial_cases) simp_all
qed

lemma dialAll_spec:
  assumes "pool_ok (cc, w)" and "distinct hosts" and "\<forall>h \<in> set hosts. lookup2 (conns cc) key h = None"
    and "dialAll start key cb hosts (cc, w) = (e, cc', w')"
  shows "pool_ok (cc', w') \<and> (\<exists>A \<subseteq> set hosts. extends cc key A cc' \<and> (e = None \<longrightarrow> A = set hosts))"
  using assms
proof (induction hosts arbitrary: cc w)
  case Nil
  then show ?case by (simp add: extends_refl)
next
  case (Cons host hosts)
  obtain r cc1 w1 where d: "DialControlService start key host (cc, w) = (r, cc1, w1)" using prod_cases3 by blast
  have ok1: "pool_ok (cc1, w1)" using Dial_ok [OF Cons.prems(1) _ d] Cons.prems(3) by simp
  show ?case
  proof (cases r)
    case (Inl err)
    then have "cc' = cc" "w' = w1" "e \<noteq> None"
      using d Cons.prems(4) Dial_fail_same [OF d [unfolded Inl] Cons.prems(1)] by auto
    moreover have "cc1 = cc" using Dial_fail_same [OF d [unfolded Inl] Cons.prems(1)] .
    ultimately show ?thesis using ok1 extends_refl by auto
  next
    case (Inr x)
    obtain h' svc where x: "x = (h', svc)" by fastforce
    let ?w1 = "case cb of None \<Rightarrow> w1 | Some f \<Rightarrow> w1\<lparr>io := f host svc (io w1)\<rparr>"
    have ext: "extends cc key {host} cc1"
      using Dial_extends [OF d [unfolded Inr x] Cons.prems(1)] Cons.prems(3) by simp
    have rest: "dialAll start key cb hosts (cc1, ?w1) = (e, cc', w')" using Cons.prems(4) d Inr x by simp
    have "pool_ok (cc1, ?w1)" using ok1 by (cases cb) simp_all
    moreover have "\<forall>h \<in> set hosts. lookup2 (conns cc1) key h = None"
      using ext Cons.prems(2,3) unfolding extends_def by (metis distinct.simps(2) list.set_intros(2) singletonD)
    ultimately obtain A where A: "A \<subseteq> set hosts" "extends cc1 key A cc'" "e = None \<longrightarrow> A = set hosts"
      and "pool_ok (cc', w')"
      using Cons.IH [OF _ _ _ rest] Cons.prems(2) by auto
    then show ?thesis using extends_trans [OF ext A(2)] by (intro conjI exI [of _ "{host} \<union> A"]) auto
  qed
qed

lemma removeOld_spec:
  assumes "pool_ok (cc, w)" and "removeOld key cb hosts (cc, w) = (cc', w')"
  shows "pool_ok (cc', w') \<and>
    (\<forall>k h. lookup2 (conns cc') k h = (if k = key \<and> h \<in> set hosts then None else lookup2 (conns cc) k h))"
  using assms
proof (induction hosts arbitrary: cc w)
  case (Cons host hosts)
  let ?w = "case cb of None \<Rightarrow> w | Some f \<Rightarrow> w\<lparr>io := f host (io w)\<rparr>"
  obtain cc1 w1 where r: "RemoveConnection key host (cc, ?w) = (cc1, w1)" by fastforce
  have "pool_ok (cc, ?w)" using Cons.prems(1) by (cases cb) simp_all
  then have "pool_ok (cc1, w1)" using RemoveConnection_ok r by metis
  moreover have "removeOld key cb hosts (cc1, w1) = (cc', w')"
    using Cons.prems(2) r by (cases cb) simp_all
  ultimately have "pool_ok (cc', w')" and
    look: "\<And>k h. lookup2 (conns cc') k h = (if k = key \<and> h \<in> set hosts then None else lookup2 (conns cc1) k h)"
    using Cons.IH by auto
  moreover have "lookup2 (conns cc1) k h = (if k = key \<and> h = host then None else lookup2 (conns cc) k h)" for k h
    using RemoveConnection_lookup [of key host cc ?w k h] r by simp
  ultimately show ?case by auto
qed simp

lemma GetConnectedHosts_set:
  assumes "enumerates iter"
  shows "set (GetConnectedHosts iter cc key) = connected cc key" and "distinct (GetConnectedHosts iter cc key)"
  using assms
  by (cases "fmlookup (conns cc) key";
      simp add: GetConnectedHosts_def connected_def enumerates_def fset_eq_iff set_eq_iff fmlookup_dom_iff)+

text \<open>What \<open>ReconcileConnections\<close> does to the entries, on both of its ways out.\<close>

lemma ReconcileConnections_spec:
  assumes "enumerates iter" and "pool_ok (cc, w)" and "distinct want"
    and "ReconcileConnections iter start key want newCb oldCb (cc, w) = (r, cc', w')"
  shows "pool_ok (cc', w') \<and>
    (case r of
       Inl err \<Rightarrow> \<exists>A \<subseteq> set want - connected cc key. extends cc key A cc'
     | Inr svcs \<Rightarrow> svcs = GetServices cc' key \<and> connected cc' key = set want \<and>
         (\<forall>k h. lookup2 (conns cc) k h \<noteq> None \<longrightarrow> k \<noteq> key \<or> h \<in> set want \<longrightarrow>
            lookup2 (conns cc') k h = lookup2 (conns cc) k h) \<and>
         (\<forall>k. k \<noteq> key \<longrightarrow> connected cc' k = connected cc k))"
proof -
  let ?ex = "GetConnectedHosts iter cc key"
  let ?new = "setDifference want ?ex" and ?old = "setDifference ?ex want"
  have ex: "set ?ex = connected cc key" by (rule GetConnectedHosts_set(1) [OF assms(1)])
  have new: "set ?new = set want - connected cc key" "distinct ?new"
    and old: "set ?old = connected cc key - set want"
    using assms(3) ex by (auto simp: setDifference_eq)
  obtain e cc1 w1 where d: "dialAll start key newCb ?new (cc, w) = (e, cc1, w1)" using prod_cases3 by blast
  have "\<forall>h \<in> set ?new. lookup2 (conns cc) key h = None" by (auto simp: new connected_def)
  from dialAll_spec [OF assms(2) new(2) this d] obtain A where ok1: "pool_ok (cc1, w1)"
    and A: "A \<subseteq> set ?new" "extends cc key A cc1" "e = None \<longrightarrow> A = set ?new" by blast
  show ?thesis
  proof (cases e)
    case (Some err)
    with assms(4) d have "r = Inl err" "cc' = cc1" "w' = w1" by (auto simp: ReconcileConnections_def)
    with ok1 A new show ?thesis by auto
  next
    case None
    obtain cc2 w2 where rm: "removeOld key oldCb ?old (cc1, w1) = (cc2, w2)" by fastforce
    with None assms(4) d have r: "r = Inr (GetServices cc' key)" "cc' = cc2" "w' = w2"
      by (auto simp: ReconcileConnections_def Let_def)
    from removeOld_spec [OF ok1 rm] have ok2: "pool_ok (cc2, w2)" and
      look: "\<And>k h. lookup2 (conns cc2) k h = (if k = key \<and> h \<in> set ?old then None else lookup2 (conns cc1) k h)" by auto
    have ext: "extends cc key (set ?new) cc1" using A None by simp
    have conn2: "connected cc2 k = (if k = key then connected cc1 k - set ?old else connected cc1 k)" for k
      by (auto simp: connected_def look)
    have "connected cc2 key = set want"
      using extends_connected [OF ext, of key] old new(1) by (auto simp: conn2)
    moreover have "lookup2 (conns cc2) k h = lookup2 (conns cc) k h"
      if "lookup2 (conns cc) k h \<noteq> None" "k \<noteq> key \<or> h \<in> set want" for k h
      using ext that by (auto simp: look old extends_def)
    moreover have "connected cc2 k = connected cc k" if "k \<noteq> key" for k
      using extends_connected [OF ext, of k] that by (simp add: conn2)
    ultimately show ?thesis using ok2 r by simp
  qed
qed

section \<open>Sequences of calls\<close>

datatype ('svc, 'w) pool_op =
    OpDial string string
  | OpRemove string string
  | OpRemoveAll string
  | OpClose
  | OpReconcile string "string list" "(string \<Rightarrow> 'svc \<Rightarrow> 'w \<Rightarrow> 'w) option" "(string \<Rightarrow> 'w \<Rightarrow> 'w) option"

fun pool_step ::
  "(string fset \<Rightarrow> string list) \<Rightarrow> ('svc, 'd, 'w) start_client \<Rightarrow> ('svc, 'w) pool_op \<Rightarrow>
     ('svc, 'd, 'w) controlPlaneConnectionPoolImpl \<times> 'w pool_world \<Rightarrow>
     ('svc, 'd, 'w) controlPlaneConnectionPoolImpl \<times> 'w pool_world" where
  "pool_step iter start (OpDial key host) s = snd (DialControlService start key host s)"
| "pool_step iter start (OpRemove key host) s = RemoveConnection key host s"
| "pool_step iter start (OpRemoveAll key) s = RemoveAllConnections iter key s"
| "pool_step iter start OpClose s = pool_Close iter s"
| "pool_step iter start (OpReconcile key want newCb oldCb) s =
     snd (ReconcileConnections iter start key want newCb oldCb s)"

text \<open>
  What callers must respect: not to dial a host they are connected to under that key, and not to
  ask for the same host twice.
\<close>

fun admissible :: "('svc, 'w) pool_op \<Rightarrow> ('svc, 'd, 'w) controlPlaneConnectionPoolImpl \<times> 'w pool_world \<Rightarrow> bool" where
  "admissible (OpDial key host) s \<longleftrightarrow> host \<notin> connected (fst s) key"
| "admissible (OpReconcile key want _ _) s \<longleftrightarrow> distinct want"
| "admissible _ s \<longleftrightarrow> True"

fun admissible_run ::
  "(string fset \<Rightarrow> string list) \<Rightarrow> ('svc, 'd, 'w) start_client \<Rightarrow> ('svc, 'w) pool_op list \<Rightarrow>
     ('svc, 'd, 'w) controlPlaneConnectionPoolImpl \<times> 'w pool_world \<Rightarrow> bool" where
  "admissible_run iter start [] s \<longleftrightarrow> True"
| "admissible_run iter start (op # ops) s \<longleftrightarrow> admissible op s \<and> admissible_run iter start ops (pool_step iter start op s)"

lemma pool_step_ok:
  assumes "enumerates iter" and "pool_ok s" and "admissible op s"
  shows "pool_ok (pool_step iter start op s)"
proof -
  obtain cc w where s: "s = (cc, w)" by fastforce
  show ?thesis
  proof (cases op)
    case (OpDial key host)
    obtain r cc' w' where d: "DialControlService start key host (cc, w) = (r, cc', w')" using prod_cases3 by blast
    with Dial_ok [OF _ _ d] assms OpDial s show ?thesis by (simp add: connected_def)
  next
    case (OpReconcile key want newCb oldCb)
    obtain r cc' w' where d: "ReconcileConnections iter start key want newCb oldCb (cc, w) = (r, cc', w')"
      using prod_cases3 by blast
    with ReconcileConnections_spec [OF assms(1) _ _ d] assms OpReconcile s show ?thesis by simp
  qed (use assms s in \<open>auto simp: RemoveConnection_ok RemoveAllConnections_ok pool_Close_ok\<close>)
qed

lemma pool_run_ok:
  "enumerates iter \<Longrightarrow> pool_ok s \<Longrightarrow> admissible_run iter start ops s \<Longrightarrow> pool_ok (fold (pool_step iter start) ops s)"
  by (induction ops arbitrary: s) (simp_all add: pool_step_ok)

lemma New_conns [simp]: "conns (NewControlPlaneConnectionPool tls d (map WithServiceWrapper wrappers)) = fmempty"
proof -
  have "conns (fold (\<lambda>fn. fn) (map WithServiceWrapper ws) p) = conns p" for ws and p :: "('a, 'b, 'c) controlPlaneConnectionPoolImpl"
    by (induction ws arbitrary: p) (simp_all add: WithServiceWrapper_def)
  then show ?thesis by (simp add: NewControlPlaneConnectionPool_def)
qed

subsection \<open>A concrete network for the examples\<close>

text \<open>Every dial succeeds and is logged; the service is the host's name.\<close>

definition log_start :: "(string, unit, string list) start_client" where
  "log_start dialer host x = (Inr host, x @ [host])"

definition sorted_iter :: "string fset \<Rightarrow> string list" where
  "sorted_iter A = sorted_list_of_fset A"

lemma enumerates_sorted_iter [simp]: "enumerates sorted_iter"
  by (simp add: enumerates_def sorted_iter_def sorted_list_of_fset.rep_eq)

definition empty_pool :: "(string, unit, string list) controlPlaneConnectionPoolImpl \<times> string list pool_world" where
  "empty_pool = (NewControlPlaneConnectionPool None (\<lambda>_. ()) [], \<lparr>next_ctx = 0, live = {||}, io = []\<rparr>)"

lemma empty_pool_ok: "pool_ok empty_pool" "connected (fst empty_pool) key = {}"
  by (simp_all add: empty_pool_def NewControlPlaneConnectionPool_def pool_ok_empty connected_def)

section \<open>Properties\<close>

text \<open>
  C10. The pool never leaks a connection: after any sequence of dials, removals, reconciliations
  and closings, with dials that fail at will, the contexts that are running are exactly those of
  the entries of the pool, different entries have different ones, and no key keeps an empty map;
  so \<open>Close\<close> stops everything that was ever dialled.
\<close>

theorem pool_never_leaks:
  assumes "enumerates iter" and "live w0 = {||}"
    and "admissible_run iter start ops (NewControlPlaneConnectionPool tls d (map WithServiceWrapper wrappers), w0)"
  shows "pool_ok (fold (pool_step iter start) ops (NewControlPlaneConnectionPool tls d (map WithServiceWrapper wrappers), w0)) \<and>
    live (snd (pool_Close iter (fold (pool_step iter start) ops (NewControlPlaneConnectionPool tls d (map WithServiceWrapper wrappers), w0)))) = {||}"
proof -
  let ?s0 = "(NewControlPlaneConnectionPool tls d (map WithServiceWrapper wrappers), w0)"
  have "pool_ok ?s0" using assms(2) by (intro pool_ok_empty) simp_all
  from pool_run_ok [OF assms(1) this assms(3)] have "pool_ok (fold (pool_step iter start) ops ?s0)" .
  then show ?thesis using pool_Close_world(1) [OF assms(1)] by (metis surj_pair)
qed

theorem pool_never_leaks_witness:
  "pool_ok (fold (pool_step sorted_iter log_start) [OpReconcile ''src'' [''10.0.0.1'', ''10.0.0.2''] None None, OpRemoveAll ''src'']
     (NewControlPlaneConnectionPool None (\<lambda>_. ()) (map WithServiceWrapper []), \<lparr>next_ctx = 0, live = {||}, io = []\<rparr>))"
  using pool_never_leaks [of sorted_iter "\<lparr>next_ctx = 0, live = {||}, io = []\<rparr>" log_start
      "[OpReconcile ''src'' [''10.0.0.1'', ''10.0.0.2''] None None, OpRemoveAll ''src'']" None "\<lambda>_. ()" "[]"] by simp

text \<open>
  C12. Reconciliation of a pool in a consistent state with a list of different hosts: when \<open>ReconcileConnections\<close> returns without an error, the pool is connected,
  under that key, to exactly the wanted hosts, and it returns their services; the hosts that were
  connected already keep their connection, and no other key is touched.  When a dial fails, no
  existing connection has been removed, and at most some of the missing ones were added.
\<close>

theorem reconcile_reaches_wanted_hosts:
  assumes "enumerates iter" and "pool_ok (cc, w)" and "distinct want"
    and "ReconcileConnections iter start key want newCb oldCb (cc, w) = (r, cc', w')"
  shows "case r of
       Inl err \<Rightarrow> \<exists>A \<subseteq> set want - connected cc key. extends cc key A cc'
     | Inr svcs \<Rightarrow> svcs = GetServices cc' key \<and> connected cc' key = set want \<and>
         (\<forall>k h. lookup2 (conns cc) k h \<noteq> None \<longrightarrow> k \<noteq> key \<or> h \<in> set want \<longrightarrow>
            lookup2 (conns cc') k h = lookup2 (conns cc) k h) \<and>
         (\<forall>k. k \<noteq> key \<longrightarrow> connected cc' k = connected cc k)"
  using ReconcileConnections_spec [OF assms] by (rule conjunct2)

theorem reconcile_reaches_wanted_hosts_witness:
  "\<exists>svcs cc' w'. ReconcileConnections sorted_iter log_start ''src'' [''10.0.0.1'', ''10.0.0.2''] None None empty_pool =
     (Inr svcs, cc', w') \<and> connected cc' ''src'' = {''10.0.0.1'', ''10.0.0.2''}"
proof -
  obtain cc w where e: "empty_pool = (cc, w)" by fastforce
  obtain r cc' w' where r: "ReconcileConnections sorted_iter log_start ''src'' [''10.0.0.1'', ''10.0.0.2''] None None (cc, w) = (r, cc', w')"
    using prod_cases3 by blast
  moreover have "fst (ReconcileConnections sorted_iter log_start ''src'' [''10.0.0.1'', ''10.0.0.2''] None None empty_pool) =
      Inr (GetServices cc' ''src'')"
    using r e [symmetric]
    by (simp add: ReconcileConnections_def empty_pool_def NewControlPlaneConnectionPool_def GetConnectedHosts_def
        setDifference_eq DialControlService_def dialer_for_def WithCancel_def log_start_def Let_def split: prod.splits)
  ultimately obtain svcs where "r = Inr svcs" using e by auto
  with reconcile_reaches_wanted_hosts [OF enumerates_sorted_iter _ _ r] empty_pool_ok(1) e r show ?thesis by auto
qed

text \<open>
  Reconciling a pool that is already connected to the wanted hosts is a no-op: nothing is
  dialled, no callback runs, nothing is cancelled, and the services are returned.
\<close>

lemma reconcile_unchanged:
  assumes "enumerates iter" and "connected cc key = set want"
  shows "ReconcileConnections iter start key want newCb oldCb (cc, w) = (Inr (GetServices cc key), cc, w)"
proof -
  have "setDifference want (GetConnectedHosts iter cc key) = []" "setDifference (GetConnectedHosts iter cc key) want = []"
    using GetConnectedHosts_set(1) [OF assms(1), of cc key] assms(2) by (auto simp: setDifference_eq)
  then show ?thesis by (simp add: ReconcileConnections_def)
qed

text \<open>
  Dialling a host twice leaks: the second entry replaces the first without cancelling it, so
  the first connection keeps running although the pool no longer knows it, and even \<open>Close\<close> does
  not stop it.
\<close>

lemma dial_twice_leaks:
  "live (snd (pool_Close sorted_iter
     (fold (pool_step sorted_iter log_start) [OpDial ''src'' ''10.0.0.1'', OpDial ''src'' ''10.0.0.1''] empty_pool))) = {|0|}"
proof -
  have one: "sorted_iter {|x|} = [x]" for x
    by (simp add: sorted_iter_def sorted_list_of_fset.rep_eq)
  show ?thesis
    by (simp add: empty_pool_def NewControlPlaneConnectionPool_def DialControlService_def dialer_for_def WithCancel_def
        log_start_def Let_def pool_Close_def cancelAll_def cancel_def one)
qed

end
