(* ===== verification/Pod_Ip_Getter.thy ===== *)
theory Pod_Ip_Getter
  imports Connection_Pool
begin

text \<open>
  \<open>pkg/reconciler/pod_ip_getter.go\<close>: the addresses of the pods of a namespace that match a selector,
  and how a pool follows them.  The lister of pods is an argument.
\<close>

record Pod =
  Pod_Name :: string
  PodIP :: string

record 'sel PodIpGetter =
  pods_Lister :: "string \<Rightarrow> 'sel \<Rightarrow> go_error + Pod list"

text \<open>The loop over the pods: those that have no address yet are left out.\<close>

fun collectIps :: "Pod list \<Rightarrow> string list \<Rightarrow> string list" where
  "collectIps [] ips = ips"
| "collectIps (p # pods) ips = collectIps pods (if PodIP p \<noteq> '''' then ips @ [PodIP p] else ips)"

definition GetAllPodsIp :: "'sel PodIpGetter \<Rightarrow> string \<Rightarrow> 'sel \<Rightarrow> go_error + string list" where
  "GetAllPodsIp ipGetter namespace selector =
     (case pods_Lister ipGetter namespace selector of
        Inl err \<Rightarrow> Inl err
      | Inr pods \<Rightarrow> Inr (collectIps pods []))"

lemma collectIps_eq: "collectIps pods ips = ips @ filter (\<lambda>ip. ip \<noteq> '''') (map PodIP pods)"
  by (induction pods arbitrary: ips) auto

section \<open>Properties\<close>

text \<open>
  C35. A pool follows the pods: when the lister returns pods no two of which share an address, and the
  pool is reconciled with the addresses of \<open>GetAllPodsIp\<close> without an error, then it is connected to
  exactly the pods that have an address, and reconciling it again with the same pods changes nothing.
\<close>

theorem pool_follows_pods:
  assumes "pods_Lister ipGetter namespace selector = Inr pods"
    and "distinct (filter (\<lambda>ip. ip \<noteq> '''') (map PodIP pods))"
    and "GetAllPodsIp ipGetter namespace selector = Inr ips"
    and "enumerates iter" and "pool_ok (cc, w)"
    and "ReconcileConnections iter start key ips newCb oldCb (cc, w) = (Inr svcs, cc', w')"
  shows "connected cc' key = PodIP ` {p \<in> set pods. PodIP p \<noteq> ''''} \<and>
    ReconcileConnections iter start key ips newCb oldCb (cc', w') = (Inr (GetServices cc' key), cc', w')"
proof -
  have ips: "ips = filter (\<lambda>ip. ip \<noteq> '''') (map PodIP pods)"
    using assms(1,3) by (simp add: GetAllPodsIp_def collectIps_eq)
  have "connected cc' key = set ips"
    using ReconcileConnections_spec [OF assms(4,5) _ assms(6)] assms(2) ips by simp
  with reconcile_unchanged [OF assms(4) this] ips show ?thesis by auto
qed

theorem pool_follows_pods_witness:
  "\<exists>svcs cc' w'. ReconcileConnections sorted_iter log_start ''src'' [''10.0.0.1''] None None empty_pool = (Inr svcs, cc', w') \<and>
     connected cc' ''src'' = {''10.0.0.1''}"
proof -
  let ?pods = "[\<lparr>Pod_Name = ''a'', PodIP = ''10.0.0.1''\<rparr>, \<lparr>Pod_Name = ''b'', PodIP = ''''\<rparr>]"
  let ?g = "\<lparr>pods_Lister = \<lambda>(ns :: string) (sel :: unit). (Inr ?pods :: go_error + Pod list)\<rparr>"
  obtain cc w where e: "empty_pool = (cc, w)" by fastforce
  obtain cc' w' where r: "ReconcileConnections sorted_iter log_start ''src'' [''10.0.0.1''] None None (cc, w) =
      (Inr (GetServices cc' ''src''), cc', w')"
    unfolding e [symmetric]
    by (simp add: ReconcileConnections_def empty_pool_def NewControlPlaneConnectionPool_def GetConnectedHosts_def
        setDifference_eq DialControlService_def dialer_for_def WithCancel_def log_start_def Let_def)
  have l: "pods_Lister ?g ''ns'' () = Inr ?pods" by simp
  have g: "GetAllPodsIp ?g ''ns'' () = Inr [''10.0.0.1'']" by (simp add: GetAllPodsIp_def)
  have "connected cc' ''src'' = PodIP ` {p \<in> set ?pods. PodIP p \<noteq> ''''}"
    using pool_follows_pods [OF l _ g enumerates_sorted_iter _ r] empty_pool_ok(1) e by simp
  moreover have "PodIP ` {p \<in> set ?pods. PodIP p \<noteq> ''''} = {''10.0.0.1''}" by (auto intro!: image_eqI)
  ultimately show ?thesis using r e by auto
qed

end
