(* ===== verification/Certificates.thy ===== *)
theory Certificates
  imports Prelude
begin

text \<open>
  \<open>pkg/certificates\<close>: the names of certificates (\<open>constants.go\<close>), key pairs (\<open>key_pair.go\<close>), and
  creating, parsing and validating certificates (\<open>certs.go\<close>).

  Times and durations are nanoseconds.  Randomness, RSA, the DER form of certificates and keys and
  the PEM armour are arguments, gathered in the record \<open>crypto\<close>; \<open>crypto_ok\<close> states what is
  documented of them and used here.  They act on a world \<open>'w\<close> that also has the clock; \<open>time_passes\<close> leads from one reading
  of the clock to the next when the code takes two in a row.
\<close>

section \<open>Names\<close>

definition Organization :: string where "Organization = ''knative.dev''"
definition LegacyFakeDnsName :: string where "LegacyFakeDnsName = ''data-plane.'' @ Organization"
definition FakeDnsName :: string where "FakeDnsName = LegacyFakeDnsName"
definition dataPlaneUserPrefix :: string where "dataPlaneUserPrefix = ''kn-user-''"
definition dataPlaneRoutingPrefix :: string where "dataPlaneRoutingPrefix = ''kn-routing-''"
definition ControlPlaneName :: string where "ControlPlaneName = ''kn-control''"
definition CaCertName :: string where "CaCertName = ''ca.crt''"
definition CertName :: string where "CertName = ''tls.crt''"
definition PrivateKeyName :: string where "PrivateKeyName = ''tls.key''"
definition SecretCaCertKey :: string where "SecretCaCertKey = ''ca-cert.pem''"
definition SecretCertKey :: string where "SecretCertKey = ''public-cert.pem''"
definition SecretPKKey :: string where "SecretPKKey = ''private-key.pem''"

lemmas name_defs = Organization_def LegacyFakeDnsName_def dataPlaneUserPrefix_def dataPlaneRoutingPrefix_def
  ControlPlaneName_def CaCertName_def CertName_def PrivateKeyName_def SecretCaCertKey_def SecretCertKey_def
  SecretPKKey_def

text \<open>\<open>strings.ToLower\<close> on ASCII text, which is what label values and namespaces are.\<close>

definition lower_char :: "char \<Rightarrow> char" where
  "lower_char c = (let n = of_char c :: nat in if 65 \<le> n \<and> n \<le> 90 then char_of (n + 32) else c)"

definition ToLower :: "string \<Rightarrow> string" where
  "ToLower s = map lower_char s"

definition DataPlaneRoutingName :: "string \<Rightarrow> string" where
  "DataPlaneRoutingName routingId =
     dataPlaneRoutingPrefix @ ToLower (if routingId = '''' then ''0'' else routingId)"

definition DataPlaneUserName :: "string \<Rightarrow> string" where
  "DataPlaneUserName namespace = dataPlaneUserPrefix @ ToLower namespace"

section \<open>Certificates and keys\<close>

type_synonym Duration = int
type_synonym Time = int

definition second :: Duration where "second = 1000000000"
definition hour :: Duration where "hour = 3600 * second"

datatype KeyUsage = KeyUsageCertSign | KeyUsageDigitalSignature
datatype ExtKeyUsage = ExtKeyUsageServerAuth | ExtKeyUsageClientAuth
datatype SignatureAlgorithm = SHA256WithRSA

record Certificate =
  SerialNumber :: nat
  CertSignatureAlgorithm :: SignatureAlgorithm
  NotBefore :: Time
  NotAfter :: Time
  BasicConstraintsValid :: bool
  DNSNames :: "string list"
  IsCA :: bool
  CertKeyUsage :: "KeyUsage option"
  CertExtKeyUsage :: "ExtKeyUsage list"
  SubjectOrganization :: "string list"
  SubjectCommonName :: string

record pem_Block =
  block_Type :: string
  block_Bytes :: bytes

record ('k, 'w) crypto =
  Now :: "'w \<Rightarrow> Time"
  time_passes :: "'w \<Rightarrow> 'w"
  rand_Int :: "nat \<Rightarrow> 'w \<Rightarrow> (go_error + nat) \<times> 'w"
  GenerateKey :: "'w \<Rightarrow> (go_error + 'k) \<times> 'w"
  CreateCertificate :: "Certificate \<Rightarrow> Certificate \<Rightarrow> 'k \<Rightarrow> 'k \<Rightarrow> 'w \<Rightarrow> (go_error + bytes) \<times> 'w"
  ParseCertificate :: "bytes \<Rightarrow> go_error + Certificate"
  MarshalPKCS1PrivateKey :: "'k \<Rightarrow> bytes"
  ParsePKCS1PrivateKey :: "bytes \<Rightarrow> go_error + 'k"
  EncodeToMemory :: "pem_Block \<Rightarrow> bytes"
  pem_Decode :: "bytes \<Rightarrow> pem_Block option"
  Time_String :: "Time \<Rightarrow> string"

text \<open>The dates of a DER certificate have no fractions of a second.\<close>

definition to_seconds :: "Time \<Rightarrow> Time" where
  "to_seconds t = t - t mod second"

text \<open>What the parsed certificate has from the template it was created from.\<close>

definition issued_from :: "Certificate \<Rightarrow> Certificate \<Rightarrow> bool" where
  "issued_from tmpl cert \<longleftrightarrow>
     cert = tmpl\<lparr>NotBefore := to_seconds (NotBefore tmpl), NotAfter := to_seconds (NotAfter tmpl)\<rparr>"

text \<open>The two kinds of templates that the code passes to \<open>x509.CreateCertificate\<close>: of a CA and of an end of a connection.\<close>

definition ca_template :: "nat \<Rightarrow> Time \<Rightarrow> Time \<Rightarrow> Certificate" where
  "ca_template serial notBefore notAfter =
     \<lparr>SerialNumber = serial, CertSignatureAlgorithm = SHA256WithRSA, NotBefore = notBefore, NotAfter = notAfter,
      BasicConstraintsValid = True, DNSNames = [], IsCA = True, CertKeyUsage = Some KeyUsageCertSign,
      CertExtKeyUsage = [], SubjectOrganization = [Organization], SubjectCommonName = ''''\<rparr>"

definition transport_template :: "nat \<Rightarrow> Time \<Rightarrow> Time \<Rightarrow> string list \<Rightarrow> Certificate" where
  "transport_template serial notBefore notAfter sans =
     \<lparr>SerialNumber = serial, CertSignatureAlgorithm = SHA256WithRSA, NotBefore = notBefore, NotAfter = notAfter,
      BasicConstraintsValid = True, DNSNames = sans, IsCA = False, CertKeyUsage = Some KeyUsageDigitalSignature,
      CertExtKeyUsage = [ExtKeyUsageServerAuth, ExtKeyUsageClientAuth], SubjectOrganization = [Organization],
      SubjectCommonName = ''control-protocol-certificate''\<rparr>"

text \<open>
  The documented behaviour of the cryptographic libraries that the code relies on, for the PEM types and the
  templates it uses.
\<close>

definition crypto_ok :: "('k, 'w) crypto \<Rightarrow> bool" where
  "crypto_ok c \<longleftrightarrow>
     (\<forall>ty bs. ty \<in> {''CERTIFICATE'', ''RSA PRIVATE KEY''} \<longrightarrow>
        pem_Decode c (EncodeToMemory c \<lparr>block_Type = ty, block_Bytes = bs\<rparr>) = Some \<lparr>block_Type = ty, block_Bytes = bs\<rparr>) \<and>
     (\<forall>k. ParsePKCS1PrivateKey c (MarshalPKCS1PrivateKey c k) = Inr k) \<and>
     (\<forall>n nb na sans tmpl parent pub priv w der w'. tmpl \<in> {ca_template n nb na, transport_template n nb na sans} \<longrightarrow>
        CreateCertificate c tmpl parent pub priv w = (Inr der, w') \<longrightarrow>
        (\<exists>cert. ParseCertificate c der = Inr cert \<and> issued_from tmpl cert)) \<and>
     (\<forall>n w x w'. rand_Int c n w = (Inr x, w') \<longrightarrow> x < n) \<and>
     (\<forall>n w. Now c w \<le> Now c (snd (GenerateKey c w)) \<and> Now c w \<le> Now c (snd (rand_Int c n w)) \<and> Now c w \<le> Now c (time_passes c w))"

section \<open>Key pairs\<close>

record KeyPair =
  privateKeyBlock :: pem_Block
  privateKeyPemBytes :: bytes
  certBlock :: pem_Block
  certPemBytes :: bytes

definition NewKeyPair :: "('k, 'w) crypto \<Rightarrow> pem_Block \<Rightarrow> pem_Block \<Rightarrow> KeyPair" where
  "NewKeyPair c privateKey cert =
     \<lparr>privateKeyBlock = privateKey, privateKeyPemBytes = EncodeToMemory c privateKey,
      certBlock = cert, certPemBytes = EncodeToMemory c cert\<rparr>"

definition PrivateKey :: "KeyPair \<Rightarrow> pem_Block" where "PrivateKey kh = privateKeyBlock kh"
definition PrivateKeyBytes :: "KeyPair \<Rightarrow> bytes" where "PrivateKeyBytes kh = privateKeyPemBytes kh"
definition Cert :: "KeyPair \<Rightarrow> pem_Block" where "Cert kh = certBlock kh"
definition CertBytes :: "KeyPair \<Rightarrow> bytes" where "CertBytes kh = certPemBytes kh"

section \<open>Creating certificates\<close>

definition serialNumberLimit :: nat where "serialNumberLimit = 2 ^ 128"

definition createCertTemplate ::
  "('k, 'w) crypto \<Rightarrow> Duration \<Rightarrow> string list \<Rightarrow> 'w \<Rightarrow> (go_error + Certificate) \<times> 'w" where
  "createCertTemplate c expirationInterval sans w =
     (case rand_Int c serialNumberLimit w of
        (Inl err, w') \<Rightarrow> (Inl (ErrorString (''failed to generate serial number: '' @ error_text err)), w')
      | (Inr serialNumber, w') \<Rightarrow>
          let w'' = time_passes c w'
          in (Inr \<lparr>SerialNumber = serialNumber, CertSignatureAlgorithm = SHA256WithRSA,
                   NotBefore = Now c w', NotAfter = Now c w'' + expirationInterval,
                   BasicConstraintsValid = True, DNSNames = sans, IsCA = False, CertKeyUsage = None,
                   CertExtKeyUsage = [], SubjectOrganization = [], SubjectCommonName = ''''\<rparr>, w''))"

definition createCACertTemplate :: "('k, 'w) crypto \<Rightarrow> Duration \<Rightarrow> 'w \<Rightarrow> (go_error + Certificate) \<times> 'w" where
  "createCACertTemplate c expirationInterval w =
     (case createCertTemplate c expirationInterval [] w of
        (Inl err, w') \<Rightarrow> (Inl err, w')
      | (Inr rootCert, w') \<Rightarrow>
          (Inr (rootCert\<lparr>IsCA := True, CertKeyUsage := Some KeyUsageCertSign,
                         SubjectOrganization := [Organization]\<rparr>), w'))"

definition createTransportCertTemplate ::
  "('k, 'w) crypto \<Rightarrow> Duration \<Rightarrow> string list \<Rightarrow> 'w \<Rightarrow> (go_error + Certificate) \<times> 'w" where
  "createTransportCertTemplate c expirationInterval sans w =
     (case createCertTemplate c expirationInterval sans w of
        (Inl err, w') \<Rightarrow> (Inl err, w')
      | (Inr cert, w') \<Rightarrow>
          (Inr (cert\<lparr>CertKeyUsage := Some KeyUsageDigitalSignature,
                     CertExtKeyUsage := [ExtKeyUsageServerAuth, ExtKeyUsageClientAuth],
                     SubjectOrganization := [Organization],
                     SubjectCommonName := ''control-protocol-certificate''\<rparr>), w'))"

definition createCert ::
  "('k, 'w) crypto \<Rightarrow> Certificate \<Rightarrow> Certificate \<Rightarrow> 'k \<Rightarrow> 'k \<Rightarrow> 'w \<Rightarrow> (go_error + Certificate \<times> pem_Block) \<times> 'w" where
  "createCert c template parent pub parentPriv w =
     (case CreateCertificate c template parent pub parentPriv w of
        (Inl err, w') \<Rightarrow> (Inl err, w')
      | (Inr certDER, w') \<Rightarrow>
          (case ParseCertificate c certDER of
             Inl err \<Rightarrow> (Inl err, w')
           | Inr cert \<Rightarrow> (Inr (cert, \<lparr>block_Type = ''CERTIFICATE'', block_Bytes = certDER\<rparr>), w')))"

text \<open>A private key stands for the pair; \<open>&keyPair.PublicKey\<close> is the key itself.\<close>

definition CreateCACerts :: "('k, 'w) crypto \<Rightarrow> Duration \<Rightarrow> 'w \<Rightarrow> (go_error + KeyPair) \<times> 'w" where
  "CreateCACerts c expirationInterval w =
     (case GenerateKey c w of
        (Inl err, w1) \<Rightarrow> (Inl err, w1)
      | (Inr caKeyPair, w1) \<Rightarrow>
          (case createCACertTemplate c expirationInterval w1 of
             (Inl err, w2) \<Rightarrow> (Inl err, w2)
           | (Inr rootCertTmpl, w2) \<Rightarrow>
               (case createCert c rootCertTmpl rootCertTmpl caKeyPair caKeyPair w2 of
                  (Inl err, w3) \<Rightarrow> (Inl err, w3)
                | (Inr (_, caCertPem), w3) \<Rightarrow>
                    (Inr (NewKeyPair c \<lparr>block_Type = ''RSA PRIVATE KEY'',
                            block_Bytes = MarshalPKCS1PrivateKey c caKeyPair\<rparr> caCertPem), w3))))"

definition CreateCert ::
  "('k, 'w) crypto \<Rightarrow> 'k \<Rightarrow> Certificate \<Rightarrow> Duration \<Rightarrow> string list \<Rightarrow> 'w \<Rightarrow> (go_error + KeyPair) \<times> 'w" where
  "CreateCert c caKey caCertificate expirationInterval sans w =
     (case GenerateKey c w of
        (Inl err, w1) \<Rightarrow> (Inl err, w1)
      | (Inr keyPair, w1) \<Rightarrow>
          (case createTransportCertTemplate c expirationInterval sans w1 of
             (Inl err, w2) \<Rightarrow> (Inl err, w2)
           | (Inr certTemplate, w2) \<Rightarrow>
               (case createCert c certTemplate caCertificate keyPair caKey w2 of
                  (Inl err, w3) \<Rightarrow> (Inl err, w3)
                | (Inr (_, certPEM), w3) \<Rightarrow>
                    (Inr (NewKeyPair c \<lparr>block_Type = ''RSA PRIVATE KEY'',
                            block_Bytes = MarshalPKCS1PrivateKey c keyPair\<rparr> certPEM), w3))))"

definition CreateControlPlaneCert ::
  "('k, 'w) crypto \<Rightarrow> 'k \<Rightarrow> Certificate \<Rightarrow> Duration \<Rightarrow> 'w \<Rightarrow> (go_error + KeyPair) \<times> 'w" where
  "CreateControlPlaneCert c caKey caCertificate expirationInterval =
     CreateCert c caKey caCertificate expirationInterval [LegacyFakeDnsName]"

definition CreateDataPlaneCert ::
  "('k, 'w) crypto \<Rightarrow> 'k \<Rightarrow> Certificate \<Rightarrow> Duration \<Rightarrow> 'w \<Rightarrow> (go_error + KeyPair) \<times> 'w" where
  "CreateDataPlaneCert c caKey caCertificate expirationInterval =
     CreateCert c caKey caCertificate expirationInterval [LegacyFakeDnsName]"

section \<open>Parsing and validating\<close>

definition badPemBlock :: "string \<Rightarrow> string \<Rightarrow> go_error" where
  "badPemBlock expected found =
     ErrorString (''bad pem block, expecting type '' @ [CHR 0x27] @ expected @ [CHR 0x27] @ '', found '' @ quoted found)"

definition ParseCert :: "('k, 'w) crypto \<Rightarrow> bytes \<Rightarrow> bytes \<Rightarrow> go_error + Certificate \<times> 'k" where
  "ParseCert c certPemBytes' privateKeyPemBytes' =
     (case pem_Decode c certPemBytes' of
        None \<Rightarrow> Inl (ErrorString ''decoding the cert block returned nil'')
      | Some cb \<Rightarrow>
          if block_Type cb \<noteq> ''CERTIFICATE'' then Inl (badPemBlock ''CERTIFICATE'' (block_Type cb))
          else (case ParseCertificate c (block_Bytes cb) of
                  Inl err \<Rightarrow> Inl err
                | Inr cert \<Rightarrow>
                    (case pem_Decode c privateKeyPemBytes' of
                       None \<Rightarrow> Inl (ErrorString ''decoding the pk block returned nil'')
                     | Some pb \<Rightarrow>
                         if block_Type pb \<noteq> ''RSA PRIVATE KEY'' then Inl (badPemBlock ''RSA PRIVATE KEY'' (block_Type pb))
                         else (case ParsePKCS1PrivateKey c (block_Bytes pb) of
                                 Inl err \<Rightarrow> Inl err
                               | Inr pk \<Rightarrow> Inr (cert, pk)))))"

definition KeyPair_Parse :: "('k, 'w) crypto \<Rightarrow> KeyPair \<Rightarrow> go_error + Certificate \<times> 'k" where
  "KeyPair_Parse c kh = ParseCert c (certPemBytes kh) (privateKeyPemBytes kh)"

definition ValidateCert :: "('k, 'w) crypto \<Rightarrow> Certificate \<Rightarrow> Duration \<Rightarrow> 'w \<Rightarrow> go_error option" where
  "ValidateCert c cert rotationThreshold w =
     (if \<not> NotAfter cert > Now c w + rotationThreshold
      then Some (ErrorString (''certificate is going to expire '' @ Time_String c (NotAfter cert)))
      else None)"

section \<open>Lemmas\<close>

lemma crypto_ok_pem:
  assumes "crypto_ok c"
  shows "pem_Decode c (EncodeToMemory c \<lparr>block_Type = ''CERTIFICATE'', block_Bytes = bs\<rparr>) = Some \<lparr>block_Type = ''CERTIFICATE'', block_Bytes = bs\<rparr>"
    and "pem_Decode c (EncodeToMemory c \<lparr>block_Type = ''RSA PRIVATE KEY'', block_Bytes = bs\<rparr>) = Some \<lparr>block_Type = ''RSA PRIVATE KEY'', block_Bytes = bs\<rparr>"
  using assms unfolding crypto_ok_def by blast+

lemma crypto_ok_key: "crypto_ok c \<Longrightarrow> ParsePKCS1PrivateKey c (MarshalPKCS1PrivateKey c k) = Inr k"
  by (simp add: crypto_ok_def)

lemma crypto_ok_cert:
  assumes "crypto_ok c" and "CreateCertificate c tmpl parent pub priv w = (Inr der, w')"
    and "tmpl \<in> {ca_template n nb na, transport_template n nb na sans}"
  shows "\<exists>cert. ParseCertificate c der = Inr cert \<and> issued_from tmpl cert"
  using assms unfolding crypto_ok_def by blast

lemma crypto_ok_clock:
  "crypto_ok c \<Longrightarrow> GenerateKey c w = (r, w') \<Longrightarrow> Now c w \<le> Now c w'"
  "crypto_ok c \<Longrightarrow> rand_Int c n w = (r', w') \<Longrightarrow> Now c w \<le> Now c w'"
  "crypto_ok c \<Longrightarrow> Now c w \<le> Now c (time_passes c w)"
  unfolding crypto_ok_def by (metis snd_conv)+

lemma crypto_ok_rand: "crypto_ok c \<Longrightarrow> rand_Int c n w = (Inr x, w') \<Longrightarrow> x < n"
  unfolding crypto_ok_def by blast

lemma to_seconds_bounds: "t - second < to_seconds t" "to_seconds t \<le> t" "to_seconds t mod second = 0"
proof -
  have "t mod second < second" "0 \<le> t mod second" by (simp_all add: second_def)
  then show "t - second < to_seconds t" "to_seconds t \<le> t" by (simp_all add: to_seconds_def)
  show "to_seconds t mod second = 0" by (simp add: to_seconds_def mod_diff_eq)
qed

text \<open>A key pair made of a key and the DER form of a certificate parses back to both.\<close>

lemma ParseCert_NewKeyPair:
  assumes "crypto_ok c" and "ParseCertificate c der = Inr cert"
  shows "KeyPair_Parse c (NewKeyPair c \<lparr>block_Type = ''RSA PRIVATE KEY'', block_Bytes = MarshalPKCS1PrivateKey c k\<rparr>
           \<lparr>block_Type = ''CERTIFICATE'', block_Bytes = der\<rparr>) = Inr (cert, k)"
  by (simp add: KeyPair_Parse_def NewKeyPair_def ParseCert_def crypto_ok_pem [OF assms(1)] crypto_ok_key [OF assms(1)]
      assms(2))

lemma createCert_parses:
  assumes "crypto_ok c" and "createCert c tmpl parent pub priv w = (Inr (cert, pem), w')"
    and "tmpl \<in> {ca_template n nb na, transport_template n nb na sans}"
  shows "issued_from tmpl cert \<and> (\<exists>der. ParseCertificate c der = Inr cert \<and>
    pem = \<lparr>block_Type = ''CERTIFICATE'', block_Bytes = der\<rparr>)"
proof -
  from assms(2) obtain der where der: "CreateCertificate c tmpl parent pub priv w = (Inr der, w')" "ParseCertificate c der = Inr cert"
    "pem = \<lparr>block_Type = ''CERTIFICATE'', block_Bytes = der\<rparr>"
    by (auto simp: createCert_def split: prod.splits sum.splits)
  from crypto_ok_cert [OF assms(1) der(1) assms(3)] der(2,3) show ?thesis by auto
qed

text \<open>The templates: both readings of the clock are no earlier than the call.\<close>

lemma createTransportCertTemplate_ok:
  assumes "crypto_ok c" and "createTransportCertTemplate c d sans w = (Inr tmpl, w')"
  shows "\<exists>n nb na. tmpl = transport_template n nb na sans \<and> n < serialNumberLimit \<and> Now c w \<le> nb \<and> nb + d \<le> na"
  using assms crypto_ok_clock(2,3) [OF assms(1)] crypto_ok_rand [OF assms(1), of serialNumberLimit w]
  by (fastforce simp: createTransportCertTemplate_def createCertTemplate_def transport_template_def Let_def split: prod.splits sum.splits)

lemma createCACertTemplate_ok:
  assumes "crypto_ok c" and "createCACertTemplate c d w = (Inr tmpl, w')"
  shows "\<exists>n nb na. tmpl = ca_template n nb na \<and> Now c w \<le> nb \<and> nb + d \<le> na"
  using assms crypto_ok_clock(2,3) [OF assms(1)]
  by (fastforce simp: createCACertTemplate_def createCertTemplate_def ca_template_def Let_def split: prod.splits sum.splits)

lemma CreateCert_ok:
  assumes "crypto_ok c" and "CreateCert c caKey caCert d sans w = (Inr kp, w')"
  shows "\<exists>cert k. KeyPair_Parse c kp = Inr (cert, k) \<and> DNSNames cert = sans \<and> \<not> IsCA cert \<and>
    CertExtKeyUsage cert = [ExtKeyUsageServerAuth, ExtKeyUsageClientAuth] \<and>
    Now c w + d - second < NotAfter cert \<and> SerialNumber cert < serialNumberLimit"
proof -
  obtain k w1 tmpl w2 cert pem where g: "GenerateKey c w = (Inr k, w1)" and t: "createTransportCertTemplate c d sans w1 = (Inr tmpl, w2)"
    and cr: "createCert c tmpl caCert k caKey w2 = (Inr (cert, pem), w')"
    and kp: "kp = NewKeyPair c \<lparr>block_Type = ''RSA PRIVATE KEY'', block_Bytes = MarshalPKCS1PrivateKey c k\<rparr> pem"
    using assms(2) by (auto simp: CreateCert_def split: prod.splits sum.splits)
  from createTransportCertTemplate_ok [OF assms(1) t] obtain n nb na where
    tmpl: "tmpl = transport_template n nb na sans" "n < serialNumberLimit" "Now c w1 \<le> nb" "nb + d \<le> na" by blast
  from createCert_parses [OF assms(1) cr, of n nb na sans] tmpl(1) obtain der where
    cert: "issued_from tmpl cert" "ParseCertificate c der = Inr cert" "pem = \<lparr>block_Type = ''CERTIFICATE'', block_Bytes = der\<rparr>" by auto
  have "KeyPair_Parse c kp = Inr (cert, k)" unfolding kp cert(3) by (rule ParseCert_NewKeyPair [OF assms(1) cert(2)])
  moreover have "Now c w + d - second < to_seconds na" using crypto_ok_clock(1) [OF assms(1) g] tmpl(3,4) to_seconds_bounds(1) [of na] by linarith
  ultimately show ?thesis using cert(1) tmpl(2) by (auto simp: issued_from_def tmpl(1) transport_template_def)
qed

lemma CreateCACerts_ok:
  assumes "crypto_ok c" and "CreateCACerts c d w = (Inr kp, w')"
  shows "\<exists>cert k. KeyPair_Parse c kp = Inr (cert, k) \<and> DNSNames cert = [] \<and> IsCA cert \<and>
    CertKeyUsage cert = Some KeyUsageCertSign \<and> Now c w + d - second < NotAfter cert"
proof -
  obtain k w1 tmpl w2 cert pem where g: "GenerateKey c w = (Inr k, w1)" and t: "createCACertTemplate c d w1 = (Inr tmpl, w2)"
    and cr: "createCert c tmpl tmpl k k w2 = (Inr (cert, pem), w')"
    and kp: "kp = NewKeyPair c \<lparr>block_Type = ''RSA PRIVATE KEY'', block_Bytes = MarshalPKCS1PrivateKey c k\<rparr> pem"
    using assms(2) by (auto simp: CreateCACerts_def split: prod.splits sum.splits)
  from createCACertTemplate_ok [OF assms(1) t] obtain n nb na where
    tmpl: "tmpl = ca_template n nb na" "Now c w1 \<le> nb" "nb + d \<le> na" by blast
  from createCert_parses [OF assms(1) cr, of n nb na] tmpl(1) obtain der where
    cert: "issued_from tmpl cert" "ParseCertificate c der = Inr cert" "pem = \<lparr>block_Type = ''CERTIFICATE'', block_Bytes = der\<rparr>" by auto
  have "KeyPair_Parse c kp = Inr (cert, k)" unfolding kp cert(3) by (rule ParseCert_NewKeyPair [OF assms(1) cert(2)])
  moreover have "Now c w + d - second < to_seconds na" using crypto_ok_clock(1) [OF assms(1) g] tmpl(2,3) to_seconds_bounds(1) [of na] by linarith
  ultimately show ?thesis using cert(1) by (auto simp: issued_from_def tmpl(1) ca_template_def)
qed

subsection \<open>A small instance of the libraries\<close>

text \<open>
  Used by the examples: the world is the clock, keys are numbers, a PEM block is its type's length
  in unary, the type and the bytes, and only these two certificates are issued, at time zero.
\<close>

definition toy_cert :: Certificate where
  "toy_cert = \<lparr>SerialNumber = 1, CertSignatureAlgorithm = SHA256WithRSA, NotBefore = 0, NotAfter = 24 * 30 * hour, BasicConstraintsValid = True,
     DNSNames = [ControlPlaneName, LegacyFakeDnsName], IsCA = False, CertKeyUsage = Some KeyUsageDigitalSignature,
     CertExtKeyUsage = [ExtKeyUsageServerAuth, ExtKeyUsageClientAuth], SubjectOrganization = [Organization],
     SubjectCommonName = ''control-protocol-certificate''\<rparr>"

definition toy_ca :: Certificate where
  "toy_ca = toy_cert\<lparr>NotAfter := 24 * 365 * 10 * hour, DNSNames := [], IsCA := True, CertKeyUsage := Some KeyUsageCertSign,
     CertExtKeyUsage := [], SubjectCommonName := ''''\<rparr>"

definition toy_encode :: "pem_Block \<Rightarrow> bytes" where
  "toy_encode b = replicate (length (block_Type b)) 1 @ [0] @ bytes_of_string (block_Type b) @ block_Bytes b"

definition toy_decode :: "bytes \<Rightarrow> pem_Block option" where
  "toy_decode bs = (let n = length (takeWhile (\<lambda>x. x = 1) bs); r = drop (Suc n) bs
     in Some \<lparr>block_Type = string_of_bytes (take n r), block_Bytes = drop n r\<rparr>)"

definition toy_crypto :: "(nat, int) crypto" where
  "toy_crypto = \<lparr>Now = \<lambda>w. w, time_passes = \<lambda>w. w, rand_Int = \<lambda>n w. (if 1 < n then Inr 1 else Inl (ErrorString ''no such number''), w), GenerateKey = \<lambda>w. (Inr 5, w),
     CreateCertificate = \<lambda>tmpl parent pub priv w.
       if tmpl = toy_cert then (Inr [1], w) else if tmpl = toy_ca then (Inr [2], w)
       else (Inl (ErrorString ''not issued''), w),
     ParseCertificate = \<lambda>der. if der = [1] then Inr toy_cert else Inr toy_ca,
     MarshalPKCS1PrivateKey = \<lambda>k. replicate k 1, ParsePKCS1PrivateKey = \<lambda>bs. Inr (length bs),
     EncodeToMemory = toy_encode, pem_Decode = toy_decode, Time_String = \<lambda>t. ''''\<rparr>"

lemma toy_decode_encode: "toy_decode (toy_encode b) = Some b"
proof -
  have "takeWhile (\<lambda>x. x = 1) (replicate n 1 @ (0 :: byte) # xs) = replicate n 1" for n xs
    by (induction n) auto
  then show ?thesis by (simp add: toy_decode_def toy_encode_def Let_def)
qed

lemma toy_crypto_ok: "crypto_ok toy_crypto"
proof -
  have "issued_from toy_cert toy_cert" "issued_from toy_ca toy_ca"
    by (simp_all add: issued_from_def toy_ca_def toy_cert_def to_seconds_def hour_def second_def)
  then show ?thesis by (auto simp: crypto_ok_def toy_crypto_def toy_decode_encode split: if_splits)
qed

lemma toy_CreateCert:
  "\<exists>kp. CreateCert toy_crypto 5 toy_ca (24 * 30 * hour) [ControlPlaneName, LegacyFakeDnsName] 0 = (Inr kp, 0)"
proof -
  have "createTransportCertTemplate toy_crypto (24 * 30 * hour) [ControlPlaneName, LegacyFakeDnsName] 0 = (Inr toy_cert, 0)"
    by (simp add: createTransportCertTemplate_def createCertTemplate_def toy_crypto_def toy_cert_def serialNumberLimit_def)
  then show ?thesis by (simp add: CreateCert_def createCert_def toy_crypto_def)
qed

lemma toy_CreateCACerts: "\<exists>kp. CreateCACerts toy_crypto (24 * 365 * 10 * hour) 0 = (Inr kp, 0)"
proof -
  have "createCACertTemplate toy_crypto (24 * 365 * 10 * hour) 0 = (Inr toy_ca, 0)"
    by (simp add: createCACertTemplate_def createCertTemplate_def toy_crypto_def toy_ca_def toy_cert_def serialNumberLimit_def)
  then show ?thesis by (simp add: CreateCACerts_def createCert_def toy_crypto_def)
qed

section \<open>Properties\<close>

text \<open>
  A certificate that \<open>CreateCert\<close> returns can be parsed back from the bytes of its key pair; it
  has exactly the requested alternative names, is usable for both ends of a connection but not for
  signing, has a serial number below the limit, and lives at least the requested interval less one
  second.
\<close>

lemma created_cert_parses:
  assumes "crypto_ok c" and "CreateCert c caKey caCert d sans w = (Inr kp, w')"
  shows "\<exists>cert k. KeyPair_Parse c kp = Inr (cert, k) \<and> DNSNames cert = sans \<and> \<not> IsCA cert \<and>
    CertExtKeyUsage cert = [ExtKeyUsageServerAuth, ExtKeyUsageClientAuth] \<and>
    Now c w + d - second < NotAfter cert \<and> SerialNumber cert < serialNumberLimit"
  using CreateCert_ok [OF assms] .

end
