(* ===== verification/Cert_Reconciler.thy ===== *)
theory Cert_Reconciler
  imports Certificates
begin

text \<open>
  \<open>pkg/certificates/reconciler/certificates.go\<close>: the reconciler that fills the secrets of a component
  with certificates signed by its CA, and rotates them before they expire.

  The Kubernetes client, the lister, the work queue and the namespace of the system are fields of
  the reconciler, as in the code; they act on the world \<open>'w\<close> of the cryptographic libraries.  Calls that only look at the
  world read its clock at one moment.
\<close>

section \<open>Secrets\<close>

record Secret =
  Namespace :: string
  Name :: string
  Labels :: "(string, string) fmap"
  Data :: "(string, bytes option) fmap"
  Finalizers :: "string list"
  Deleted :: bool
  ResourceVersion :: string

text \<open>\<open>secret.Data[key]\<close>: nil for a missing key.  As an argument, nil is an empty slice.\<close>

definition data_bytes :: "Secret \<Rightarrow> string \<Rightarrow> bytes option" where
  "data_bytes secret k = (case fmlookup (Data secret) k of None \<Rightarrow> None | Some b \<Rightarrow> b)"

definition nil_as_empty :: "bytes option \<Rightarrow> bytes" where
  "nil_as_empty b = (case b of None \<Rightarrow> [] | Some bs \<Rightarrow> bs)"

datatype lookup_result = Found Secret | NotFound | LookupError go_error

section \<open>The reconciler\<close>

definition caExpirationInterval :: Duration where "caExpirationInterval = hour * 24 * 365 * 10"
definition expirationInterval :: Duration where "expirationInterval = hour * 24 * 30"
definition rotationThreshold :: Duration where "rotationThreshold = 24 * hour"
definition controlPlaneSecretType :: string where "controlPlaneSecretType = ''control-plane''"
definition dataPlaneRoutingSecretType :: string where "dataPlaneRoutingSecretType = ''data-plane-routing''"
definition dataPlaneUserSecretType :: string where "dataPlaneUserSecretType = ''data-plane-user''"
definition dataPlaneDeprecatedSecretType :: string where "dataPlaneDeprecatedSecretType = ''data-plane''"
definition secretRoutingId :: string where "secretRoutingId = ''routing-id''"

lemmas type_defs = controlPlaneSecretType_def dataPlaneRoutingSecretType_def dataPlaneUserSecretType_def
  dataPlaneDeprecatedSecretType_def secretRoutingId_def

record 'w reconciler =
  client_Update :: "Secret \<Rightarrow> 'w \<Rightarrow> go_error option \<times> 'w"
  secretLister :: "string \<Rightarrow> string \<Rightarrow> 'w \<Rightarrow> lookup_result"
  caSecretName :: string
  secretTypeLabelName :: string
  enqueueAfter :: "string \<times> string \<Rightarrow> Duration \<Rightarrow> 'w \<Rightarrow> 'w"
  system_Namespace :: string

definition shouldReconcile :: "'w reconciler \<Rightarrow> Secret \<Rightarrow> bool" where
  "shouldReconcile r secret \<longleftrightarrow>
     \<not> (Name secret = caSecretName r \<and> Namespace secret = system_Namespace r) \<and>
     fmlookup (Labels secret) (secretTypeLabelName r) \<noteq> None"

text \<open>The lookup of a missing key in a Go map gives the zero value.\<close>

definition label :: "Secret \<Rightarrow> string \<Rightarrow> string" where
  "label secret k = (case fmlookup (Labels secret) k of None \<Rightarrow> '''' | Some v \<Rightarrow> v)"

text \<open>The \<open>switch\<close> on the type of the secret; \<open>None\<close> is its default case.\<close>

definition sansFor :: "'w reconciler \<Rightarrow> Secret \<Rightarrow> string list option" where
  "sansFor r secret =
     (let ty = label secret (secretTypeLabelName r)
      in if ty = controlPlaneSecretType then Some [ControlPlaneName, LegacyFakeDnsName]
         else if ty = dataPlaneRoutingSecretType
         then Some [DataPlaneRoutingName (label secret secretRoutingId), LegacyFakeDnsName]
         else if ty = dataPlaneUserSecretType then Some [DataPlaneUserName (Namespace secret), LegacyFakeDnsName]
         else if ty = dataPlaneDeprecatedSecretType then Some [LegacyFakeDnsName]
         else None)"

definition parseAndValidateSecret ::
  "('k, 'w) crypto \<Rightarrow> Secret \<Rightarrow> bytes option \<Rightarrow> string list \<Rightarrow> 'w \<Rightarrow> go_error + Certificate \<times> 'k" where
  "parseAndValidateSecret c secret caCert sans w =
     (case fmlookup (Data secret) SecretCertKey of
        None \<Rightarrow> Inl (ErrorString ''missing cert bytes'')
      | Some certBytes \<Rightarrow>
     (case fmlookup (Data secret) SecretPKKey of
        None \<Rightarrow> Inl (ErrorString ''missing pk bytes'')
      | Some pkBytes \<Rightarrow>
          let validate = (case ParseCert c (nil_as_empty certBytes) (nil_as_empty pkBytes) of
                Inl err \<Rightarrow> Inl err
              | Inr (cert, caPk) \<Rightarrow>
                  (case ValidateCert c cert rotationThreshold w of
                     Some err \<Rightarrow> Inl err
                   | None \<Rightarrow>
                       if set sans \<noteq> set (DNSNames cert) then Inl (ErrorString ''unexpected SANs'')
                       else Inr (cert, caPk)))
          in (case caCert of
                None \<Rightarrow> validate
              | Some want \<Rightarrow>
                  (case fmlookup (Data secret) SecretCaCertKey of
                     None \<Rightarrow> Inl (ErrorString ''missing ca cert bytes'')
                   | Some ca \<Rightarrow> if nil_as_empty ca \<noteq> want then Inl (ErrorString ''ca cert bytes changed'') else validate))))"

definition updatedSecret :: "Secret \<Rightarrow> KeyPair \<Rightarrow> bytes option \<Rightarrow> Secret" where
  "updatedSecret secret keyPair caCert =
     (let cert = Some (CertBytes keyPair); pk = Some (PrivateKeyBytes keyPair);
          data = fmupd SecretPKKey pk (fmupd SecretCertKey cert (fmupd PrivateKeyName pk (fmupd CertName cert fmempty)))
      in secret\<lparr>Data := (case caCert of
                           None \<Rightarrow> data
                         | Some _ \<Rightarrow> fmupd CaCertName caCert (fmupd SecretCaCertKey caCert data))\<rparr>)"

definition commitUpdatedSecret ::
  "'w reconciler \<Rightarrow> Secret \<Rightarrow> KeyPair \<Rightarrow> bytes option \<Rightarrow> 'w \<Rightarrow> go_error option \<times> 'w" where
  "commitUpdatedSecret r secret keyPair caCert = client_Update r (updatedSecret secret keyPair caCert)"

text \<open>When a certificate is to be looked at again: just after it enters the rotation threshold.\<close>

definition rotationTime :: "Certificate \<Rightarrow> Time" where
  "rotationTime cert = NotAfter cert - rotationThreshold + second"

definition enqueueBeforeExpiration ::
  "('k, 'w) crypto \<Rightarrow> 'w reconciler \<Rightarrow> Secret \<Rightarrow> Certificate \<Rightarrow> 'w \<Rightarrow> 'w" where
  "enqueueBeforeExpiration c r secret cert w =
     enqueueAfter r (Namespace secret, Name secret) (rotationTime cert - Now c w) w"

definition ReconcileKind ::
  "('k, 'w) crypto \<Rightarrow> 'w reconciler \<Rightarrow> Secret \<Rightarrow> 'w \<Rightarrow> go_error option \<times> 'w" where
  "ReconcileKind c r secret w =
     (if \<not> shouldReconcile r secret then (None, w)
      else case secretLister r (system_Namespace r) (caSecretName r) w of
        NotFound \<Rightarrow> (None, w)
      | LookupError err \<Rightarrow> (Some err, w)
      | Found caSecret \<Rightarrow>
          (case parseAndValidateSecret c caSecret None [] w of
             Inl _ \<Rightarrow>
               (case CreateCACerts c caExpirationInterval w of
                  (Inl err, w1) \<Rightarrow> (Some (ErrorString (''cannot generate the CA cert: '' @ error_text err)), w1)
                | (Inr keyPair, w1) \<Rightarrow> commitUpdatedSecret r caSecret keyPair None w1)
           | Inr (caCert, caPk) \<Rightarrow>
               (case sansFor r secret of
                  None \<Rightarrow> (Some (ErrorString (''unknown cert type: '' @ secretTypeLabelName r)), w)
                | Some sans \<Rightarrow>
                    let caBytes = data_bytes caSecret SecretCertKey
                    in (case parseAndValidateSecret c secret caBytes sans w of
                          Inr (cert, _) \<Rightarrow> (None, enqueueBeforeExpiration c r secret cert w)
                        | Inl _ \<Rightarrow>
                            (case CreateCert c caPk caCert expirationInterval sans w of
                               (Inl err, w1) \<Rightarrow> (Some (ErrorString (''cannot generate the cert: '' @ error_text err)), w1)
                             | (Inr keyPair, w1) \<Rightarrow>
                                 (case commitUpdatedSecret r secret keyPair caBytes w1 of
                                    (Some err, w2) \<Rightarrow> (Some err, w2)
                                  | (None, w2) \<Rightarrow>
                                      (case ParseCert c (CertBytes keyPair) (PrivateKeyBytes keyPair) of
                                         Inl err \<Rightarrow> (Some err, w2)
                                       | Inr (cert, _) \<Rightarrow> (None, enqueueBeforeExpiration c r secret cert w2))))))))"

section \<open>Lemmas\<close>

lemma data_keys_distinct [simp]:
  "SecretCertKey \<noteq> SecretPKKey" "SecretCertKey \<noteq> SecretCaCertKey" "SecretPKKey \<noteq> SecretCaCertKey"
  "SecretCertKey \<noteq> CaCertName" "SecretPKKey \<noteq> CaCertName" "SecretCaCertKey \<noteq> CaCertName"
  by (simp_all add: name_defs)

lemma updatedSecret_data:
  "fmlookup (Data (updatedSecret s kp ca)) SecretCertKey = Some (Some (certPemBytes kp))"
  "fmlookup (Data (updatedSecret s kp ca)) SecretPKKey = Some (Some (privateKeyPemBytes kp))"
  "ca = Some b \<Longrightarrow> fmlookup (Data (updatedSecret s kp ca)) SecretCaCertKey = Some (Some b)"
  using data_keys_distinct [symmetric]
  by (auto simp: updatedSecret_def Let_def CertBytes_def PrivateKeyBytes_def split: option.splits)

lemma updatedSecret_meta [simp]:
  "Labels (updatedSecret s kp ca) = Labels s" "Name (updatedSecret s kp ca) = Name s"
  "Namespace (updatedSecret s kp ca) = Namespace s"
  by (simp_all add: updatedSecret_def Let_def)

lemma sansFor_updated [simp]: "sansFor r (updatedSecret s kp ca) = sansFor r s"
  by (simp add: sansFor_def label_def Let_def)

lemma shouldReconcile_updated [simp]: "shouldReconcile r (updatedSecret s kp ca) = shouldReconcile r s"
  by (simp add: shouldReconcile_def)

lemma ValidateCert_iff: "ValidateCert c cert d w = None \<longleftrightarrow> Now c w + d < NotAfter cert"
  by (simp add: ValidateCert_def)

text \<open>A secret just written validates as long as its certificate is outside the rotation threshold.\<close>

lemma updatedSecret_validates:
  assumes "KeyPair_Parse c kp = Inr (cert, k)" and "set (DNSNames cert) = set sans"
    and "Now c w + rotationThreshold < NotAfter cert"
  shows "parseAndValidateSecret c (updatedSecret s kp ca) ca sans w = Inr (cert, k)"
  using assms ValidateCert_iff [of c cert rotationThreshold w]
  by (cases ca) (auto simp: parseAndValidateSecret_def updatedSecret_data KeyPair_Parse_def nil_as_empty_def Let_def)

lemma parseAndValidateSecret_fresh:
  "parseAndValidateSecret c s ca sans w = Inr (cert, k) \<Longrightarrow>
     Now c w + rotationThreshold < NotAfter cert \<and> set (DNSNames cert) = set sans"
  by (auto simp: parseAndValidateSecret_def Let_def ValidateCert_def split: option.splits sum.splits if_splits prod.splits)

text \<open>As time passes a secret validates up to one second before its rotation time, and never after.\<close>

lemma rotationTime_eq: "rotationTime cert = NotAfter cert - (24 * hour - second)"
  by (simp add: rotationTime_def rotationThreshold_def)

lemma ValidateCert_rotationTime: "ValidateCert c cert rotationThreshold u = None \<longleftrightarrow> Now c u < rotationTime cert - second"
  by (auto simp: ValidateCert_def rotationTime_def)

lemma parseAndValidateSecret_at:
  assumes "parseAndValidateSecret c s ca sans w = Inr (cert, k)"
  shows "parseAndValidateSecret c s ca sans u = (case ValidateCert c cert rotationThreshold u of Some err \<Rightarrow> Inl err | None \<Rightarrow> Inr (cert, k))"
  using assms unfolding parseAndValidateSecret_def Let_def
  by (auto split: option.split_asm sum.split_asm prod.split_asm if_split_asm)

lemma updatedSecret_at:
  assumes "KeyPair_Parse c kp = Inr (cert, k)" and "set (DNSNames cert) = set sans"
  shows "parseAndValidateSecret c (updatedSecret s kp ca) ca sans u =
    (case ValidateCert c cert rotationThreshold u of Some err \<Rightarrow> Inl err | None \<Rightarrow> Inr (cert, k))"
  using assms by (cases ca) (simp_all add: parseAndValidateSecret_def updatedSecret_data KeyPair_Parse_def nil_as_empty_def Let_def)

lemma validates_until:
  assumes "\<And>u. parseAndValidateSecret c s ca sans u = (case ValidateCert c cert rotationThreshold u of Some err \<Rightarrow> Inl err | None \<Rightarrow> Inr (cert, k))"
  shows "parseAndValidateSecret c s ca sans u = Inr (cert, k) \<longleftrightarrow> Now c u < rotationTime cert - second"
    and "rotationTime cert - second \<le> Now c u \<Longrightarrow> \<exists>err. parseAndValidateSecret c s ca sans u = Inl err"
  using assms [of u] ValidateCert_rotationTime [of c cert u] by (auto split: option.splits)

text \<open>With a valid CA and a known type, only the state of the secret decides.\<close>

lemma ReconcileKind_valid_ca:
  assumes "shouldReconcile r secret" and "secretLister r (system_Namespace r) (caSecretName r) w = Found caSecret"
    and "parseAndValidateSecret c caSecret None [] w = Inr (caCert, caPk)" and "sansFor r secret = Some sans"
  shows "ReconcileKind c r secret w =
    (case parseAndValidateSecret c secret (data_bytes caSecret SecretCertKey) sans w of
       Inr (cert, _) \<Rightarrow> (None, enqueueBeforeExpiration c r secret cert w)
     | Inl _ \<Rightarrow>
         (case CreateCert c caPk caCert expirationInterval sans w of
            (Inl err, w1) \<Rightarrow> (Some (ErrorString (''cannot generate the cert: '' @ error_text err)), w1)
          | (Inr kp, w1) \<Rightarrow>
              (case client_Update r (updatedSecret secret kp (data_bytes caSecret SecretCertKey)) w1 of
                 (Some err, w2) \<Rightarrow> (Some err, w2)
               | (None, w2) \<Rightarrow>
                   (case KeyPair_Parse c kp of
                      Inl err \<Rightarrow> (Some err, w2)
                    | Inr (cert, _) \<Rightarrow> (None, enqueueBeforeExpiration c r secret cert w2)))))"
  using assms
  by (simp add: ReconcileKind_def commitUpdatedSecret_def KeyPair_Parse_def CertBytes_def PrivateKeyBytes_def Let_def split: sum.split prod.split)

text \<open>The two ways in which \<open>ReconcileKind\<close> then returns nil.\<close>

lemma ReconcileKind_nil:
  assumes "crypto_ok c" and "shouldReconcile r secret" and "secretLister r (system_Namespace r) (caSecretName r) w = Found caSecret"
    and "parseAndValidateSecret c caSecret None [] w = Inr (caCert, caPk)" and "sansFor r secret = Some sans"
  defines "ca \<equiv> data_bytes caSecret SecretCertKey"
  shows "ReconcileKind c r secret w = (None, w') \<longleftrightarrow>
    (\<exists>cert k. parseAndValidateSecret c secret ca sans w = Inr (cert, k) \<and> w' = enqueueBeforeExpiration c r secret cert w) \<or>
    (\<exists>err kp w1 w2 cert k. parseAndValidateSecret c secret ca sans w = Inl err \<and>
       CreateCert c caPk caCert expirationInterval sans w = (Inr kp, w1) \<and> client_Update r (updatedSecret secret kp ca) w1 = (None, w2) \<and>
       KeyPair_Parse c kp = Inr (cert, k) \<and> w' = enqueueBeforeExpiration c r secret cert w2)"
  unfolding ReconcileKind_valid_ca [OF assms(2-5)] ca_def by (auto split: sum.splits prod.splits option.splits)

text \<open>And the ways in which it returns an error.\<close>

lemma ReconcileKind_error:
  assumes "crypto_ok c" and "shouldReconcile r secret" and "secretLister r (system_Namespace r) (caSecretName r) w = Found caSecret"
    and "parseAndValidateSecret c caSecret None [] w = Inr (caCert, caPk)" and "sansFor r secret = Some sans"
    and "ReconcileKind c r secret w = (Some e, w')"
  shows "\<exists>err. parseAndValidateSecret c secret (data_bytes caSecret SecretCertKey) sans w = Inl err"
    and "CreateCert c caPk caCert expirationInterval sans w = (Inr kp, w1) \<Longrightarrow>
      client_Update r (updatedSecret secret kp (data_bytes caSecret SecretCertKey)) w1 \<noteq> (None, w2)"
proof -
  let ?ca = "data_bytes caSecret SecretCertKey"
  show stale: "\<exists>err. parseAndValidateSecret c secret ?ca sans w = Inl err"
    using assms(6) unfolding ReconcileKind_valid_ca [OF assms(2-5)] by (cases "parseAndValidateSecret c secret ?ca sans w") auto
  show "client_Update r (updatedSecret secret kp ?ca) w1 \<noteq> (None, w2)" if kp: "CreateCert c caPk caCert expirationInterval sans w = (Inr kp, w1)"
  proof
    assume "client_Update r (updatedSecret secret kp ?ca) w1 = (None, w2)"
    moreover obtain cert k where "KeyPair_Parse c kp = Inr (cert, k)" using CreateCert_ok [OF assms(1) kp] by blast
    ultimately have "fst (ReconcileKind c r secret w) = None"
      unfolding ReconcileKind_valid_ca [OF assms(2-5)] using stale kp by auto
    with assms(6) show False by simp
  qed
qed

text \<open>The branch of \<open>ReconcileKind\<close> that renews the secret.\<close>

lemma ReconcileKind_renews:
  assumes "shouldReconcile r secret" and "secretLister r (system_Namespace r) (caSecretName r) w = Found caSecret"
    and "parseAndValidateSecret c caSecret None [] w = Inr (caCert, caPk)" and "sansFor r secret = Some sans"
    and "parseAndValidateSecret c secret (data_bytes caSecret SecretCertKey) sans w = Inl err"
    and "CreateCert c caPk caCert expirationInterval sans w = (Inr kp, w1)"
    and "client_Update r (updatedSecret secret kp (data_bytes caSecret SecretCertKey)) w1 = (None, w2)"
    and "KeyPair_Parse c kp = Inr (cert, k)"
  shows "ReconcileKind c r secret w = (None, enqueueBeforeExpiration c r secret cert w2)"
  using assms by (simp add: ReconcileKind_valid_ca [OF assms(1-4)])

text \<open>The branch that finds nothing to do.\<close>

lemma ReconcileKind_stable:
  assumes "shouldReconcile r secret" and "secretLister r (system_Namespace r) (caSecretName r) w = Found caSecret"
    and "parseAndValidateSecret c caSecret None [] w = Inr (caCert, caPk)" and "sansFor r secret = Some sans"
    and "parseAndValidateSecret c secret (data_bytes caSecret SecretCertKey) sans w = Inr (cert, k)"
  shows "ReconcileKind c r secret w = (None, enqueueBeforeExpiration c r secret cert w)"
  using assms by (simp add: ReconcileKind_valid_ca [OF assms(1-4)])

subsection \<open>An example\<close>

definition toy_ca_secret :: Secret where
  "toy_ca_secret = \<lparr>Namespace = ''sys'', Name = ''ca'', Labels = fmempty,
     Data = fmupd SecretCertKey (Some (toy_encode \<lparr>block_Type = ''CERTIFICATE'', block_Bytes = [2]\<rparr>))
              (fmupd SecretPKKey (Some (toy_encode \<lparr>block_Type = ''RSA PRIVATE KEY'', block_Bytes = [1, 1, 1, 1, 1]\<rparr>)) fmempty),
     Finalizers = [], Deleted = False, ResourceVersion = ''1''\<rparr>"

definition toy_secret :: Secret where
  "toy_secret = \<lparr>Namespace = ''ns'', Name = ''certs'', Labels = fmupd ''ctrl'' controlPlaneSecretType fmempty,
     Data = fmempty, Finalizers = [], Deleted = False, ResourceVersion = ''1''\<rparr>"

definition toy_reconciler :: "int reconciler" where
  "toy_reconciler = \<lparr>client_Update = \<lambda>s w. (None, w), secretLister = \<lambda>ns name w. Found toy_ca_secret, caSecretName = ''ca'',
     secretTypeLabelName = ''ctrl'', enqueueAfter = \<lambda>key d w. w, system_Namespace = ''sys''\<rparr>"

lemma toy_ca_valid:
  assumes "w + 24 * hour < 24 * 365 * 10 * hour"
  shows "parseAndValidateSecret toy_crypto toy_ca_secret None [] w = Inr (toy_ca, 5)"
proof -
  have "ParseCert toy_crypto (toy_encode \<lparr>block_Type = ''CERTIFICATE'', block_Bytes = [2]\<rparr>)
      (toy_encode \<lparr>block_Type = ''RSA PRIVATE KEY'', block_Bytes = [1, 1, 1, 1, 1]\<rparr>) = Inr (toy_ca, 5)"
    by (simp add: ParseCert_def toy_crypto_def toy_decode_encode)
  moreover have "ValidateCert toy_crypto toy_ca rotationThreshold w = None"
    using assms by (simp add: ValidateCert_def toy_crypto_def toy_ca_def rotationThreshold_def)
  ultimately show ?thesis
    using data_keys_distinct(1) [symmetric]
    by (simp add: parseAndValidateSecret_def toy_ca_secret_def nil_as_empty_def Let_def toy_ca_def)
qed

lemma toy_setting:
  "shouldReconcile toy_reconciler toy_secret"
  "secretLister toy_reconciler (system_Namespace toy_reconciler) (caSecretName toy_reconciler) w = Found toy_ca_secret"
  "sansFor toy_reconciler toy_secret = Some [ControlPlaneName, LegacyFakeDnsName]"
  "parseAndValidateSecret c toy_secret ca sans v = Inl (ErrorString ''missing cert bytes'')"
  "client_Update toy_reconciler s w = (None, w)"
  by (simp_all add: shouldReconcile_def toy_reconciler_def toy_secret_def sansFor_def label_def Let_def
      parseAndValidateSecret_def)

section \<open>Properties\<close>

text \<open>
  C8. Reconciliation converges: when the secret of a component is missing, expired, signed by
  another CA or has other names, the CA is valid, and certificate and update succeed, then
  \<open>ReconcileKind\<close> returns nil, and reconciling the secret it wrote at any later time, until the
  certificate enters the rotation threshold, finds nothing to change: it only schedules the next
  look.  The certificate has exactly the names that the type of the secret asks for.
\<close>

theorem reconcile_converges:
  assumes "crypto_ok c" and "shouldReconcile r secret"
    and "secretLister r (system_Namespace r) (caSecretName r) w = Found caSecret"
    and "parseAndValidateSecret c caSecret None [] w = Inr (caCert, caPk)" and "sansFor r secret = Some sans"
    and "parseAndValidateSecret c secret (data_bytes caSecret SecretCertKey) sans w = Inl err"
    and "CreateCert c caPk caCert expirationInterval sans w = (Inr kp, w1)"
    and "s' = updatedSecret secret kp (data_bytes caSecret SecretCertKey)"
    and "client_Update r s' w1 = (None, w2)"
    and "secretLister r (system_Namespace r) (caSecretName r) later = Found caSecret"
    and "parseAndValidateSecret c caSecret None [] later = Inr (caCert, caPk)"
    and "Now c later + rotationThreshold \<le> Now c w + expirationInterval - second"
  shows "\<exists>cert. ReconcileKind c r secret w = (None, enqueueBeforeExpiration c r secret cert w2) \<and>
    ReconcileKind c r s' later = (None, enqueueBeforeExpiration c r s' cert later) \<and> DNSNames cert = sans"
proof -
  obtain cert k where cert: "KeyPair_Parse c kp = Inr (cert, k)" "DNSNames cert = sans"
    "Now c w + expirationInterval - second < NotAfter cert"
    using CreateCert_ok [OF assms(1,7)] by blast
  have "ReconcileKind c r secret w = (None, enqueueBeforeExpiration c r secret cert w2)"
    by (rule ReconcileKind_renews [OF assms(2-7) _ cert(1)]) (use assms(8,9) in simp)
  moreover have "parseAndValidateSecret c s' (data_bytes caSecret SecretCertKey) sans later = Inr (cert, k)"
    unfolding assms(8) by (rule updatedSecret_validates [OF cert(1)]) (use cert(2,3) assms(12) in simp_all)
  then have "ReconcileKind c r s' later = (None, enqueueBeforeExpiration c r s' cert later)"
    by (intro ReconcileKind_stable [OF _ assms(10,11)]) (use assms(2,5,8) in simp_all)
  ultimately show ?thesis using cert(2) by blast
qed

theorem reconcile_converges_witness:
  "\<exists>s'. ReconcileKind toy_crypto toy_reconciler toy_secret 0 = (None, 0) \<and>
     ReconcileKind toy_crypto toy_reconciler s' hour = (None, hour) \<and> Data s' \<noteq> Data toy_secret"
proof -
  obtain kp where kp: "CreateCert toy_crypto 5 toy_ca expirationInterval [ControlPlaneName, LegacyFakeDnsName] 0 = (Inr kp, 0)"
    using toy_CreateCert by (auto simp: expirationInterval_def ac_simps)
  let ?s' = "updatedSecret toy_secret kp (data_bytes toy_ca_secret SecretCertKey)"
  have ca: "parseAndValidateSecret toy_crypto toy_ca_secret None [] 0 = Inr (toy_ca, 5)"
    "parseAndValidateSecret toy_crypto toy_ca_secret None [] hour = Inr (toy_ca, 5)"
    by (rule toy_ca_valid; simp add: hour_def second_def)+
  have now: "Now toy_crypto w = w" for w by (simp add: toy_crypto_def)
  have enq: "enqueueBeforeExpiration toy_crypto toy_reconciler s cert w = w" for s cert w
    by (simp add: enqueueBeforeExpiration_def toy_reconciler_def)
  have "\<exists>cert. ReconcileKind toy_crypto toy_reconciler toy_secret 0 =
        (None, enqueueBeforeExpiration toy_crypto toy_reconciler toy_secret cert 0) \<and>
      ReconcileKind toy_crypto toy_reconciler ?s' hour =
        (None, enqueueBeforeExpiration toy_crypto toy_reconciler ?s' cert hour) \<and>
      DNSNames cert = [ControlPlaneName, LegacyFakeDnsName]"
    by (rule reconcile_converges [OF toy_crypto_ok toy_setting(1,2) ca(1) toy_setting(3,4) kp refl toy_setting(5,2) ca(2)])
       (simp add: now rotationThreshold_def expirationInterval_def hour_def second_def)
  moreover have "Data ?s' \<noteq> Data toy_secret"
    using updatedSecret_data(1) [of toy_secret kp "data_bytes toy_ca_secret SecretCertKey"]
    by (auto simp: toy_secret_def)
  ultimately show ?thesis unfolding enq by blast
qed

text \<open>
  C30. Rotation is in time.  Whenever \<open>ReconcileKind\<close> returns nil for a secret of a known type under a valid CA, its last act is to
  enqueue the key of the secret, for a moment that is 24 hours less one second before the end of the certificate
  now in the secret, which is either the one it had or the one just written.  From that moment on, and as soon as one second before, this
  secret no longer validates, so that it is renewed while its certificate still holds; before, it validates.  The delay is
  positive when the secret was valid, and after a renewal unless 29 days have passed during the call.
\<close>

theorem rotation_is_scheduled_in_time:
  assumes "crypto_ok c" and "shouldReconcile r secret"
    and "secretLister r (system_Namespace r) (caSecretName r) w = Found caSecret"
    and "parseAndValidateSecret c caSecret None [] w = Inr (caCert, caPk)" and "sansFor r secret = Some sans"
    and "ReconcileKind c r secret w = (None, w')"
  shows "\<exists>s' cert k d v. w' = enqueueAfter r (Namespace secret, Name secret) d v \<and>
    Now c v + d = NotAfter cert - (24 * hour - second) \<and>
    (\<forall>u. parseAndValidateSecret c s' (data_bytes caSecret SecretCertKey) sans u = Inr (cert, k) \<longleftrightarrow> Now c u < Now c v + d - second) \<and>
    (\<forall>u. Now c v + d - second \<le> Now c u \<longrightarrow> (\<exists>err. parseAndValidateSecret c s' (data_bytes caSecret SecretCertKey) sans u = Inl err)) \<and>
    (s' = secret \<and> v = w \<and> second < d \<or>
     (\<exists>kp w1. CreateCert c caPk caCert expirationInterval sans w = (Inr kp, w1) \<and>
        s' = updatedSecret secret kp (data_bytes caSecret SecretCertKey) \<and> client_Update r s' w1 = (None, v) \<and>
        Now c w + expirationInterval - 24 * hour < Now c v + d))"
proof -
  let ?ca = "data_bytes caSecret SecretCertKey" and ?d = "\<lambda>cert v. rotationTime cert - Now c v"
  consider (valid) cert k where "parseAndValidateSecret c secret ?ca sans w = Inr (cert, k)" "w' = enqueueBeforeExpiration c r secret cert w"
    | (renewed) kp w1 v cert k where "CreateCert c caPk caCert expirationInterval sans w = (Inr kp, w1)"
      "client_Update r (updatedSecret secret kp ?ca) w1 = (None, v)" "KeyPair_Parse c kp = Inr (cert, k)"
      "w' = enqueueBeforeExpiration c r secret cert v"
    using assms(6) unfolding ReconcileKind_nil [OF assms(1-5)] by blast
  then show ?thesis
  proof cases
    case valid
    have "second < ?d cert w"
      using validates_until(1) [OF parseAndValidateSecret_at [OF valid(1)], of w] valid(1) by simp
    with valid validates_until [OF parseAndValidateSecret_at [OF valid(1)]] show ?thesis
      by (intro exI [of _ secret] exI [of _ cert] exI [of _ k] exI [of _ "?d cert w"] exI [of _ w])
         (simp add: enqueueBeforeExpiration_def rotationTime_eq [symmetric])
  next
    case renewed
    let ?s' = "updatedSecret secret kp ?ca"
    from CreateCert_ok [OF assms(1) renewed(1)] renewed(3) have cert: "DNSNames cert = sans" "Now c w + expirationInterval - second < NotAfter cert" by auto
    from cert(2) have "Now c w + expirationInterval - 24 * hour < rotationTime cert" by (simp add: rotationTime_eq)
    with renewed validates_until [OF updatedSecret_at [OF renewed(3), of sans secret ?ca]] cert(1) show ?thesis
      by (intro exI [of _ ?s'] exI [of _ cert] exI [of _ k] exI [of _ "?d cert v"] exI [of _ v])
         (simp add: enqueueBeforeExpiration_def rotationTime_eq [symmetric])
  qed
qed

text \<open>In this instance enqueueing a key lets the time of its delay pass.\<close>

theorem rotation_is_scheduled_in_time_witness:
  "\<exists>w'. ReconcileKind toy_crypto (toy_reconciler\<lparr>enqueueAfter := \<lambda>key d w. w + d\<rparr>) toy_secret 0 = (None, w') \<and>
     29 * 24 * hour < w' \<and> (\<exists>cert :: Certificate. w' = NotAfter cert - (24 * hour - second))"
proof -
  let ?r = "toy_reconciler\<lparr>enqueueAfter := \<lambda>key d w. w + d\<rparr>"
  obtain kp where kp: "CreateCert toy_crypto 5 toy_ca expirationInterval [ControlPlaneName, LegacyFakeDnsName] 0 = (Inr kp, 0)"
    using toy_CreateCert by (auto simp: expirationInterval_def ac_simps)
  have ca: "parseAndValidateSecret toy_crypto toy_ca_secret None [] 0 = Inr (toy_ca, 5)"
    by (rule toy_ca_valid) (simp add: hour_def second_def)
  have s: "shouldReconcile ?r toy_secret" "secretLister ?r (system_Namespace ?r) (caSecretName ?r) 0 = Found toy_ca_secret"
    "sansFor ?r toy_secret = Some [ControlPlaneName, LegacyFakeDnsName]" "client_Update ?r x 0 = (None, 0)" for x
    using toy_setting by (simp_all add: shouldReconcile_def sansFor_def)
  from CreateCert_ok [OF toy_crypto_ok kp] obtain cert k where "KeyPair_Parse toy_crypto kp = Inr (cert, k)" by blast
  from ReconcileKind_renews [OF s(1,2) ca s(3) toy_setting(4) kp s(4) this]
  obtain w' where w': "ReconcileKind toy_crypto ?r toy_secret 0 = (None, w')" by blast
  have now: "Now toy_crypto v = v" for v by (simp add: toy_crypto_def)
  from rotation_is_scheduled_in_time [OF toy_crypto_ok s(1,2) ca s(3) w'] obtain s' cert k d v where
    d: "w' = enqueueAfter ?r (Namespace toy_secret, Name toy_secret) d v" "Now toy_crypto v + d = NotAfter cert - (24 * hour - second)"
    and u: "\<forall>u. parseAndValidateSecret toy_crypto s' (data_bytes toy_ca_secret SecretCertKey) [ControlPlaneName, LegacyFakeDnsName] u = Inr (cert, k) \<longleftrightarrow>
         Now toy_crypto u < Now toy_crypto v + d - second"
    and c: "s' = toy_secret \<and> v = 0 \<and> second < d \<or> Now toy_crypto 0 + expirationInterval - 24 * hour < Now toy_crypto v + d" by blast
  have "\<not> (s' = toy_secret \<and> v = 0 \<and> second < d)" using spec [OF u, of 0] by (auto simp: toy_setting(4) now)
  with c have "29 * 24 * hour < v + d" by (auto simp: expirationInterval_def now)
  moreover have "w' = v + d" using d(1) by simp
  ultimately show ?thesis using w' d(2) by (intro exI [of _ w'] conjI exI [of _ cert]) (simp_all add: now)
qed

text \<open>
  C31. The CA: when the CA secret exists but does not validate, \<open>ReconcileKind\<close> renews it and leaves
  the secret at hand alone; the CA secret it writes is a certificate that may sign, and it
  validates until ten years later, less the rotation threshold and a second.
\<close>

theorem invalid_ca_is_renewed:
  assumes "crypto_ok c" and "shouldReconcile r secret"
    and "secretLister r (system_Namespace r) (caSecretName r) w = Found caSecret"
    and "parseAndValidateSecret c caSecret None [] w = Inl err"
    and "CreateCACerts c caExpirationInterval w = (Inr kp, w1)"
    and "Now c later + rotationThreshold \<le> Now c w + caExpirationInterval - second"
  shows "ReconcileKind c r secret w = client_Update r (updatedSecret caSecret kp None) w1 \<and>
    (\<exists>cert k. parseAndValidateSecret c (updatedSecret caSecret kp None) None [] later = Inr (cert, k) \<and>
       IsCA cert \<and> CertKeyUsage cert = Some KeyUsageCertSign)"
proof -
  obtain cert k where cert: "KeyPair_Parse c kp = Inr (cert, k)" "DNSNames cert = []" "IsCA cert"
    "CertKeyUsage cert = Some KeyUsageCertSign" "Now c w + caExpirationInterval - second < NotAfter cert"
    using CreateCACerts_ok [OF assms(1,5)] by blast
  have "parseAndValidateSecret c (updatedSecret caSecret kp None) None [] later = Inr (cert, k)"
    by (rule updatedSecret_validates [OF cert(1)]) (use cert(2,5) assms(6) in simp_all)
  with assms cert(3,4) show ?thesis by (simp add: ReconcileKind_def commitUpdatedSecret_def)
qed

theorem invalid_ca_is_renewed_witness:
  "\<exists>kp cert k. CreateCACerts toy_crypto caExpirationInterval 0 = (Inr kp, 0) \<and>
     parseAndValidateSecret toy_crypto (updatedSecret (toy_ca_secret\<lparr>Data := fmempty\<rparr>) kp None) None [] hour = Inr (cert, k) \<and> IsCA cert"
proof -
  let ?ca = "toy_ca_secret\<lparr>Data := fmempty\<rparr>"
  let ?r = "toy_reconciler\<lparr>secretLister := \<lambda>ns name w. Found ?ca\<rparr>"
  obtain kp where kp: "CreateCACerts toy_crypto caExpirationInterval 0 = (Inr kp, 0)"
    using toy_CreateCACerts by (auto simp: caExpirationInterval_def ac_simps)
  have "shouldReconcile ?r toy_secret" using toy_setting(1) by (simp add: shouldReconcile_def)
  moreover have "parseAndValidateSecret toy_crypto ?ca None [] 0 = Inl (ErrorString ''missing cert bytes'')"
    by (simp add: parseAndValidateSecret_def)
  moreover have "Now toy_crypto hour + rotationThreshold \<le> Now toy_crypto 0 + caExpirationInterval - second"
    by (simp add: toy_crypto_def rotationThreshold_def caExpirationInterval_def hour_def second_def)
  ultimately show ?thesis
    using invalid_ca_is_renewed [OF toy_crypto_ok, of ?r toy_secret 0 ?ca _ kp 0 hour] kp by auto
qed

end
