(* ===== verification/Secret_Reconciler.thy ===== *)
theory Secret_Reconciler
  imports Cert_Reconciler "HOL-Library.List_Lexorder" "HOL-Library.Char_ord"
begin

text \<open>
  \<open>pkg/certificates/reconciler/reconciler.go\<close>: the generated reconciler that takes a key from the
  work queue, decides by leadership and deletion which method of the typed reconciler to call,
  keeps the finalizer up to date, and reports the outcome as a Kubernetes event.

  The typed reconciler is given by its methods; the optional interfaces (\<open>Finalizer\<close>,
  \<open>ReadOnlyInterface\<close>, \<open>OnDeletionInterface\<close>) are \<open>None\<close> when it does not implement them.  The values a
  configuration store may attach to the context are of any type.
\<close>

section \<open>Events\<close>

text \<open>
  A \<open>pkgreconciler.Event\<close> is an error: a plain one, a \<open>ReconcilerEvent\<close> (type, reason, text), such an
  event wrapped in another error, or one of the two marks for the work queue.
\<close>

datatype Event =
    PlainEvent go_error
  | ReconcilerEvent string string string
  | WrappedEvent string string string string
  | SkipKey string
  | RequeueKey

fun EventAs :: "Event \<Rightarrow> (string \<times> string \<times> string) option" where
  "EventAs (ReconcilerEvent ty reason txt) = Some (ty, reason, txt)"
| "EventAs (WrappedEvent _ ty reason txt) = Some (ty, reason, txt)"
| "EventAs _ = None"

definition EventTypeNormal :: string where "EventTypeNormal = ''Normal''"
definition EventTypeWarning :: string where "EventTypeWarning = ''Warning''"
definition defaultFinalizerName :: string where "defaultFinalizerName = ''secrets.core''"

section \<open>The reconciler\<close>

type_synonym 'w event_recorder = "Secret \<Rightarrow> string \<Rightarrow> string \<Rightarrow> string \<Rightarrow> 'w \<Rightarrow> 'w"

text \<open>The context a method is called with: the values of the configuration store and the recorder.\<close>

record ('c, 'w) reconcile_context =
  context_values :: 'c
  context_recorder :: "'w event_recorder"

type_synonym ('c, 'w) doReconcile = "('c, 'w) reconcile_context \<Rightarrow> Secret \<Rightarrow> 'w \<Rightarrow> Event option \<times> 'w"

record ('c, 'w) typed_reconciler =
  Interface_ReconcileKind :: "('c, 'w) doReconcile"
  Finalizer_FinalizeKind :: "('c, 'w) doReconcile option"
  ROI_ObserveKind :: "('c, 'w) doReconcile option"
  OnDeletion_ObserveDeletion :: "(('c, 'w) reconcile_context \<Rightarrow> string \<times> string \<Rightarrow> 'w \<Rightarrow> Event option \<times> 'w) option"

text \<open>\<open>controller.Options\<close>, as far as the reconciler reads them; a bucket is given by its name.\<close>

record ('c, 'w) controller_Options =
  opts_ConfigStore :: "('c \<Rightarrow> 'c) option"
  opts_FinalizerName :: string
  opts_DemoteFunc :: "(string \<Rightarrow> 'w \<Rightarrow> 'w) option"

record ('c, 'w) reconcilerImpl =
  IsLeaderFor :: "string \<times> string \<Rightarrow> 'w \<Rightarrow> bool"
  Patch :: "Secret \<Rightarrow> string list \<Rightarrow> 'w \<Rightarrow> (go_error + Secret) \<times> 'w"
  Lister :: "string \<Rightarrow> string \<Rightarrow> 'w \<Rightarrow> lookup_result"
  Recorder :: "'w event_recorder"
  configStore :: "('c \<Rightarrow> 'c) option"
  impl_reconciler :: "('c, 'w) typed_reconciler"
  finalizerName :: string
  DemoteFunc :: "(string \<Rightarrow> 'w \<Rightarrow> 'w) option"

text \<open>
  \<open>NewReconciler\<close> is fatal (\<open>None\<close>) with more than one options struct, and for a typed reconciler that
  implements the wrong \<open>LeaderAware\<close> interface.
\<close>

definition apply_options :: "('c, 'w) controller_Options \<Rightarrow> ('c, 'w) reconcilerImpl \<Rightarrow> ('c, 'w) reconcilerImpl" where
  "apply_options opts rec =
     (let rec1 = (if opts_ConfigStore opts \<noteq> None then rec\<lparr>configStore := opts_ConfigStore opts\<rparr> else rec);
          rec2 = (if opts_FinalizerName opts \<noteq> '''' then rec1\<lparr>finalizerName := opts_FinalizerName opts\<rparr> else rec1)
      in if opts_DemoteFunc opts \<noteq> None then rec2\<lparr>DemoteFunc := opts_DemoteFunc opts\<rparr> else rec2)"

definition NewReconciler ::
  "bool \<Rightarrow> (string \<times> string \<Rightarrow> 'w \<Rightarrow> bool) \<Rightarrow> (Secret \<Rightarrow> string list \<Rightarrow> 'w \<Rightarrow> (go_error + Secret) \<times> 'w) \<Rightarrow>
     (string \<Rightarrow> string \<Rightarrow> 'w \<Rightarrow> lookup_result) \<Rightarrow> 'w event_recorder \<Rightarrow>
     ('c, 'w) typed_reconciler \<Rightarrow> ('c, 'w) controller_Options list \<Rightarrow> ('c, 'w) reconcilerImpl option" where
  "NewReconciler implementsLeaderAware leader patch lister recorder r options =
     (if length options > 1 \<or> implementsLeaderAware then None
      else Some (fold apply_options options
             \<lparr>IsLeaderFor = leader, Patch = patch, Lister = lister, Recorder = recorder, configStore = None,
              impl_reconciler = r, finalizerName = defaultFinalizerName, DemoteFunc = None\<rparr>))"

text \<open>The function that enqueues everything when this instance becomes leader of a bucket.\<close>

definition PromoteFunc ::
  "('w \<Rightarrow> go_error + Secret list) \<Rightarrow> (string \<times> string \<Rightarrow> 'w \<Rightarrow> 'w) \<Rightarrow> 'w \<Rightarrow> go_error option \<times> 'w" where
  "PromoteFunc listSecrets enq w =
     (case listSecrets w of
        Inl err \<Rightarrow> (Some err, w)
      | Inr elts \<Rightarrow> (None, fold (\<lambda>elt. enq (Namespace elt, Name elt)) elts w))"

section \<open>Finalizers\<close>

text \<open>\<open>sets.String.List\<close>: the elements, sorted.\<close>

definition set_List :: "string list \<Rightarrow> string list" where
  "set_List xs = sort (remdups xs)"

definition updateFinalizersFiltered ::
  "('c, 'w) reconcilerImpl \<Rightarrow> Secret \<Rightarrow> string set \<Rightarrow> 'w \<Rightarrow> (go_error + Secret) \<times> 'w" where
  "updateFinalizersFiltered r resource desiredFinalizers w =
     (let existing = Finalizers resource;
          patch = (\<lambda>finalizers.
            case Patch r resource finalizers w of
              (Inl err, w') \<Rightarrow>
                (Inl err, Recorder r resource EventTypeWarning ''FinalizerUpdateFailed''
                   (''Failed to update finalizers for '' @ quoted (Name resource) @ '': '' @ error_text err) w')
            | (Inr updated, w') \<Rightarrow>
                (Inr updated, Recorder r updated EventTypeNormal ''FinalizerUpdate''
                   (''Updated '' @ quoted (Name resource) @ '' finalizers'') w'))
      in if finalizerName r \<in> desiredFinalizers
         then (if finalizerName r \<in> set existing then (Inr resource, w) else patch (existing @ [finalizerName r]))
         else (if finalizerName r \<notin> set existing then (Inr resource, w)
               else patch (set_List (removeAll (finalizerName r) existing))))"

definition setFinalizerIfFinalizer ::
  "('c, 'w) reconcilerImpl \<Rightarrow> Secret \<Rightarrow> 'w \<Rightarrow> (go_error + Secret) \<times> 'w" where
  "setFinalizerIfFinalizer r resource w =
     (if Finalizer_FinalizeKind (impl_reconciler r) = None then (Inr resource, w)
      else updateFinalizersFiltered r resource
             (if \<not> Deleted resource then insert (finalizerName r) (set (Finalizers resource))
              else set (Finalizers resource)) w)"

definition clearFinalizer ::
  "('c, 'w) reconcilerImpl \<Rightarrow> Secret \<Rightarrow> Event option \<Rightarrow> 'w \<Rightarrow> (go_error + Secret) \<times> 'w" where
  "clearFinalizer r resource reconcileEvent w =
     (if Finalizer_FinalizeKind (impl_reconciler r) = None then (Inr resource, w)
      else if \<not> Deleted resource then (Inr resource, w)
      else let finalizers = set (Finalizers resource);
               cleared = finalizers - {finalizerName r};
               desired = (case reconcileEvent of
                  None \<Rightarrow> cleared
                | Some ev \<Rightarrow> (case EventAs ev of
                                Some (ty, _, _) \<Rightarrow> if ty = EventTypeNormal then cleared else finalizers
                              | None \<Rightarrow> finalizers))
           in updateFinalizersFiltered r resource desired w)"

section \<open>Dispatch\<close>

text \<open>\<open>cache.SplitMetaNamespaceKey\<close>: a name, or a namespace and a name separated by a slash.\<close>

definition SplitMetaNamespaceKey :: "string \<Rightarrow> (string \<times> string) option" where
  "SplitMetaNamespaceKey key =
     (case strings_Split CHR ''/'' key of
        [name] \<Rightarrow> Some ('''', name)
      | [namespace, name] \<Rightarrow> Some (namespace, name)
      | _ \<Rightarrow> None)"

record state =
  st_key :: string
  st_namespace :: string
  st_name :: string
  isROI :: bool
  isLeader :: bool

definition newState :: "string \<Rightarrow> ('c, 'w) reconcilerImpl \<Rightarrow> 'w \<Rightarrow> state option" where
  "newState key r w =
     (case SplitMetaNamespaceKey key of
        None \<Rightarrow> None
      | Some (namespace, name) \<Rightarrow>
          Some \<lparr>st_key = key, st_namespace = namespace, st_name = name,
                isROI = (ROI_ObserveKind (impl_reconciler r) \<noteq> None), isLeader = IsLeaderFor r (namespace, name) w\<rparr>)"

definition isNotLeaderNorObserver :: "state \<Rightarrow> bool" where
  "isNotLeaderNorObserver s \<longleftrightarrow> \<not> isLeader s \<and> \<not> isROI s"

datatype ('c, 'w) target_method =
    DoReconcileKind "('c, 'w) doReconcile" | DoFinalizeKind "('c, 'w) doReconcile" | DoObserveKind "('c, 'w) doReconcile" | UnknownMethod

definition reconcileMethodFor :: "('c, 'w) reconcilerImpl \<Rightarrow> state \<Rightarrow> Secret \<Rightarrow> ('c, 'w) target_method" where
  "reconcileMethodFor r s obj =
     (if \<not> Deleted obj then
        (if isLeader s then DoReconcileKind (Interface_ReconcileKind (impl_reconciler r))
         else case ROI_ObserveKind (impl_reconciler r) of Some ob \<Rightarrow> DoObserveKind ob | None \<Rightarrow> UnknownMethod)
      else case Finalizer_FinalizeKind (impl_reconciler r) of
             Some fin \<Rightarrow> if isLeader s then DoFinalizeKind fin else UnknownMethod
           | None \<Rightarrow> UnknownMethod)"

text \<open>What is done with the event the method returned.\<close>

definition reportEvent :: "('c, 'w) reconcilerImpl \<Rightarrow> Secret \<Rightarrow> Event option \<Rightarrow> 'w \<Rightarrow> Event option \<times> 'w" where
  "reportEvent r resource reconcileEvent w =
     (case reconcileEvent of
        None \<Rightarrow> (None, w)
      | Some ev \<Rightarrow>
          (case EventAs ev of
             Some (ty, reason, txt) \<Rightarrow>
               (case ev of ReconcilerEvent _ _ _ \<Rightarrow> None | _ \<Rightarrow> Some ev, Recorder r resource ty reason txt w)
           | None \<Rightarrow>
               (case ev of
                  PlainEvent e \<Rightarrow> (Some ev, Recorder r resource EventTypeWarning ''InternalError'' (error_text e) w)
                | _ \<Rightarrow> (Some ev, w))))"

text \<open>The context with the frozen configuration, if there is a store, and with the recorder.\<close>

definition reconcile_ctx :: "('c, 'w) reconcilerImpl \<Rightarrow> 'c \<Rightarrow> ('c, 'w) reconcile_context" where
  "reconcile_ctx r base =
     \<lparr>context_values = (case configStore r of Some toContext \<Rightarrow> toContext base | None \<Rightarrow> base), context_recorder = Recorder r\<rparr>"

definition Reconcile :: "('c, 'w) reconcilerImpl \<Rightarrow> 'c \<Rightarrow> string \<Rightarrow> 'w \<Rightarrow> Event option \<times> 'w" where
  "Reconcile r base key w =
     (case newState key r w of
        None \<Rightarrow> (None, w)
      | Some s \<Rightarrow>
          if isNotLeaderNorObserver s then (Some (SkipKey key), w)
          else let ctx = reconcile_ctx r base in case Lister r (st_namespace s) (st_name s) w of
            NotFound \<Rightarrow>
              (case OnDeletion_ObserveDeletion (impl_reconciler r) of
                 Some del \<Rightarrow> del ctx (st_namespace s, st_name s) w
               | None \<Rightarrow> (None, w))
          | LookupError err \<Rightarrow> (Some (PlainEvent err), w)
          | Found resource \<Rightarrow>
              (case reconcileMethodFor r s resource of
                 DoReconcileKind do \<Rightarrow>
                   (case setFinalizerIfFinalizer r resource w of
                      (Inl err, w') \<Rightarrow> (Some (PlainEvent (Wrapped ''failed to set finalizers: '' err)), w')
                    | (Inr resource', w') \<Rightarrow>
                        (case do ctx resource' w' of (ev, w'') \<Rightarrow> reportEvent r resource' ev w''))
               | DoFinalizeKind do \<Rightarrow>
                   (case do ctx resource w of (ev, w') \<Rightarrow>
                      (case clearFinalizer r resource ev w' of
                         (Inl err, w'') \<Rightarrow> (Some (PlainEvent (Wrapped ''failed to clear finalizers: '' err)), w'')
                       | (Inr resource', w'') \<Rightarrow> reportEvent r resource' ev w''))
               | DoObserveKind do \<Rightarrow> (case do ctx resource w of (ev, w') \<Rightarrow> reportEvent r resource ev w')
               | UnknownMethod \<Rightarrow> (None, w)))"

section \<open>The controller of certificates\<close>

text \<open>
  The reconciler of certificates implements \<open>Interface\<close> only; the errors it returns are plain.
\<close>

definition certs_typed :: "('k, 'w) crypto \<Rightarrow> 'w reconciler \<Rightarrow> ('c, 'w) typed_reconciler" where
  "certs_typed c r =
     \<lparr>Interface_ReconcileKind = (\<lambda>ctx s w. case ReconcileKind c r s w of (e, w') \<Rightarrow> (map_option PlainEvent e, w')),
      Finalizer_FinalizeKind = None, ROI_ObserveKind = None, OnDeletion_ObserveDeletion = None\<rparr>"

section \<open>Lemmas\<close>

lemma SplitMetaNamespaceKey_key:
  "CHR ''/'' \<notin> set ns \<Longrightarrow> CHR ''/'' \<notin> set name \<Longrightarrow> SplitMetaNamespaceKey (ns @ ''/'' @ name) = Some (ns, name)"
  by (simp add: SplitMetaNamespaceKey_def strings_Split_append strings_Split_plain)

text \<open>
  What is documented of a merge patch of the finalizers that succeeds: the resource it returns has the list of the patch.  The server may
  change everything else, and does change the resource version.
\<close>

definition patch_ok :: "('c, 'w) reconcilerImpl \<Rightarrow> bool" where
  "patch_ok r \<longleftrightarrow> (\<forall>s fs w s' w'. Patch r s fs w = (Inr s', w') \<longrightarrow> Finalizers s' = fs)"

lemma updateFinalizersFiltered_set:
  assumes "patch_ok r" and "updateFinalizersFiltered r s desired w = (Inr s', w')"
  shows "set (Finalizers s') =
    (if finalizerName r \<in> desired then insert (finalizerName r) (set (Finalizers s))
     else set (Finalizers s) - {finalizerName r})"
proof -
  have p: "Patch r s fs w = (Inr t, v) \<Longrightarrow> Finalizers t = fs" for fs t v
    using assms(1) unfolding patch_ok_def by blast
  show ?thesis
    using assms(2) by (auto simp: updateFinalizersFiltered_def Let_def set_List_def dest!: p split: if_splits prod.splits sum.splits)
qed

text \<open>One options struct sets what it has, two are refused, and the methods get the context of its configuration store.\<close>

lemma NewReconciler_options:
  assumes "NewReconciler False leader patch lister recorder r [opts] = Some impl"
  shows "configStore impl = opts_ConfigStore opts" and "DemoteFunc impl = opts_DemoteFunc opts"
    and "finalizerName impl = (if opts_FinalizerName opts = '''' then defaultFinalizerName else opts_FinalizerName opts)"
  using assms by (auto simp: NewReconciler_def apply_options_def Let_def)

lemma Reconcile_live:
  assumes "SplitMetaNamespaceKey key = Some (ns, name)" and "IsLeaderFor impl (ns, name) w" and "Lister impl ns name w = Found s"
    and "\<not> Deleted s" and "Finalizer_FinalizeKind (impl_reconciler impl) = None"
  shows "Reconcile impl base key w =
    (let (ev, w') = Interface_ReconcileKind (impl_reconciler impl) (reconcile_ctx impl base) s w in reportEvent impl s ev w')"
  using assms by (simp add: Reconcile_def newState_def isNotLeaderNorObserver_def reconcileMethodFor_def setFinalizerIfFinalizer_def)

section \<open>Properties\<close>

text \<open>
  C32. The finalizer, when the API server answers a patch with the finalizers it was sent: before a live resource is reconciled by a finalizing reconciler, its finalizer
  is on the resource; after a deleted one was finalized, it is removed exactly when the finalizer
  returned nil or a normal event; no other finalizer is ever added or removed.
\<close>

theorem finalizer_is_set_and_cleared:
  assumes "patch_ok r" and "Finalizer_FinalizeKind (impl_reconciler r) = Some fin"
    and "setFinalizerIfFinalizer r live w = (Inr live', w1)" and "\<not> Deleted live"
    and "clearFinalizer r gone ev w = (Inr gone', w2)" and "Deleted gone"
  shows "set (Finalizers live') = insert (finalizerName r) (set (Finalizers live)) \<and>
    set (Finalizers gone') =
      (if ev = None \<or> (\<exists>e reason txt. ev = Some e \<and> EventAs e = Some (EventTypeNormal, reason, txt))
       then set (Finalizers gone) - {finalizerName r} else set (Finalizers gone))"
proof -
  have "set (Finalizers live') = insert (finalizerName r) (set (Finalizers live))"
    using updateFinalizersFiltered_set [OF assms(1)] assms(2-4) by (fastforce simp: setFinalizerIfFinalizer_def)
  moreover obtain desired where d: "updateFinalizersFiltered r gone desired w = (Inr gone', w2)"
    and "desired = (if ev = None \<or> (\<exists>e reason txt. ev = Some e \<and> EventAs e = Some (EventTypeNormal, reason, txt))
       then set (Finalizers gone) - {finalizerName r} else set (Finalizers gone))"
    using assms(2,5,6) by (auto simp: clearFinalizer_def Let_def split: option.splits if_splits)
  moreover note updateFinalizersFiltered_set [OF assms(1) d]
  ultimately show ?thesis by auto
qed

text \<open>
  The certificate controller: for the key of a secret, an instance that is not the leader only
  skips the key; a missing or deleted secret needs no work; otherwise the lister's current secret
  is reconciled, and an error is returned (so that the key is retried) and recorded as a warning.
\<close>

lemma certificate_controller_dispatch:
  assumes "CHR ''/'' \<notin> set ns" and "CHR ''/'' \<notin> set name" and "impl_reconciler impl = certs_typed c r"
  shows "Reconcile impl base (ns @ ''/'' @ name) w =
    (if \<not> IsLeaderFor impl (ns, name) w then (Some (SkipKey (ns @ ''/'' @ name)), w)
     else case Lister impl ns name w of
            NotFound \<Rightarrow> (None, w)
          | LookupError err \<Rightarrow> (Some (PlainEvent err), w)
          | Found secret \<Rightarrow>
              if Deleted secret then (None, w)
              else (case ReconcileKind c r secret w of
                      (None, w') \<Rightarrow> (None, w')
                    | (Some err, w') \<Rightarrow>
                        (Some (PlainEvent err), Recorder impl secret EventTypeWarning ''InternalError'' (error_text err) w')))"
  using SplitMetaNamespaceKey_key [OF assms(1,2)]
  by (auto simp: Reconcile_def Let_def newState_def isNotLeaderNorObserver_def reconcileMethodFor_def assms(3) certs_typed_def
      setFinalizerIfFinalizer_def reportEvent_def split: lookup_result.splits prod.splits option.splits)

definition toy_impl :: "(unit, int) reconcilerImpl" where
  "toy_impl = \<lparr>IsLeaderFor = \<lambda>k w. True, Patch = \<lambda>s fs w. (Inr (s\<lparr>Finalizers := fs, ResourceVersion := ''2''\<rparr>), w),
     Lister = \<lambda>ns name w. Found toy_secret, Recorder = \<lambda>s ty reason txt w. w,
     configStore = None, impl_reconciler = certs_typed toy_crypto toy_reconciler, finalizerName = defaultFinalizerName,
     DemoteFunc = None\<rparr>"

theorem finalizer_is_set_and_cleared_witness:
  "\<exists>live' gone'. setFinalizerIfFinalizer (toy_impl\<lparr>impl_reconciler := (certs_typed toy_crypto toy_reconciler)\<lparr>Finalizer_FinalizeKind := Some (\<lambda>ctx s w. (None, w))\<rparr>\<rparr>)
        toy_secret 0 = (Inr live', 0) \<and> set (Finalizers live') = {defaultFinalizerName} \<and>
     clearFinalizer (toy_impl\<lparr>impl_reconciler := (certs_typed toy_crypto toy_reconciler)\<lparr>Finalizer_FinalizeKind := Some (\<lambda>ctx s w. (None, w))\<rparr>\<rparr>)
        (toy_secret\<lparr>Deleted := True, Finalizers := [defaultFinalizerName]\<rparr>) None 0 = (Inr gone', 0) \<and> set (Finalizers gone') = {}"
proof -
  let ?r = "toy_impl\<lparr>impl_reconciler := (certs_typed toy_crypto toy_reconciler)\<lparr>Finalizer_FinalizeKind := Some (\<lambda>ctx s w. (None, w))\<rparr>\<rparr>"
  let ?gone = "toy_secret\<lparr>Deleted := True, Finalizers := [defaultFinalizerName]\<rparr>"
  have ok: "patch_ok ?r" by (simp add: patch_ok_def toy_impl_def)
  have name: "finalizerName ?r = defaultFinalizerName" by (simp add: toy_impl_def)
  obtain live' where l: "setFinalizerIfFinalizer ?r toy_secret 0 = (Inr live', 0)"
    by (simp add: setFinalizerIfFinalizer_def updateFinalizersFiltered_def toy_impl_def toy_secret_def)
  obtain gone' where g: "clearFinalizer ?r ?gone None 0 = (Inr gone', 0)"
    by (simp add: clearFinalizer_def updateFinalizersFiltered_def toy_impl_def toy_secret_def)
  have "set (Finalizers live') = {defaultFinalizerName} \<and> set (Finalizers gone') = {}"
    using finalizer_is_set_and_cleared [OF ok _ l _ g] name by (simp add: toy_secret_def)
  with l g show ?thesis by blast
qed

end
