(* ===== verification/Cert_Controller.thy ===== *)
theory Cert_Controller
  imports Secret_Reconciler
begin

text \<open>
  \<open>pkg/certificates/reconciler/controller.go\<close> and \<open>controller_impl.go\<close>: the controller of a component's
  certificates, that is the two reconcilers put together over the informer and the recorder found in
  the context, and the event handlers that decide which keys go to the work queue when a secret changes.

  The context and the cluster behind it (label selectors, informers, recorder, client, leader election, work
  queue, system namespace) are the record \<open>cluster\<close>.  A panic or a fatal log is \<open>None\<close>.
\<close>

section \<open>The context\<close>

type_synonym 'w SecretLister = "string \<Rightarrow> string \<Rightarrow> 'w \<Rightarrow> lookup_result"
type_synonym 'w EventRecorder = "Secret \<Rightarrow> string \<Rightarrow> string \<Rightarrow> string \<Rightarrow> 'w \<Rightarrow> 'w"

text \<open>
  \<open>ctx_informers\<close>: the filtered informers that were put into the context, by label selector;
  \<open>broadcaster_NewRecorder\<close>: the recorder of a new event broadcaster for the named component.
\<close>

record 'w cluster =
  ctx_LabelKey :: "string list option"
  ctx_informers :: "(string, 'w SecretLister) fmap"
  ctx_recorder :: "'w EventRecorder option"
  broadcaster_NewRecorder :: "string \<Rightarrow> 'w EventRecorder"
  cluster_Update :: "Secret \<Rightarrow> 'w \<Rightarrow> go_error option \<times> 'w"
  cluster_Patch :: "Secret \<Rightarrow> string list \<Rightarrow> 'w \<Rightarrow> (go_error + Secret) \<times> 'w"
  cluster_IsLeaderFor :: "string \<times> string \<Rightarrow> 'w \<Rightarrow> bool"
  EnqueueKeyAfter :: "string \<times> string \<Rightarrow> Duration \<Rightarrow> 'w \<Rightarrow> 'w"
  workQueue_ShuttingDown :: bool
  cluster_Namespace :: string

definition caSecretNamePostfix :: string where "caSecretNamePostfix = ''-ctrl-ca''"
definition secretLabelNamePostfix :: string where "secretLabelNamePostfix = ''-ctrl''"
definition defaultControllerAgentName :: string where "defaultControllerAgentName = ''secret-controller''"

definition WithSelectors :: "string list \<Rightarrow> 'w cluster \<Rightarrow> 'w cluster" where
  "WithSelectors selectors k = k\<lparr>ctx_LabelKey := Some selectors\<rparr>"

text \<open>The informer of the first selector; a missing value, an empty list and a missing informer panic.\<close>

definition getSecretInformer :: "'w cluster \<Rightarrow> 'w SecretLister option" where
  "getSecretInformer k =
     (case ctx_LabelKey k of
        None \<Rightarrow> None
      | Some [] \<Rightarrow> None
      | Some (selector # _) \<Rightarrow> fmlookup (ctx_informers k) selector)"

section \<open>The recorder\<close>

text \<open>
  \<open>createRecorder\<close>: the recorder of the context, or else one of a new broadcaster, with the watches that were
  started for it; the goroutine it spawns stops them when the context is done.
\<close>

datatype watch = LoggingWatch | SinkWatch

definition createRecorder :: "'w cluster \<Rightarrow> string \<Rightarrow> 'w EventRecorder \<times> watch list" where
  "createRecorder k agentName =
     (case ctx_recorder k of
        Some recorder \<Rightarrow> (recorder, [])
      | None \<Rightarrow> (broadcaster_NewRecorder k agentName, [LoggingWatch, SinkWatch]))"

definition running_watches :: "bool \<Rightarrow> watch list \<Rightarrow> watch list" where
  "running_watches contextDone watches = (if contextDone then fold removeAll watches watches else watches)"

section \<open>Construction\<close>

record ('c, 'w) controller_Impl =
  impl_Name :: string
  impl_Reconciler :: "('c, 'w) reconcilerImpl"
  impl_watches :: "watch list"

text \<open>The name of the work queue: package path and name of the reconciler's type, slashes replaced by dots.\<close>

definition ctrTypeName :: "string \<Rightarrow> string \<Rightarrow> string" where
  "ctrTypeName pkgPath typeName = map (\<lambda>c. if c = CHR ''/'' then CHR ''.'' else c) (pkgPath @ ''.'' @ typeName)"

definition NewFilteredImpl ::
  "'w cluster \<Rightarrow> string \<times> string \<Rightarrow> ('c, 'w) typed_reconciler \<Rightarrow> 'w SecretLister \<Rightarrow> ('c, 'w) controller_Options list \<Rightarrow>
     ('c, 'w) controller_Impl option" where
  "NewFilteredImpl k ctrType r lister options =
     (if length options > 1 then None
      else let (recorder, watches) = createRecorder k defaultControllerAgentName
           in map_option (\<lambda>rec. \<lparr>impl_Name = ctrTypeName (fst ctrType) (snd ctrType), impl_Reconciler = rec, impl_watches = watches\<rparr>)
                (NewReconciler False (cluster_IsLeaderFor k) (cluster_Patch k) lister recorder r options))"

definition factory_reconciler :: "'w cluster \<Rightarrow> 'w SecretLister \<Rightarrow> string \<Rightarrow> 'w reconciler" where
  "factory_reconciler k lister componentName =
     \<lparr>client_Update = cluster_Update k, secretLister = lister,
      caSecretName = componentName @ caSecretNamePostfix, secretTypeLabelName = componentName @ secretLabelNamePostfix,
      enqueueAfter = EnqueueKeyAfter k, system_Namespace = cluster_Namespace k\<rparr>"

definition NewControllerFactory :: "('k, 'w) crypto \<Rightarrow> 'w cluster \<Rightarrow> string \<Rightarrow> ('c, 'w) controller_Impl option" where
  "NewControllerFactory c k componentName =
     (let ctx = WithSelectors [componentName @ secretLabelNamePostfix] k
      in case getSecretInformer ctx of
           None \<Rightarrow> None
         | Some lister \<Rightarrow>
             NewFilteredImpl ctx (''knative.dev/control-protocol/pkg/certificates/reconciler'', ''reconciler'')
               (certs_typed c (factory_reconciler ctx lister componentName)) lister [])"

section \<open>Event handlers\<close>

text \<open>
  What the informer reports: the object of an event is a secret, or the tombstone of one whose
  deletion was missed, which every filter of the code rejects.
\<close>

datatype object = SecretObject Secret | Tombstone string

datatype informer_event = OnAdd object | OnUpdate object object | OnDelete object

fun LabelExistsFilterFunc :: "string \<Rightarrow> object \<Rightarrow> bool" where
  "LabelExistsFilterFunc l (SecretObject s) \<longleftrightarrow> fmlookup (Labels s) l \<noteq> None"
| "LabelExistsFilterFunc l (Tombstone _) \<longleftrightarrow> False"

fun FilterWithNameAndNamespace :: "string \<Rightarrow> string \<Rightarrow> object \<Rightarrow> bool" where
  "FilterWithNameAndNamespace namespace name (SecretObject s) \<longleftrightarrow> name = Name s \<and> namespace = Namespace s"
| "FilterWithNameAndNamespace namespace name (Tombstone _) \<longleftrightarrow> False"

text \<open>\<open>FilteringResourceEventHandler\<close> over \<open>HandleAll\<close>: the object the handler is called with, if any.\<close>

fun FilteringHandleAll :: "(object \<Rightarrow> bool) \<Rightarrow> informer_event \<Rightarrow> object option" where
  "FilteringHandleAll f (OnAdd obj) = (if f obj then Some obj else None)"
| "FilteringHandleAll f (OnUpdate old new) = (if f new then Some new else if f old then Some old else None)"
| "FilteringHandleAll f (OnDelete obj) = (if f obj then Some obj else None)"

fun Enqueue :: "object \<Rightarrow> (string \<times> string) list" where
  "Enqueue (SecretObject s) = [(Namespace s, Name s)]"
| "Enqueue (Tombstone _) = []"

definition FilteredGlobalResync :: "bool \<Rightarrow> (object \<Rightarrow> bool) \<Rightarrow> Secret list \<Rightarrow> (string \<times> string) list" where
  "FilteredGlobalResync shuttingDown f store =
     (if shuttingDown then [] else concat (map Enqueue (filter f (map SecretObject store))))"

text \<open>The keys that go to the work queue on an event, the informer's store being \<open>store\<close>.\<close>

definition informer_handlers :: "'w cluster \<Rightarrow> string \<Rightarrow> Secret list \<Rightarrow> informer_event \<Rightarrow> (string \<times> string) list" where
  "informer_handlers k componentName store ev =
     (let labelName = componentName @ secretLabelNamePostfix; caName = componentName @ caSecretNamePostfix
      in (case FilteringHandleAll (FilterWithNameAndNamespace (cluster_Namespace k) caName) ev of
            Some _ \<Rightarrow> FilteredGlobalResync (workQueue_ShuttingDown k) (LabelExistsFilterFunc labelName) store
          | None \<Rightarrow> []) @
         (case FilteringHandleAll (LabelExistsFilterFunc labelName) ev of
            Some obj \<Rightarrow> Enqueue obj
          | None \<Rightarrow> []))"

section \<open>Lemmas\<close>

text \<open>The key as the work queue hands it to \<open>Reconcile\<close>.\<close>

definition key_of :: "Secret \<Rightarrow> string" where
  "key_of s = Namespace s @ ''/'' @ Name s"

definition plain_key :: "Secret \<Rightarrow> bool" where
  "plain_key s \<longleftrightarrow> CHR ''/'' \<notin> set (Namespace s) \<and> CHR ''/'' \<notin> set (Name s)"

lemma factory_simps [simp]:
  "secretTypeLabelName (factory_reconciler k lister componentName) = componentName @ secretLabelNamePostfix"
  "caSecretName (factory_reconciler k lister componentName) = componentName @ caSecretNamePostfix"
  "system_Namespace (factory_reconciler k lister componentName) = cluster_Namespace k"
  "secretLister (factory_reconciler k lister componentName) = lister"
  "client_Update (factory_reconciler k lister componentName) = cluster_Update k"
  "enqueueAfter (factory_reconciler k lister componentName) = EnqueueKeyAfter k"
  "factory_reconciler (WithSelectors sel k) lister componentName = factory_reconciler k lister componentName"
  by (simp_all add: factory_reconciler_def WithSelectors_def)

lemma NewControllerFactory_Some:
  "NewControllerFactory c k componentName = Some impl \<longleftrightarrow>
     (\<exists>lister. fmlookup (ctx_informers k) (componentName @ secretLabelNamePostfix) = Some lister \<and>
        impl_Name impl = ''knative.dev.control-protocol.pkg.certificates.reconciler.reconciler'' \<and>
        impl_Reconciler impl =
          \<lparr>IsLeaderFor = cluster_IsLeaderFor k, Patch = cluster_Patch k, Lister = lister,
           Recorder = (case ctx_recorder k of Some r \<Rightarrow> r | None \<Rightarrow> broadcaster_NewRecorder k ''secret-controller''),
           configStore = None, impl_reconciler = certs_typed c (factory_reconciler k lister componentName),
           finalizerName = defaultFinalizerName, DemoteFunc = None\<rparr> \<and>
        impl_watches impl = (if ctx_recorder k = None then [LoggingWatch, SinkWatch] else []))"
  by (cases impl)
     (auto simp: NewControllerFactory_def NewFilteredImpl_def NewReconciler_def getSecretInformer_def Let_def
        createRecorder_def defaultControllerAgentName_def ctrTypeName_def WithSelectors_def factory_reconciler_def
        split: option.splits)

text \<open>The constructor panics exactly when the context has no informer for the component's label.\<close>

lemma NewControllerFactory_None:
  "NewControllerFactory c k componentName = None \<longleftrightarrow>
     fmlookup (ctx_informers k) (componentName @ secretLabelNamePostfix) = None"
  by (auto simp: NewControllerFactory_def NewFilteredImpl_def NewReconciler_def getSecretInformer_def Let_def
        WithSelectors_def split: option.splits prod.splits)

lemma running_watches_done: "running_watches True watches = []"
proof -
  have "set (fold removeAll ws xs) = set xs - set ws" for ws xs :: "watch list"
    by (induction ws arbitrary: xs) auto
  then show ?thesis by (auto simp: running_watches_def simp flip: set_empty)
qed

text \<open>The events on the CA secret: it was added, changed from or to, or deleted.\<close>

definition is_ca :: "'w cluster \<Rightarrow> string \<Rightarrow> Secret \<Rightarrow> bool" where
  "is_ca k componentName s \<longleftrightarrow> Name s = componentName @ caSecretNamePostfix \<and> Namespace s = cluster_Namespace k"

definition ca_event :: "'w cluster \<Rightarrow> string \<Rightarrow> informer_event \<Rightarrow> bool" where
  "ca_event k componentName ev \<longleftrightarrow> (\<exists>s. is_ca k componentName s \<and>
     (ev = OnAdd (SecretObject s) \<or> (\<exists>other. ev = OnUpdate other (SecretObject s) \<or> ev = OnUpdate (SecretObject s) other) \<or>
      ev = OnDelete (SecretObject s)))"

definition labelled :: "string \<Rightarrow> Secret \<Rightarrow> bool" where
  "labelled componentName s \<longleftrightarrow> fmlookup (Labels s) (componentName @ secretLabelNamePostfix) \<noteq> None"

text \<open>The key of the labelled object of an event, the new one of an update first, which the second handler enqueues.\<close>

fun labelled_key :: "string \<Rightarrow> object \<Rightarrow> (string \<times> string) list" where
  "labelled_key componentName (SecretObject s) = (if labelled componentName s then [(Namespace s, Name s)] else [])"
| "labelled_key componentName (Tombstone _) = []"

fun own_keys :: "string \<Rightarrow> informer_event \<Rightarrow> (string \<times> string) list" where
  "own_keys componentName (OnAdd obj) = labelled_key componentName obj"
| "own_keys componentName (OnUpdate old new) =
     (if labelled_key componentName new \<noteq> [] then labelled_key componentName new else labelled_key componentName old)"
| "own_keys componentName (OnDelete obj) = labelled_key componentName obj"

lemma labelled_key_eq:
  "labelled_key componentName obj = (if LabelExistsFilterFunc (componentName @ secretLabelNamePostfix) obj then Enqueue obj else [])"
  by (cases obj) (simp_all add: labelled_def)

lemma Enqueue_labelled: "LabelExistsFilterFunc l obj \<Longrightarrow> Enqueue obj \<noteq> []"
  by (cases obj) simp_all

lemma own_keys_eq:
  "own_keys componentName ev =
     (case FilteringHandleAll (LabelExistsFilterFunc (componentName @ secretLabelNamePostfix)) ev of Some obj \<Rightarrow> Enqueue obj | None \<Rightarrow> [])"
  by (cases ev) (simp_all add: labelled_key_eq Enqueue_labelled)

lemma resync_keys:
  "FilteredGlobalResync False (LabelExistsFilterFunc (componentName @ secretLabelNamePostfix)) store =
     map (\<lambda>s. (Namespace s, Name s)) (filter (labelled componentName) store)"
  by (induction store) (simp_all add: FilteredGlobalResync_def labelled_def)

lemma FilterWithNameAndNamespace_ca:
  "FilterWithNameAndNamespace (cluster_Namespace k) (componentName @ caSecretNamePostfix) obj =
     (case obj of SecretObject s \<Rightarrow> is_ca k componentName s | Tombstone _ \<Rightarrow> False)"
  by (cases obj) (auto simp: is_ca_def)

lemma ca_event_eq:
  "FilteringHandleAll (FilterWithNameAndNamespace (cluster_Namespace k) (componentName @ caSecretNamePostfix)) ev \<noteq> None \<longleftrightarrow>
     ca_event k componentName ev"
  by (cases ev) (auto simp: FilterWithNameAndNamespace_ca ca_event_def split: object.splits)

text \<open>So an event on the CA secret enqueues every labelled secret of the store, and every event the labelled object it is about.\<close>

lemma informer_handlers_eq:
  assumes "\<not> workQueue_ShuttingDown k"
  shows "informer_handlers k componentName store ev =
    (if ca_event k componentName ev then map (\<lambda>s. (Namespace s, Name s)) (filter (labelled componentName) store) else []) @
    own_keys componentName ev"
  using ca_event_eq [of k componentName ev] assms
  by (auto simp: informer_handlers_def own_keys_eq Let_def resync_keys)

text \<open>The controller on the key of a live secret that it leads: the method of the certificate reconciler, and its error recorded and returned.\<close>

lemma Reconcile_reaches_secret:
  assumes "plain_key s" and "cluster_IsLeaderFor k (Namespace s, Name s) w"
    and "fmlookup (ctx_informers k) (componentName @ secretLabelNamePostfix) = Some lister"
    and "lister (Namespace s) (Name s) w = Found s" and "\<not> Deleted s"
    and "NewControllerFactory c k componentName = Some impl"
  shows "Reconcile (impl_Reconciler impl) base (key_of s) w =
    (case ReconcileKind c (factory_reconciler k lister componentName) s w of
       (None, w') \<Rightarrow> (None, w')
     | (Some err, w') \<Rightarrow>
         (Some (PlainEvent err), Recorder (impl_Reconciler impl) s EventTypeWarning ''InternalError'' (error_text err) w'))"
proof -
  have "impl_reconciler (impl_Reconciler impl) = certs_typed c (factory_reconciler k lister componentName)"
    "IsLeaderFor (impl_Reconciler impl) = cluster_IsLeaderFor k" "Lister (impl_Reconciler impl) = lister"
    using assms(3,6) by (auto simp: NewControllerFactory_Some)
  with certificate_controller_dispatch [of "Namespace s" "Name s" "impl_Reconciler impl" c "factory_reconciler k lister componentName" base w]
    assms(1,2,4,5) show ?thesis by (simp add: plain_key_def key_of_def)
qed

lemma parseAndValidateSecret_Data:
  "Data s = Data t \<Longrightarrow> parseAndValidateSecret c s ca sans w = parseAndValidateSecret c t ca sans w"
  unfolding parseAndValidateSecret_def by (erule ssubst) (rule refl)

text \<open>
  What an informer that was started with a label selector shows of the secrets of the cluster: those that
  have the label.
\<close>

definition filtered_lister :: "('w \<Rightarrow> Secret list) \<Rightarrow> string \<Rightarrow> 'w SecretLister" where
  "filtered_lister secrets l ns name w =
     (case find (\<lambda>s. Namespace s = ns \<and> Name s = name \<and> fmlookup (Labels s) l \<noteq> None) (secrets w) of
        None \<Rightarrow> NotFound
      | Some s \<Rightarrow> Found s)"

lemma filtered_lister_NotFound:
  assumes "\<forall>s \<in> set (secrets w). Namespace s = ns \<and> Name s = name \<longrightarrow> fmlookup (Labels s) l = None"
  shows "filtered_lister secrets l ns name w = NotFound"
proof -
  have "find (\<lambda>s. Namespace s = ns \<and> Name s = name \<and> fmlookup (Labels s) l \<noteq> None) (secrets w) = None"
    using assms by (auto simp: find_None_iff)
  then show ?thesis by (simp add: filtered_lister_def)
qed

lemma ReconcileKind_no_ca:
  "secretLister r (system_Namespace r) (caSecretName r) w = NotFound \<Longrightarrow> ReconcileKind c r s w = (None, w)"
  by (simp add: ReconcileKind_def)

subsection \<open>An example\<close>

definition example_ca :: Secret where
  "example_ca = toy_ca_secret\<lparr>Name := ''c-ctrl-ca''\<rparr>"

definition example_secret :: Secret where
  "example_secret = toy_secret\<lparr>Labels := fmupd ''c-ctrl'' controlPlaneSecretType fmempty\<rparr>"

definition example_lister :: "int SecretLister" where
  "example_lister ns name w = Found (if name = Name example_ca then example_ca else example_secret)"

definition example_cluster :: "int cluster" where
  "example_cluster = \<lparr>ctx_LabelKey = None, ctx_informers = fmupd ''c-ctrl'' example_lister fmempty, ctx_recorder = None,
     broadcaster_NewRecorder = \<lambda>component s ty reason txt w. w, cluster_Update = \<lambda>s w. (None, w),
     cluster_Patch = \<lambda>s fs w. (Inr (s\<lparr>Finalizers := fs, ResourceVersion := ''2''\<rparr>), w), cluster_IsLeaderFor = \<lambda>key w. True,
     EnqueueKeyAfter = \<lambda>key d w. w, workQueue_ShuttingDown = False, cluster_Namespace = ''sys''\<rparr>"

lemma example_setting:
  "shouldReconcile (factory_reconciler example_cluster lister ''c'') example_secret"
  "sansFor (factory_reconciler example_cluster lister ''c'') example_secret = Some [ControlPlaneName, LegacyFakeDnsName]"
  "parseAndValidateSecret c example_secret ca sans v = Inl (ErrorString ''missing cert bytes'')"
  "parseAndValidateSecret toy_crypto example_ca None [] 0 = Inr (toy_ca, 5)"
proof -
  have "parseAndValidateSecret toy_crypto toy_ca_secret None [] 0 = Inr (toy_ca, 5)"
    by (rule toy_ca_valid) (simp add: hour_def second_def)
  then show "parseAndValidateSecret toy_crypto example_ca None [] 0 = Inr (toy_ca, 5)"
    using parseAndValidateSecret_Data [of example_ca toy_ca_secret toy_crypto None "[]" 0] by (simp add: example_ca_def)
qed (simp_all add: shouldReconcile_def example_secret_def toy_secret_def sansFor_def label_def Let_def
      parseAndValidateSecret_def caSecretNamePostfix_def secretLabelNamePostfix_def)

lemmas example_defs = example_ca_def example_secret_def toy_secret_def toy_ca_secret_def example_cluster_def example_lister_def labelled_def
  caSecretNamePostfix_def secretLabelNamePostfix_def

lemma example_informer: "fmlookup (ctx_informers example_cluster) (''c'' @ secretLabelNamePostfix) = Some example_lister"
  by (simp add: example_cluster_def secretLabelNamePostfix_def)

text \<open>
  What a reconciliation of the secret \<open>s\<close> under the valid CA secret \<open>ca\<close> has done when it returned nil: the secret was valid for
  this CA, or it has been written with a new certificate; its rotation is scheduled.
\<close>

definition kept_or_renewed ::
  "('k, 'w) crypto \<Rightarrow> 'w cluster \<Rightarrow> Secret \<Rightarrow> Secret \<Rightarrow> Certificate \<times> 'k \<Rightarrow> string list \<Rightarrow> 'w \<Rightarrow> 'w \<Rightarrow> bool" where
  "kept_or_renewed c k s ca issuer sans w w' \<longleftrightarrow>
     (\<exists>cert pk. parseAndValidateSecret c s (data_bytes ca SecretCertKey) sans w = Inr (cert, pk) \<and>
        w' = EnqueueKeyAfter k (Namespace s, Name s) (rotationTime cert - Now c w) w) \<or>
     (\<exists>err kp w1 w2 cert pk. parseAndValidateSecret c s (data_bytes ca SecretCertKey) sans w = Inl err \<and>
        CreateCert c (snd issuer) (fst issuer) expirationInterval sans w = (Inr kp, w1) \<and>
        cluster_Update k (updatedSecret s kp (data_bytes ca SecretCertKey)) w1 = (None, w2) \<and>
        KeyPair_Parse c kp = Inr (cert, pk) \<and> DNSNames cert = sans \<and>
        w' = EnqueueKeyAfter k (Namespace s, Name s) (rotationTime cert - Now c w2) w2)"

text \<open>The only reason for an error: the secret did not match, and creating its certificate or updating it failed.\<close>

definition renewal_failed ::
  "('k, 'w) crypto \<Rightarrow> 'w cluster \<Rightarrow> Secret \<Rightarrow> Secret \<Rightarrow> Certificate \<times> 'k \<Rightarrow> string list \<Rightarrow> 'w \<Rightarrow> bool" where
  "renewal_failed c k s ca issuer sans w \<longleftrightarrow>
     (\<exists>err. parseAndValidateSecret c s (data_bytes ca SecretCertKey) sans w = Inl err) \<and>
     (\<forall>kp w1 w2. CreateCert c (snd issuer) (fst issuer) expirationInterval sans w = (Inr kp, w1) \<longrightarrow>
        cluster_Update k (updatedSecret s kp (data_bytes ca SecretCertKey)) w1 \<noteq> (None, w2))"

lemma certificate_outcome:
  assumes "crypto_ok c" and "ReconcileKind c (factory_reconciler k lister componentName) s w = (e, w')"
    and "labelled componentName s" and "\<not> is_ca k componentName s"
    and "lister (cluster_Namespace k) (componentName @ caSecretNamePostfix) w = Found ca"
    and "parseAndValidateSecret c ca None [] w = Inr issuer"
    and "sansFor (factory_reconciler k lister componentName) s = Some sans"
  shows "case (e, w') of (None, w') \<Rightarrow> kept_or_renewed c k s ca issuer sans w w' | (Some _, w') \<Rightarrow> renewal_failed c k s ca issuer sans w"
proof -
  let ?r = "factory_reconciler k lister componentName"
  have should: "shouldReconcile ?r s" using assms(3,4) by (auto simp: shouldReconcile_def labelled_def is_ca_def)
  have found: "secretLister ?r (system_Namespace ?r) (caSecretName ?r) w = Found ca" using assms(5) by simp
  obtain caCert caPk where issuer: "issuer = (caCert, caPk)" by fastforce
  note valid = assms(6) [unfolded issuer]
  show ?thesis
  proof (cases e)
    case None
    with assms(2) have "ReconcileKind c ?r s w = (None, w')" by simp
    with ReconcileKind_nil [OF assms(1) should found valid assms(7)] consider
      (kept) cert pk where "parseAndValidateSecret c s (data_bytes ca SecretCertKey) sans w = Inr (cert, pk)" "w' = enqueueBeforeExpiration c ?r s cert w"
    | (renewed) err kp w1 w2 cert pk where "parseAndValidateSecret c s (data_bytes ca SecretCertKey) sans w = Inl err"
       "CreateCert c caPk caCert expirationInterval sans w = (Inr kp, w1)" "client_Update ?r (updatedSecret s kp (data_bytes ca SecretCertKey)) w1 = (None, w2)"
       "KeyPair_Parse c kp = Inr (cert, pk)" "w' = enqueueBeforeExpiration c ?r s cert w2" by blast
    then have "kept_or_renewed c k s ca issuer sans w w'"
    proof cases
      case kept
      then show ?thesis by (simp add: kept_or_renewed_def enqueueBeforeExpiration_def)
    next
      case renewed
      from CreateCert_ok [OF assms(1) renewed(2)] renewed(4) have "DNSNames cert = sans" by auto
      with renewed show ?thesis by (simp add: kept_or_renewed_def enqueueBeforeExpiration_def issuer)
    qed
    with None show ?thesis by simp
  next
    case (Some err)
    with assms(2) have "ReconcileKind c ?r s w = (Some err, w')" by simp
    from ReconcileKind_error [OF assms(1) should found valid assms(7) this] have "renewal_failed c k s ca issuer sans w"
      by (simp add: renewal_failed_def issuer)
    with Some show ?thesis by simp
  qed
qed

section \<open>Properties\<close>

text \<open>
  C9. A changed CA reaches every certificate.  When the CA secret is added, changed or deleted, while the work queue is not shutting down,
  the keys enqueued are those of all secrets of the store with the component's label, each once and in the order of the store, followed by the key
  of the event's own object if it has the label (of an update the new object, or else the old one); any other event enqueues the labelled
  object it is about and nothing else.  And when the
  leader takes the key of a live secret with the label (one of a known type, with no slash in its name) while the CA is valid, then the controller either returns nil, having
  found the secret valid for this CA or having written it with a new certificate of this CA for the names its type asks for, and in
  both cases having scheduled its rotation; or it returns an error, because the secret did not match and a certificate
  could not be created or the update failed.
\<close>

theorem ca_change_renews_secrets:
  assumes "fmlookup (ctx_informers k) (componentName @ secretLabelNamePostfix) = Some lister"
    and "NewControllerFactory c k componentName = Some impl" and "crypto_ok c"
  shows "(\<not> workQueue_ShuttingDown k \<longrightarrow>
      informer_handlers k componentName store ev =
        (if ca_event k componentName ev then map (\<lambda>s. (Namespace s, Name s)) (filter (labelled componentName) store) else []) @
        own_keys componentName ev) \<and>
    (\<forall>s w ca issuer sans.
      labelled componentName s \<and> \<not> is_ca k componentName s \<and> plain_key s \<and> cluster_IsLeaderFor k (Namespace s, Name s) w \<and>
      lister (Namespace s) (Name s) w = Found s \<and> \<not> Deleted s \<and>
      lister (cluster_Namespace k) (componentName @ caSecretNamePostfix) w = Found ca \<and>
      parseAndValidateSecret c ca None [] w = Inr issuer \<and>
      sansFor (factory_reconciler k lister componentName) s = Some sans \<longrightarrow>
      (case Reconcile (impl_Reconciler impl) base (key_of s) w of
         (None, w') \<Rightarrow> kept_or_renewed c k s ca issuer sans w w'
       | (Some _, w') \<Rightarrow> renewal_failed c k s ca issuer sans w))"
proof (intro conjI allI impI)
  assume "\<not> workQueue_ShuttingDown k"
  then show "informer_handlers k componentName store ev =
      (if ca_event k componentName ev then map (\<lambda>s. (Namespace s, Name s)) (filter (labelled componentName) store) else []) @
      own_keys componentName ev"
    by (rule informer_handlers_eq)
next
  fix s w ca issuer sans
  let ?r = "factory_reconciler k lister componentName"
  assume s: "labelled componentName s \<and> \<not> is_ca k componentName s \<and> plain_key s \<and> cluster_IsLeaderFor k (Namespace s, Name s) w \<and>
      lister (Namespace s) (Name s) w = Found s \<and> \<not> Deleted s \<and>
      lister (cluster_Namespace k) (componentName @ caSecretNamePostfix) w = Found ca \<and>
      parseAndValidateSecret c ca None [] w = Inr issuer \<and> sansFor ?r s = Some sans"
  then have kind: "Reconcile (impl_Reconciler impl) base (key_of s) w =
      (case ReconcileKind c ?r s w of (None, w') \<Rightarrow> (None, w')
       | (Some err, w') \<Rightarrow> (Some (PlainEvent err), Recorder (impl_Reconciler impl) s EventTypeWarning ''InternalError'' (error_text err) w'))"
    by (intro Reconcile_reaches_secret [OF _ _ assms(1) _ _ assms(2)]) simp_all
  obtain e w' where e: "ReconcileKind c ?r s w = (e, w')" by fastforce
  have "case (e, w') of (None, w') \<Rightarrow> kept_or_renewed c k s ca issuer sans w w' | (Some _, w') \<Rightarrow> renewal_failed c k s ca issuer sans w"
    using s by (intro certificate_outcome [OF assms(3) e]) simp_all
  then show "case Reconcile (impl_Reconciler impl) base (key_of s) w of (None, w') \<Rightarrow> kept_or_renewed c k s ca issuer sans w w'
      | (Some _, w') \<Rightarrow> renewal_failed c k s ca issuer sans w"
    unfolding kind e by (cases e) simp_all
qed

theorem ca_change_renews_secrets_witness:
  "\<exists>impl. NewControllerFactory toy_crypto example_cluster ''c'' = Some impl \<and>
     informer_handlers example_cluster ''c'' [example_ca, example_secret] (OnDelete (SecretObject example_ca)) = [(''ns'', ''certs'')] \<and>
     Reconcile (impl_Reconciler impl) () ''ns/certs'' 0 = (None, 0) \<and>
     kept_or_renewed toy_crypto example_cluster example_secret example_ca (toy_ca, 5) [ControlPlaneName, LegacyFakeDnsName] 0 0"
proof -
  let ?sans = "[ControlPlaneName, LegacyFakeDnsName]"
  obtain kp where kp: "CreateCert toy_crypto 5 toy_ca expirationInterval ?sans 0 = (Inr kp, 0)"
    using toy_CreateCert by (auto simp: expirationInterval_def ac_simps)
  obtain impl :: "(unit, int) controller_Impl" where impl: "NewControllerFactory toy_crypto example_cluster ''c'' = Some impl"
    using NewControllerFactory_None [of toy_crypto example_cluster "''c''"] example_informer by auto
  have key: "key_of example_secret = ''ns/certs''" by (simp add: example_secret_def toy_secret_def key_of_def)
  have failed: "\<not> renewal_failed toy_crypto example_cluster example_secret example_ca (toy_ca, 5) ?sans 0"
    using kp by (auto simp: renewal_failed_def example_cluster_def)
  have kept: "kept_or_renewed toy_crypto example_cluster example_secret example_ca (toy_ca, 5) ?sans 0 w' \<Longrightarrow> w' = 0" for w'
    using kp by (auto simp: kept_or_renewed_def example_setting example_cluster_def)
  note C9 = ca_change_renews_secrets [OF example_informer impl toy_crypto_ok, of "[example_ca, example_secret]" "OnDelete (SecretObject example_ca)" "()"]
  have "informer_handlers example_cluster ''c'' [example_ca, example_secret] (OnDelete (SecretObject example_ca)) = [(''ns'', ''certs'')]"
    using conjunct1 [OF C9] by (simp add: example_defs ca_event_def is_ca_def)
  moreover have "case Reconcile (impl_Reconciler impl) () (key_of example_secret) 0 of
      (None, w') \<Rightarrow> kept_or_renewed toy_crypto example_cluster example_secret example_ca (toy_ca, 5) ?sans 0 w'
    | (Some _, w') \<Rightarrow> renewal_failed toy_crypto example_cluster example_secret example_ca (toy_ca, 5) ?sans 0"
    by (rule mp [OF spec [OF spec [OF spec [OF spec [OF spec [OF conjunct2 [OF C9]]]]]]])
       (simp add: example_setting, simp add: example_defs is_ca_def plain_key_def)
  ultimately show ?thesis using impl failed kept unfolding key by (auto split: prod.split_asm option.split_asm)
qed

text \<open>
  C36. A CA secret without the component's label is ignored: the informer of the controller shows secrets with that
  label only, so that when the CA secret has none, reconciling any key changes nothing and returns nil or
  skips the key: no certificate is ever issued, and no error says why.
\<close>

theorem unlabelled_ca_is_ignored:
  assumes "fmlookup (ctx_informers k) (componentName @ secretLabelNamePostfix) =
        Some (filtered_lister secrets (componentName @ secretLabelNamePostfix))"
    and "NewControllerFactory c k componentName = Some impl"
    and "\<forall>ca \<in> set (secrets w). Namespace ca = cluster_Namespace k \<and> Name ca = componentName @ caSecretNamePostfix \<longrightarrow>
           fmlookup (Labels ca) (componentName @ secretLabelNamePostfix) = None"
  shows "Reconcile (impl_Reconciler impl) base key w \<in> {(None, w), (Some (SkipKey key), w)}"
proof -
  let ?lister = "filtered_lister secrets (componentName @ secretLabelNamePostfix)"
  let ?r = "factory_reconciler k ?lister componentName"
  have "ReconcileKind c ?r s w = (None, w)" for s
    by (rule ReconcileKind_no_ca) (use filtered_lister_NotFound [where secrets = secrets and w = w, OF assms(3)] in simp)
  moreover have "?lister ns name w \<noteq> LookupError e" for ns name e
    by (simp add: filtered_lister_def split: option.splits)
  ultimately show ?thesis
    using assms(1,2)
    by (auto simp: NewControllerFactory_Some Reconcile_def Let_def newState_def isNotLeaderNorObserver_def reconcileMethodFor_def
        setFinalizerIfFinalizer_def certs_typed_def reportEvent_def split: option.splits lookup_result.splits)
qed

theorem unlabelled_ca_is_ignored_witness:
  "\<exists>impl. NewControllerFactory toy_crypto
       (example_cluster\<lparr>ctx_informers := fmupd ''c-ctrl'' (filtered_lister (\<lambda>w. [example_ca, example_secret]) ''c-ctrl'') fmempty\<rparr>) ''c'' = Some impl \<and>
     Reconcile (impl_Reconciler impl) () ''ns/certs'' 0 \<in> {(None, 0), (Some (SkipKey ''ns/certs''), 0)}"
proof -
  let ?k = "example_cluster\<lparr>ctx_informers := fmupd ''c-ctrl'' (filtered_lister (\<lambda>w. [example_ca, example_secret]) ''c-ctrl'') fmempty\<rparr>"
  obtain impl :: "(unit, int) controller_Impl" where impl: "NewControllerFactory toy_crypto ?k ''c'' = Some impl"
    using NewControllerFactory_None [of toy_crypto ?k "''c''"] by (auto simp: secretLabelNamePostfix_def)
  have "Reconcile (impl_Reconciler impl) () ''ns/certs'' 0 \<in> {(None, 0), (Some (SkipKey ''ns/certs''), 0)}"
    by (rule unlabelled_ca_is_ignored [where secrets = "\<lambda>w. [example_ca, example_secret]", OF _ impl])
       (simp_all add: secretLabelNamePostfix_def caSecretNamePostfix_def example_ca_def toy_ca_secret_def example_secret_def
          toy_secret_def example_cluster_def)
  with impl show ?thesis by blast
qed

end
