(* ===== verification/Tls_Config.thy ===== *)
theory Tls_Config
  imports Cert_Reconciler
begin

text \<open>
  \<open>pkg/network/tls.go\<close> and \<open>pkg/reconciler/tls_dialer_factory.go\<close>: the TLS configurations of servers
  and clients, and the check of names by which the two ends recognise each other.

  The file system and \<open>tls.X509KeyPair\<close> are the record \<open>tls_env\<close>; a certificate pool is the list of the
  PEM texts appended to it.  The check of names follows \<open>crypto/x509\<close>; no name used here is an IP
  address.
\<close>

section \<open>Host names\<close>

definition TrimSuffix_dot :: "string \<Rightarrow> string" where
  "TrimSuffix_dot s = (if s \<noteq> [] \<and> last s = CHR ''.'' then butlast s else s)"

definition host_char :: "bool \<Rightarrow> char \<Rightarrow> bool" where
  "host_char first c \<longleftrightarrow>
     (let n = of_char c :: nat
      in (97 \<le> n \<and> n \<le> 122) \<or> (48 \<le> n \<and> n \<le> 57) \<or> (65 \<le> n \<and> n \<le> 90) \<or>
         (c = CHR ''-'' \<and> \<not> first) \<or> c = CHR ''_'')"

definition host_part :: "string \<Rightarrow> bool" where
  "host_part part \<longleftrightarrow> part \<noteq> [] \<and> host_char True (hd part) \<and> list_all (host_char False) (tl part)"

definition validHostname :: "string \<Rightarrow> bool \<Rightarrow> bool" where
  "validHostname host isPattern \<longleftrightarrow>
     (let host' = (if isPattern then host else TrimSuffix_dot host); parts = strings_Split CHR ''.'' host'
      in host' \<noteq> [] \<and> ((isPattern \<and> hd parts = ''*'') \<or> host_part (hd parts)) \<and> list_all host_part (tl parts))"

definition matchExactly :: "string \<Rightarrow> string \<Rightarrow> bool" where
  "matchExactly a b \<longleftrightarrow> a \<notin> {'''', ''.''} \<and> b \<notin> {'''', ''.''} \<and> ToLower a = ToLower b"

definition matchHostnames :: "string \<Rightarrow> string \<Rightarrow> bool" where
  "matchHostnames pattern host \<longleftrightarrow>
     (let p = ToLower pattern; h = ToLower (TrimSuffix_dot host);
          ps = strings_Split CHR ''.'' p; hs = strings_Split CHR ''.'' h
      in p \<noteq> [] \<and> h \<noteq> [] \<and> length ps = length hs \<and> (hd ps = ''*'' \<or> hd ps = hd hs) \<and> tl ps = tl hs)"

text \<open>The text of the error, which lists the names of the certificate, is abbreviated.\<close>

definition VerifyHostname :: "Certificate \<Rightarrow> string \<Rightarrow> go_error option" where
  "VerifyHostname cert h =
     (let candidateName = ToLower h; validCandidateName = validHostname candidateName False
      in if (\<exists>m \<in> set (DNSNames cert).
               if validCandidateName \<and> validHostname m True then matchHostnames m candidateName
               else matchExactly m candidateName)
         then None else Some (ErrorString (''x509: certificate is not valid for '' @ h)))"

section \<open>Configurations\<close>

record 'tc tls_Config =
  tls_Certificates :: "'tc list"
  ClientCAs :: "bytes list"
  RequireAndVerifyClientCert :: bool
  VerifyConnection :: "(Certificate list \<Rightarrow> go_error option option) option"
  RootCAs :: "bytes list"
  ServerName :: string

record 'tc tls_env =
  ReadFile :: "string \<Rightarrow> go_error + bytes"
  X509KeyPair :: "bytes \<Rightarrow> bytes \<Rightarrow> go_error + 'tc"

definition baseCertsPath :: string where "baseCertsPath = ''/etc/control-secret''"
definition publicCertPath :: string where "publicCertPath = baseCertsPath @ ''/'' @ SecretCertKey"
definition pkPath :: string where "pkPath = baseCertsPath @ ''/'' @ SecretPKKey"
definition caCertPath :: string where "caCertPath = baseCertsPath @ ''/'' @ SecretCaCertKey"

text \<open>\<open>tls.LoadX509KeyPair\<close>.\<close>

definition LoadX509KeyPair :: "'tc tls_env \<Rightarrow> string \<Rightarrow> string \<Rightarrow> go_error + 'tc" where
  "LoadX509KeyPair env certFile keyFile =
     (case ReadFile env certFile of
        Inl err \<Rightarrow> Inl err
      | Inr certPEMBlock \<Rightarrow>
          (case ReadFile env keyFile of
             Inl err \<Rightarrow> Inl err
           | Inr keyPEMBlock \<Rightarrow> X509KeyPair env certPEMBlock keyPEMBlock))"

text \<open>The hook of the server looks at the first certificate of the peer; without one it panics.\<close>

definition server_VerifyConnection :: "Certificate list \<Rightarrow> go_error option option" where
  "server_VerifyConnection peers =
     (case peers of [] \<Rightarrow> None | cert # _ \<Rightarrow> Some (VerifyHostname cert (DataPlaneRoutingName '''')))"

definition LoadServerTLSConfigFromFile :: "'tc tls_env \<Rightarrow> go_error + 'tc tls_Config" where
  "LoadServerTLSConfigFromFile env =
     (case LoadX509KeyPair env publicCertPath pkPath of
        Inl err \<Rightarrow> Inl err
      | Inr cert \<Rightarrow>
          (case ReadFile env caCertPath of
             Inl err \<Rightarrow> Inl err
           | Inr caCert \<Rightarrow>
               Inr \<lparr>tls_Certificates = [cert], ClientCAs = [caCert], RequireAndVerifyClientCert = True,
                    VerifyConnection = Some server_VerifyConnection, RootCAs = [], ServerName = ''''\<rparr>))"

definition LoadClientTLSConfigFromFile :: "'tc tls_env \<Rightarrow> go_error + 'tc tls_Config" where
  "LoadClientTLSConfigFromFile env =
     (case LoadX509KeyPair env publicCertPath pkPath of
        Inl err \<Rightarrow> Inl err
      | Inr cert \<Rightarrow>
          (case ReadFile env caCertPath of
             Inl err \<Rightarrow> Inl err
           | Inr caCert \<Rightarrow>
               Inr \<lparr>tls_Certificates = [cert], ClientCAs = [], RequireAndVerifyClientCert = False,
                    VerifyConnection = None, RootCAs = [caCert], ServerName = DataPlaneUserName ''myns''\<rparr>))"

section \<open>The dialer factory\<close>

text \<open>The lister returns an error or a pointer to a secret, which may be nil.\<close>

record ListerCertificateGetter =
  getter_secrets :: "string \<Rightarrow> string \<Rightarrow> go_error + Secret option"
  getter_name :: string
  getter_namespace :: string

definition NewCertificateGetter ::
  "(string \<Rightarrow> string \<Rightarrow> go_error + Secret option) \<Rightarrow> string \<Rightarrow> string \<Rightarrow> ListerCertificateGetter" where
  "NewCertificateGetter secrets namespace name =
     \<lparr>getter_secrets = secrets, getter_name = name, getter_namespace = namespace\<rparr>"

record ('d, 'tc) tls_Dialer =
  NetDialer :: 'd
  Config :: "'tc tls_Config"

definition noTlsConfiguration :: go_error where
  "noTlsConfiguration = ErrorString ''no tls configuration available''"

definition GenerateTLSDialer ::
  "'tc tls_env \<Rightarrow> ListerCertificateGetter \<Rightarrow> 'd \<Rightarrow> go_error + ('d, 'tc) tls_Dialer" where
  "GenerateTLSDialer env ch baseDialOptions =
     (case getter_secrets ch (getter_namespace ch) (getter_name ch) of
        Inl err \<Rightarrow> Inl err
      | Inr None \<Rightarrow> Inl noTlsConfiguration
      | Inr (Some secret) \<Rightarrow>
          (case (data_bytes secret SecretCaCertKey, data_bytes secret SecretCertKey, data_bytes secret SecretPKKey) of
             (Some caCertBytes, Some certBytes, Some privateKeyBytes) \<Rightarrow>
               (case X509KeyPair env certBytes privateKeyBytes of
                  Inl err \<Rightarrow> Inl err
                | Inr controlPlaneCert \<Rightarrow>
                    Inr \<lparr>NetDialer = baseDialOptions,
                         Config = \<lparr>tls_Certificates = [controlPlaneCert], ClientCAs = [],
                                   RequireAndVerifyClientCert = False, VerifyConnection = None,
                                   RootCAs = [caCertBytes],
                                   ServerName = DataPlaneUserName (getter_namespace ch)\<rparr>\<rparr>)
           | _ \<Rightarrow> Inl noTlsConfiguration))"

section \<open>Lemmas\<close>

lemma lower_char_id: "\<not> (65 \<le> (of_char c :: nat) \<and> (of_char c :: nat) \<le> 90) \<Longrightarrow> lower_char c = c"
  by (auto simp: lower_char_def Let_def)

lemma lower_char_special:
  assumes "(of_char d :: nat) < 65"
  shows "lower_char c = d \<longleftrightarrow> c = d"
proof (cases "65 \<le> (of_char c :: nat) \<and> (of_char c :: nat) \<le> 90")
  case True
  then have "(of_char (lower_char c) :: nat) = of_char c + 32" by (simp add: lower_char_def of_char_of)
  with True assms show ?thesis by auto
qed (auto simp: lower_char_id)

lemma lower_char_idem [simp]: "lower_char (lower_char c) = lower_char c"
proof (cases "65 \<le> (of_char c :: nat) \<and> (of_char c :: nat) \<le> 90")
  case True
  then have "(of_char (lower_char c) :: nat) = of_char c + 32" by (simp add: lower_char_def of_char_of)
  with True show ?thesis by (intro lower_char_id) simp
qed (simp add: lower_char_id)

lemma ToLower_idem [simp]: "ToLower (ToLower s) = ToLower s"
  by (simp add: ToLower_def)

lemma ToLower_simps [simp]:
  "ToLower [] = []" "[] = ToLower s \<longleftrightarrow> s = []" "ToLower s = [] \<longleftrightarrow> s = []" "ToLower (s @ t) = ToLower s @ ToLower t" "length (ToLower s) = length s"
  by (auto simp: ToLower_def)

lemma dot_ToLower [simp]: "CHR ''.'' \<in> set (ToLower s) \<longleftrightarrow> CHR ''.'' \<in> set s"
proof -
  have "lower_char c = CHR ''.'' \<longleftrightarrow> c = CHR ''.''" for c by (rule lower_char_special) simp
  then show ?thesis by (simp add: ToLower_def image_iff eq_commute [of "CHR ''.''"])
qed

lemma TrimSuffix_dot_plain: "CHR ''.'' \<notin> set s \<Longrightarrow> TrimSuffix_dot s = s"
  by (auto simp: TrimSuffix_dot_def dest: last_in_set)

text \<open>For a name without dots, and certificates without wildcards, the check is equality up to case.\<close>

lemma matchHostnames_plain:
  assumes "CHR ''.'' \<notin> set h" and "h \<noteq> []" and "n \<noteq> ''*''"
  shows "matchHostnames n h \<longleftrightarrow> ToLower n = ToLower h"
proof -
  have star: "ToLower n = ''*'' \<longleftrightarrow> n = ''*''"
    using lower_char_special [of "CHR ''*''"] by (cases n) (simp_all add: ToLower_def)
  have h: "strings_Split CHR ''.'' (ToLower h) = [ToLower h]"
    using assms(1) by (intro strings_Split_plain) simp
  obtain p ps where ps: "strings_Split CHR ''.'' (ToLower n) = p # ps"
    by (metis list.exhaust strings_Split_not_Nil)
  show ?thesis
  proof (cases ps)
    case Nil
    with ps have "p = ToLower n" using strings_Split_singleton [of "CHR ''.''" "ToLower n" p] by simp
    with Nil ps h star assms show ?thesis by (auto simp: matchHostnames_def TrimSuffix_dot_plain Let_def)
  next
    case (Cons q qs)
    with ps h have "ToLower n \<noteq> ToLower h" by auto
    with Cons ps h assms(1) show ?thesis by (simp add: matchHostnames_def TrimSuffix_dot_plain Let_def)
  qed
qed

lemma VerifyHostname_plain:
  assumes "CHR ''.'' \<notin> set h" and "h \<noteq> []" and "''*'' \<notin> set (DNSNames cert)"
  shows "VerifyHostname cert h = None \<longleftrightarrow> (\<exists>n \<in> set (DNSNames cert). ToLower n = ToLower h)"
proof -
  have "(if v \<and> validHostname n True then matchHostnames n (ToLower h) else matchExactly n (ToLower h)) \<longleftrightarrow>
      ToLower n = ToLower h" if "n \<in> set (DNSNames cert)" for n v
  proof -
    have "n \<noteq> ''*''" using that assms(3) by auto
    moreover have "matchExactly n (ToLower h) \<longleftrightarrow> ToLower n = ToLower h"
    proof -
      have "ToLower h \<noteq> ''.''" using assms(1) by (metis dot_ToLower list.set_intros(1))
      moreover have "ToLower n \<noteq> ToLower h" if "n = ''.''"
        using that assms(1) by (metis dot_ToLower list.set_intros(1))
      ultimately show ?thesis using assms(2) by (auto simp: matchExactly_def)
    qed
    ultimately show ?thesis using matchHostnames_plain [of "ToLower h" n] assms(1,2) by simp
  qed
  then show ?thesis by (auto simp: VerifyHostname_def Let_def)
qed

lemma ToLower_literals [simp]:
  "ToLower ''0'' = ''0''" "ToLower dataPlaneRoutingPrefix = dataPlaneRoutingPrefix"
  "ToLower dataPlaneUserPrefix = dataPlaneUserPrefix" "ToLower ControlPlaneName = ControlPlaneName"
  "ToLower LegacyFakeDnsName = LegacyFakeDnsName"
  by (simp_all add: name_defs ToLower_def lower_char_def)

lemma ToLower_zero: "ToLower s = ''0'' \<longleftrightarrow> s = ''0''"
  using lower_char_special [of "CHR ''0''"] by (cases s) (simp_all add: ToLower_def)

lemma ToLower_names:
  "ToLower (DataPlaneRoutingName i) = DataPlaneRoutingName i" "ToLower (DataPlaneUserName ns) = DataPlaneUserName ns"
  by (simp_all add: DataPlaneRoutingName_def DataPlaneUserName_def)

lemma DataPlaneRoutingName_default: "DataPlaneRoutingName i = DataPlaneRoutingName '''' \<longleftrightarrow> i \<in> {'''', ''0''}"
  by (auto simp: DataPlaneRoutingName_def ToLower_zero)

lemma names_distinct:
  "ControlPlaneName \<noteq> DataPlaneRoutingName i" "LegacyFakeDnsName \<noteq> DataPlaneRoutingName i"
  "DataPlaneUserName ns \<noteq> DataPlaneRoutingName i" "ControlPlaneName \<noteq> DataPlaneUserName ns"
  "LegacyFakeDnsName \<noteq> DataPlaneUserName ns"
  by (simp_all add: DataPlaneRoutingName_def DataPlaneUserName_def name_defs)

lemma names_plain:
  "CHR ''.'' \<notin> set (DataPlaneRoutingName '''')" "CHR ''.'' \<notin> set ns \<Longrightarrow> CHR ''.'' \<notin> set (DataPlaneUserName ns)"
  "DataPlaneRoutingName i \<noteq> []" "DataPlaneUserName ns \<noteq> []" "DataPlaneRoutingName i \<noteq> ''*''" "DataPlaneUserName ns \<noteq> ''*''"
  by (simp_all add: DataPlaneRoutingName_def DataPlaneUserName_def dataPlaneRoutingPrefix_def dataPlaneUserPrefix_def)

text \<open>The names that the reconciler of certificates issues, by the type of the secret.\<close>

lemma issued_names:
  assumes "sansFor r secret = Some (DNSNames cert)"
  shows "''*'' \<notin> set (DNSNames cert)"
    and "DataPlaneRoutingName '''' \<in> ToLower ` set (DNSNames cert) \<longleftrightarrow>
      label secret (secretTypeLabelName r) = dataPlaneRoutingSecretType \<and> label secret secretRoutingId \<in> {'''', ''0''}"
    and "DataPlaneUserName ns \<in> ToLower ` set (DNSNames cert) \<longleftrightarrow>
      label secret (secretTypeLabelName r) = dataPlaneUserSecretType \<and> DataPlaneUserName (Namespace secret) = DataPlaneUserName ns"
proof -
  define ty where "ty = label secret (secretTypeLabelName r)"
  consider (control) "ty = controlPlaneSecretType" "DNSNames cert = [ControlPlaneName, LegacyFakeDnsName]"
    | (routing) "ty = dataPlaneRoutingSecretType"
        "DNSNames cert = [DataPlaneRoutingName (label secret secretRoutingId), LegacyFakeDnsName]"
    | (user) "ty = dataPlaneUserSecretType" "DNSNames cert = [DataPlaneUserName (Namespace secret), LegacyFakeDnsName]"
    | (deprecated) "ty = dataPlaneDeprecatedSecretType" "DNSNames cert = [LegacyFakeDnsName]"
    using assms unfolding sansFor_def ty_def [symmetric] by (auto simp: Let_def split: if_splits)
  note cases = this
  have types: "dataPlaneRoutingSecretType \<notin> {controlPlaneSecretType, dataPlaneUserSecretType, dataPlaneDeprecatedSecretType}"
    "dataPlaneUserSecretType \<notin> {controlPlaneSecretType, dataPlaneRoutingSecretType, dataPlaneDeprecatedSecretType}"
    by (simp_all add: type_defs)
  note names = ToLower_names names_distinct names_distinct [symmetric]
  show "''*'' \<notin> set (DNSNames cert)"
    using cases by cases (auto simp: names_plain(5,6) [symmetric] ControlPlaneName_def LegacyFakeDnsName_def)
  show "DataPlaneRoutingName '''' \<in> ToLower ` set (DNSNames cert) \<longleftrightarrow>
      label secret (secretTypeLabelName r) = dataPlaneRoutingSecretType \<and> label secret secretRoutingId \<in> {'''', ''0''}"
    unfolding ty_def [symmetric] DataPlaneRoutingName_default [symmetric]
    using cases by cases (use types in \<open>auto simp: names\<close>)
  show "DataPlaneUserName ns \<in> ToLower ` set (DNSNames cert) \<longleftrightarrow>
      label secret (secretTypeLabelName r) = dataPlaneUserSecretType \<and> DataPlaneUserName (Namespace secret) = DataPlaneUserName ns"
    unfolding ty_def [symmetric]
    using cases by cases (use types in \<open>auto simp: names\<close>)
qed

definition toy_env :: "nat tls_env" where
  "toy_env = \<lparr>ReadFile = \<lambda>f. Inr [1], X509KeyPair = \<lambda>cert key. Inr 0\<rparr>"

section \<open>Properties\<close>

text \<open>
  C28. Which ends recognise each other: for a certificate with the names that the reconciler issues for
  a secret, the server's check of a client accepts it exactly when the secret is of the routing
  type with the default routing identifier, so that certificates of the control plane and of users
  are refused; and a client whose dialer was generated for namespace \<open>ns\<close> accepts the server exactly
  when the secret is of the user type and in that namespace, up to case.
\<close>

theorem tls_names_match:
  assumes "sansFor r secret = Some (DNSNames cert)" and "CHR ''.'' \<notin> set ns"
    and "LoadServerTLSConfigFromFile env = Inr conf"
    and "GenerateTLSDialer env (NewCertificateGetter secrets ns name) base = Inr dialer"
  shows "(\<exists>verify. VerifyConnection conf = Some verify \<and>
      (verify (cert # intermediates) = Some None \<longleftrightarrow>
         label secret (secretTypeLabelName r) = dataPlaneRoutingSecretType \<and> label secret secretRoutingId \<in> {'''', ''0''})) \<and>
    (VerifyHostname cert (ServerName (Config dialer)) = None \<longleftrightarrow>
       label secret (secretTypeLabelName r) = dataPlaneUserSecretType \<and> ToLower (Namespace secret) = ToLower ns)"
proof -
  have "VerifyConnection conf = Some server_VerifyConnection"
    using assms(3) by (auto simp: LoadServerTLSConfigFromFile_def split: sum.splits)
  moreover have "ServerName (Config dialer) = DataPlaneUserName ns"
    using assms(4) by (auto simp: GenerateTLSDialer_def NewCertificateGetter_def split: sum.splits option.splits)
  moreover have "DataPlaneUserName (Namespace secret) = DataPlaneUserName ns \<longleftrightarrow> ToLower (Namespace secret) = ToLower ns"
    by (simp add: DataPlaneUserName_def)
  moreover have "VerifyHostname cert (DataPlaneRoutingName '''') = None \<longleftrightarrow>
      DataPlaneRoutingName '''' \<in> ToLower ` set (DNSNames cert)"
    using VerifyHostname_plain [OF names_plain(1,3) issued_names(1) [OF assms(1)]]
    unfolding ToLower_names image_iff by metis
  moreover have "VerifyHostname cert (DataPlaneUserName ns) = None \<longleftrightarrow> DataPlaneUserName ns \<in> ToLower ` set (DNSNames cert)"
    using VerifyHostname_plain [OF names_plain(2) [OF assms(2)] names_plain(4) issued_names(1) [OF assms(1)]]
    unfolding ToLower_names image_iff by metis
  ultimately show ?thesis
    using issued_names(2,3) [OF assms(1)] by (simp add: server_VerifyConnection_def)
qed

theorem tls_names_match_witness:
  "\<exists>conf dialer verify. LoadServerTLSConfigFromFile toy_env = Inr conf \<and> VerifyConnection conf = Some verify \<and>
     GenerateTLSDialer toy_env
       (NewCertificateGetter (\<lambda>ns name. Inr (Some (toy_ca_secret\<lparr>Data := fmupd SecretCaCertKey (Some [1]) (Data toy_ca_secret)\<rparr>))) ''ns'' ''certs'')
       (0 :: nat) = Inr dialer \<and>
     verify [toy_cert] \<noteq> Some None \<and> VerifyHostname toy_cert (ServerName (Config dialer)) \<noteq> None"
proof -
  let ?g = "NewCertificateGetter (\<lambda>ns name. Inr (Some (toy_ca_secret\<lparr>Data := fmupd SecretCaCertKey (Some [1]) (Data toy_ca_secret)\<rparr>))) ''ns'' ''certs''"
  have s: "sansFor toy_reconciler toy_secret = Some (DNSNames toy_cert)"
    using toy_setting(3) by (simp add: toy_cert_def)
  obtain conf where conf: "LoadServerTLSConfigFromFile toy_env = Inr conf"
    by (simp add: LoadServerTLSConfigFromFile_def LoadX509KeyPair_def toy_env_def)
  obtain dialer where d: "GenerateTLSDialer toy_env ?g (0 :: nat) = Inr dialer"
    using data_keys_distinct data_keys_distinct [symmetric]
    by (simp add: GenerateTLSDialer_def NewCertificateGetter_def data_bytes_def toy_env_def toy_ca_secret_def)
  have "label toy_secret (secretTypeLabelName toy_reconciler) = controlPlaneSecretType"
    by (simp add: label_def toy_secret_def toy_reconciler_def)
  moreover have "controlPlaneSecretType \<noteq> dataPlaneRoutingSecretType" "controlPlaneSecretType \<noteq> dataPlaneUserSecretType"
    by (simp_all add: type_defs)
  ultimately show ?thesis
    using tls_names_match [OF s _ conf d, of "[]"] conf d by auto
qed

end
