(* ===== verification/Endpoint.thy ===== *)
theory Endpoint
  imports Base_Connection
begin

text \<open>
  What the client (\<open>client_connection.go\<close>) and the server (\<open>server_connection.go\<close>) have in common:
  both keep one \<open>baseTcpConnection\<close> and run \<open>consumeConnection\<close> on one \<open>net.Conn\<close> after the other.  In
  between, the users of the connection go on: they submit and take messages, take errors, and
  cancel the context.  The locale \<open>endpoint\<close> is the contract under which messages are conserved over
  the whole life of an endpoint; client and server interpret it.
\<close>

section \<open>Between two connections\<close>

inductive idle_step :: "baseTcpConnection \<Rightarrow> clabel \<Rightarrow> baseTcpConnection \<Rightarrow> bool" where
  i_submit: "idle_step b (CSubmit m) (WriteMessage b m)"
| i_hand_out: "ReadMessage False b = Some (Some m, b') \<Longrightarrow> idle_step b (CHandOut m) b'"
| i_cancel: "idle_step b CCancel (b\<lparr>ctx_done := True\<rparr>)"
| i_error: "Errors_recv b = Some (e, b') \<Longrightarrow> idle_step b (CErrorTaken e) b'"

inductive_cases idle_stepE: "idle_step b l b'"

abbreviation outbox :: "baseTcpConnection \<Rightarrow> Message list" where
  "outbox b \<equiv> queue (writeQueue b)"

abbreviation inbox :: "baseTcpConnection \<Rightarrow> Message list" where
  "inbox b \<equiv> queue (readQueue b)"

lemma idle_step_order: "idle_step b l b' \<Longrightarrow> outbox b @ submitted [l] = written [l] @ outbox b'"
  by (elim idle_stepE) (auto simp: session_simps)

lemma idle_step_inbound: "idle_step b l b' \<Longrightarrow> inbox b @ received [l] = handed_out [l] @ inbox b'"
  by (elim idle_stepE) (auto simp: session_simps)

lemma idle_step_ctx: "idle_step b l b' \<Longrightarrow> ctx_done b \<Longrightarrow> ctx_done b'"
  by (elim idle_stepE) (auto simp: session_simps)

lemma session_step_ctx: "session_step s l t \<Longrightarrow> ctx_done (base s) \<Longrightarrow> ctx_done (base t)"
  by (elim session_elims) (auto simp: session_simps)

lemma unwritten_start [simp]: "unwritten (start_session b c) = outbox b"
  by (simp add: unwritten_def in_flight_def start_session_def)

lemma unwritten_done: "session_done s \<Longrightarrow> unwritten s = outbox (base s)"
  by (simp add: unwritten_def in_flight_def session_done_def)

lemma outbox_cleanup [simp]: "outbox (cleanup b) = outbox b" "inbox (cleanup b) = inbox b" "ctx_done (cleanup b) = ctx_done b"
  by (simp_all add: cleanup_def)

text \<open>A session whose context is cancelled and whose errors are taken moves, is done, or has lost its wake-up.\<close>

definition lost_wakeup :: "session \<Rightarrow> bool" where
  "lost_wakeup s \<longleftrightarrow> monitor s = MonDone \<and> reader s = RDone \<and> writer s = WAsleep \<and> outbox (base s) = []"

lemma session_progress:
  assumes "session_inv s" and "ctx_done (base s)" and "length (unrecoverableErrors (base s)) < errors_cap"
  shows "session_done s \<or> (\<exists>l t. consumeConnection s l t) \<or> lost_wakeup s"
  using assms writer_progress reader_progress monitor_progress
  by (auto simp: session_done_def session_inv_def lost_wakeup_def)

section \<open>The contract\<close>

lemma labels_append:
  "submitted (ls @ ls') = submitted ls @ submitted ls' \<and> written (ls @ ls') = written ls @ written ls' \<and>
   received (ls @ ls') = received ls @ received ls' \<and> handed_out (ls @ ls') = handed_out ls @ handed_out ls'"
proof (induction ls' rule: rev_induct)
  case (snoc l ls')
  then show ?case
    by (metis append_assoc handed_out_append received_append submitted_append written_append)
qed simp

text \<open>
  \<open>vis\<close> is what a step shows of the connection, \<open>todo\<close> what is still to be written and \<open>taken\<close> what
  was read and is still to be handed out.
\<close>

locale endpoint =
  fixes step :: "'s \<Rightarrow> 'l \<Rightarrow> 's \<Rightarrow> bool"
    and vis :: "'l \<Rightarrow> clabel list"
    and todo :: "'s \<Rightarrow> Message list"
    and taken :: "'s \<Rightarrow> Message list"
  assumes step_out: "step s l t \<Longrightarrow> todo s @ submitted (vis l) = written (vis l) @ todo t"
    and step_in: "step s l t \<Longrightarrow> taken s @ received (vis l) = handed_out (vis l) @ taken t"
begin

definition shown :: "'l list \<Rightarrow> clabel list" where
  "shown ls = concat (map vis ls)"

lemma conserves_outbound: "runs step s ls t \<Longrightarrow> todo s @ submitted (shown ls) = written (shown ls) @ todo t"
proof (induction rule: runs.induct)
  case (runs_snoc s ls t l u)
  with step_out [OF runs_snoc.hyps(2)] show ?case
    by (simp add: shown_def labels_append) (metis append_assoc)
qed (simp add: shown_def)

lemma conserves_inbound: "runs step s ls t \<Longrightarrow> taken s @ received (shown ls) = handed_out (shown ls) @ taken t"
proof (induction rule: runs.induct)
  case (runs_snoc s ls t l u)
  with step_in [OF runs_snoc.hyps(2)] show ?case
    by (simp add: shown_def labels_append) (metis append_assoc)
qed (simp add: shown_def)

end

end
