(* ===== verification/Client_Connection.thy ===== *)
theory Client_Connection
  imports Endpoint Service
begin

text \<open>
  \<open>pkg/network/client_connection.go\<close> and \<open>constants.go\<close>: the client dials with retries, consumes the
  connection, redials when it is lost, and closes its channels when redialling fails or the
  context is cancelled.

  The dialer is an argument of \<open>tryDial\<close>, as in the code.  The goroutine of \<open>startPolling\<close> is a step
  relation whose states are its program points; there, the outcome of each dial is part of the
  label.  A connection a dialer returns is open and nothing has been written to it.
\<close>

section \<open>Dialling\<close>

definition clientInitialDialRetry :: nat where "clientInitialDialRetry = 5"
definition clientReconnectionRetry :: nat where "clientReconnectionRetry = 10"

text \<open>In nanoseconds.\<close>

definition clientDialRetryInterval :: int where "clientDialRetryInterval = 200 * 1000000"

text \<open>
  \<open>tryDial\<close>: \<open>dialer\<close> stands for \<open>DialContext\<close>, \<open>interval\<close> for the \<open>select\<close> between the context and the
  timer, \<open>True\<close> being the context's branch.  The result is the pair of return values.
\<close>

fun tryDial ::
  "(string \<Rightarrow> 'w \<Rightarrow> (go_error + conn) \<times> 'w) \<Rightarrow> ('w \<Rightarrow> bool \<times> 'w) \<Rightarrow> string \<Rightarrow> nat \<Rightarrow> go_error option \<Rightarrow> 'w \<Rightarrow>
     (conn option \<times> go_error option) \<times> 'w" where
  "tryDial dialer interval target 0 err w = ((None, err), w)"
| "tryDial dialer interval target (Suc retries) err w =
     (case dialer target w of
        (Inr conn, w') \<Rightarrow> ((Some conn, None), w')
      | (Inl err', w') \<Rightarrow>
          (case interval w' of
             (True, w'') \<Rightarrow> ((None, Some err'), w'')
           | (False, w'') \<Rightarrow> tryDial dialer interval target retries (Some err') w''))"

definition fresh_conn :: "conn \<Rightarrow> bool" where
  "fresh_conn c \<longleftrightarrow> \<not> c_closed c \<and> c_out c = []"

section \<open>The goroutine of startPolling\<close>

text \<open>
  The states: in \<open>consumeConnection\<close>; at the \<open>select\<close> of \<open>reDialLoop\<close>; in \<open>tryDial\<close>, about to make the
  attempt with index \<open>i\<close>, or at its \<open>select\<close> after attempt \<open>i\<close> failed; before \<open>cleanup\<close>; returned.
\<close>

datatype client =
    CSession session
  | CSelect baseTcpConnection
  | CDial baseTcpConnection nat
  | CRetry baseTcpConnection nat
  | CCleanup baseTcpConnection
  | CClosed baseTcpConnection

datatype client_label = ClConn clabel | ClDialled conn | ClDialFailed go_error | ClTau

definition newClientTcpConnection :: baseTcpConnection where
  "newClientTcpConnection = newBaseTcpConnection"

definition startPolling :: "baseTcpConnection \<Rightarrow> conn \<Rightarrow> client" where
  "startPolling t initialConn = CSession (start_session t initialConn)"

inductive reDialLoop_step :: "client \<Rightarrow> client_label \<Rightarrow> client \<Rightarrow> bool" where
  d_ctx: "ctx_done b \<Longrightarrow> reDialLoop_step (CSelect b) ClTau (CCleanup b)"
| d_dial: "\<not> ctx_done b \<Longrightarrow> reDialLoop_step (CSelect b) ClTau (CDial b 0)"
| d_dialled: "i < clientReconnectionRetry \<Longrightarrow> fresh_conn c \<Longrightarrow>
    reDialLoop_step (CDial b i) (ClDialled c) (CSession (start_session b c))"
| d_failed: "i < clientReconnectionRetry \<Longrightarrow> reDialLoop_step (CDial b i) (ClDialFailed e) (CRetry b i)"
| d_retry_ctx: "ctx_done b \<Longrightarrow> reDialLoop_step (CRetry b i) ClTau (CCleanup b)"
| d_retry: "reDialLoop_step (CRetry b i) ClTau (CDial b (Suc i))"
| d_exhausted: "\<not> i < clientReconnectionRetry \<Longrightarrow> reDialLoop_step (CDial b i) ClTau (CCleanup b)"

inductive client_step :: "client \<Rightarrow> client_label \<Rightarrow> client \<Rightarrow> bool" where
  k_session: "session_step s l t \<Longrightarrow> client_step (CSession s) (ClConn l) (CSession t)"
| k_lost: "session_done s \<Longrightarrow> client_step (CSession s) ClTau (CSelect (base s))"
| k_redial: "reDialLoop_step k l k' \<Longrightarrow> client_step k l k'"
| k_cleanup: "client_step (CCleanup b) ClTau (CClosed (cleanup b))"
| k_select_idle: "idle_step b l b' \<Longrightarrow> client_step (CSelect b) (ClConn l) (CSelect b')"
| k_dial_idle: "idle_step b l b' \<Longrightarrow> client_step (CDial b i) (ClConn l) (CDial b' i)"
| k_retry_idle: "idle_step b l b' \<Longrightarrow> client_step (CRetry b i) (ClConn l) (CRetry b' i)"
| k_cleanup_idle: "idle_step b l b' \<Longrightarrow> client_step (CCleanup b) (ClConn l) (CCleanup b')"
| k_closed_idle: "idle_step b l b' \<Longrightarrow> client_step (CClosed b) (ClConn l) (CClosed b')"

inductive_cases reDialLoop_stepE: "reDialLoop_step k l k'"
inductive_cases client_stepE: "client_step k l k'"

text \<open>
  \<open>StartControlClient\<close>: the port defaults to 9000; the client starts only after a successful dial.  A
  nil connection without an error would make the client panic (\<open>None\<close>).  \<open>timer\<close> is the \<open>select\<close> of \<open>tryDial\<close> for
  a timer of the given duration.
\<close>

definition StartControlClient ::
  "(string \<Rightarrow> 'w \<Rightarrow> (go_error + conn) \<times> 'w) \<Rightarrow> (int \<Rightarrow> 'w \<Rightarrow> bool \<times> 'w) \<Rightarrow> string \<Rightarrow> 'w \<Rightarrow>
     ((go_error + 's service \<times> client) \<times> 'w) option" where
  "StartControlClient dialer timer target w =
     (let target' = (if CHR '':'' \<in> set target then target else target @ '':9000'')
      in case tryDial dialer (timer clientDialRetryInterval) target' clientInitialDialRetry None w of
           ((_, Some err), w') \<Rightarrow>
             Some (Inl (Wrapped (''cannot perform the initial dial to target '' @ target' @ '': '') err), w')
         | ((Some conn, None), w') \<Rightarrow>
             Some (Inr (NewService newClientTcpConnection, startPolling newClientTcpConnection conn), w')
         | ((None, None), w') \<Rightarrow> None)"

section \<open>Lemmas\<close>

subsection \<open>Conservation\<close>

fun client_vis :: "client_label \<Rightarrow> clabel list" where
  "client_vis (ClConn l) = [l]"
| "client_vis _ = []"

fun client_base :: "client \<Rightarrow> baseTcpConnection" where
  "client_base (CSession s) = base s"
| "client_base (CSelect b) = b"
| "client_base (CDial b i) = b"
| "client_base (CRetry b i) = b"
| "client_base (CCleanup b) = b"
| "client_base (CClosed b) = b"

fun client_todo :: "client \<Rightarrow> Message list" where
  "client_todo (CSession s) = unwritten s"
| "client_todo k = outbox (client_base k)"

definition client_taken :: "client \<Rightarrow> Message list" where
  "client_taken k = inbox (client_base k)"

lemma start_session_base [simp]: "base (start_session b c) = b"
  by (simp add: start_session_def)

lemma reDialLoop_step_frame:
  "reDialLoop_step k l k' \<Longrightarrow> client_vis l = [] \<and> client_base k' = client_base k \<and> client_todo k' = client_todo k"
  by (elim reDialLoop_stepE) simp_all

interpretation cl: endpoint client_step client_vis client_todo client_taken
proof (unfold_locales, goal_cases)
  case (1 s l t)
  then show ?case
    by (elim client_stepE)
       (auto simp del: submitted.simps written.simps simp: unwritten_done submitted.simps(1) written.simps(1)
          dest: session_step_order idle_step_order reDialLoop_step_frame)
next
  case (2 s l t)
  then show ?case
    by (elim client_stepE)
       (auto simp del: received.simps handed_out.simps simp: client_taken_def received.simps(1) handed_out.simps(1)
          dest: session_step_inbound idle_step_inbound reDialLoop_step_frame)
qed

subsection \<open>Redialling\<close>

text \<open>The number of failed dials since the last connection.\<close>

fun count_failures :: "nat \<Rightarrow> client_label list \<Rightarrow> nat" where
  "count_failures n [] = n"
| "count_failures n (ClDialFailed _ # ls) = count_failures (Suc n) ls"
| "count_failures n (ClDialled _ # ls) = count_failures 0 ls"
| "count_failures n (_ # ls) = count_failures n ls"

lemma count_failures_append: "count_failures n (ls @ ls') = count_failures (count_failures n ls) ls'"
  by (induction n ls rule: count_failures.induct) auto

text \<open>How the failures so far determine the state.\<close>

fun failures_ok :: "nat \<Rightarrow> client \<Rightarrow> bool" where
  "failures_ok n (CSession s) \<longleftrightarrow> n = 0 \<and> session_inv s"
| "failures_ok n (CSelect b) \<longleftrightarrow> n = 0"
| "failures_ok n (CDial b i) \<longleftrightarrow> n = i \<and> i \<le> clientReconnectionRetry"
| "failures_ok n (CRetry b i) \<longleftrightarrow> n = Suc i \<and> i < clientReconnectionRetry"
| "failures_ok n (CCleanup b) \<longleftrightarrow> n \<le> clientReconnectionRetry \<and> (ctx_done b \<or> n = clientReconnectionRetry)"
| "failures_ok n (CClosed b) \<longleftrightarrow> n \<le> clientReconnectionRetry \<and> (ctx_done b \<or> n = clientReconnectionRetry)"

lemma client_step_failures: "client_step k l k' \<Longrightarrow> failures_ok n k \<Longrightarrow> failures_ok (count_failures n [l]) k'"
  by (elim client_stepE reDialLoop_stepE) (auto intro: session_inv_start session_step_inv dest: idle_step_ctx)

lemma client_run_failures:
  assumes "runs client_step k ls k'" and "failures_ok n k"
  shows "failures_ok (count_failures n ls) k'"
  using assms
proof (induction rule: runs.induct)
  case (runs_snoc s ls t l u)
  then show ?case using client_step_failures [OF runs_snoc.hyps(2)] by (simp add: count_failures_append)
qed simp

lemma failures_ok_bound: "failures_ok n k \<Longrightarrow> n \<le> clientReconnectionRetry"
  by (cases k) (auto simp: clientReconnectionRetry_def)

lemma failures_ok_start [simp]: "failures_ok 0 (startPolling b c)"
  by (simp add: startPolling_def session_inv_start)

lemma tryDial_result:
  assumes "tryDial dialer interval target retries err w = ((conn, err'), w')"
  shows "(conn \<noteq> None \<longrightarrow> err' = None) \<and> (conn = None \<longrightarrow> err' \<noteq> None \<or> retries = 0)"
  using assms
proof (induction dialer interval target retries err w rule: tryDial.induct)
  case (2 dialer interval target retries err w)
  then show ?case by (cases retries) (auto split: prod.splits sum.splits bool.splits)
qed simp

text \<open>The first dial that succeeds within the bound is the one that is used.\<close>

lemma tryDial_first_success:
  assumes "0 < retries"
  shows "tryDial (\<lambda>t w. (hd w, tl w)) (\<lambda>w. (False, w)) target retries err (map Inl es @ Inr c # rest) =
    (if length es < retries then ((Some c, None), rest)
     else ((None, Some (es ! (retries - 1))), drop retries (map Inl es @ Inr c # rest)))"
  using assms
proof (induction es arbitrary: retries err)
  case Nil
  then show ?case by (cases retries) simp_all
next
  case (Cons e es)
  then obtain n where n: "retries = Suc n" by (cases retries) simp_all
  show ?case
  proof (cases n)
    case (Suc m)
    with Cons.IH [of n "Some e"] n show ?thesis by (simp add: nth_Cons split: nat.splits)
  qed (simp add: n)
qed

lemma StartControlClient_returns:
  "\<exists>r w'. StartControlClient dialer timer target w = Some (r, w')"
proof -
  let ?target = "if CHR '':'' \<in> set target then target else target @ '':9000''"
  obtain conn err w' where "tryDial dialer (timer clientDialRetryInterval) ?target clientInitialDialRetry None w = ((conn, err), w')"
    by (metis surj_pair)
  with tryDial_result [OF this] show ?thesis
    by (auto simp: StartControlClient_def Let_def clientInitialDialRetry_def split: option.splits)
qed

lemmas client_cons = runs_cons [of client_step]

text \<open>
  The steps of \<open>reDialLoop\<close> refine \<open>tryDial\<close>: whatever the function computes with a dialer that returns
  fresh connections, and a \<open>select\<close> that takes the context's branch only when the context is done, is
  a run of the goroutine.
\<close>

lemma tryDial_simulated:
  assumes "tryDial dialer interval target n err w = ((conn, err'), w')"
    and "n = clientReconnectionRetry - i" and "i \<le> clientReconnectionRetry"
    and "\<And>v c v'. dialer target v = (Inr c, v') \<Longrightarrow> fresh_conn c" and "\<And>v v'. interval v = (True, v') \<Longrightarrow> ctx_done b"
  shows "\<exists>ls. runs client_step (CDial b i) ls (case conn of Some c \<Rightarrow> CSession (start_session b c) | None \<Rightarrow> CCleanup b)"
  using assms
proof (induction dialer interval target n err w arbitrary: i rule: tryDial.induct)
  case (1 dialer interval target err w)
  then have "client_step (CDial b i) ClTau (CCleanup b)" by (intro k_redial d_exhausted) simp
  from client_cons [OF this runs_nil] 1 show ?case by auto
next
  case (2 dialer interval target n err w)
  then have i: "i < clientReconnectionRetry" by simp
  obtain r v where r: "dialer target w = (r, v)" by fastforce
  show ?case
  proof (cases r)
    case (Inr c)
    with r have "fresh_conn c" using 2(5) by blast
    then have "client_step (CDial b i) (ClDialled c) (CSession (start_session b c))"
      using i by (intro k_redial d_dialled)
    moreover have "conn = Some c" using 2(2) r Inr by simp
    ultimately show ?thesis using client_cons [OF _ runs_nil] by fastforce
  next
    case (Inl e)
    obtain stop v' where v': "interval v = (stop, v')" by fastforce
    have f: "client_step (CDial b i) (ClDialFailed e) (CRetry b i)" using i by (intro k_redial d_failed)
    show ?thesis
    proof (cases stop)
      case True
      with v' have "ctx_done b" using 2(6) [of v v'] by simp
      then have g: "client_step (CRetry b i) ClTau (CCleanup b)" by (intro k_redial d_retry_ctx)
      have "conn = None" using 2(2) r Inl v' True by simp
      with client_cons [OF f client_cons [OF g runs_nil]] show ?thesis by auto
    next
      case False
      from False 2(2) r Inl v' have rest: "tryDial dialer interval target n (Some e) v' = ((conn, err'), w')" by simp
      have "stop = False" using False by simp
      note IH = 2(1) [OF r [symmetric] Inl v' [symmetric] this rest, of "Suc i"]
      have "\<exists>ls. runs client_step (CDial b (Suc i)) ls
          (case conn of Some c \<Rightarrow> CSession (start_session b c) | None \<Rightarrow> CCleanup b)"
        by (rule IH) (use 2(3) i 2(5,6) in auto)
      then show ?thesis using client_cons [OF f client_cons [OF d_retry [THEN k_redial]]] by blast
    qed
  qed
qed

lemma redial_fails:
  assumes "i \<le> clientReconnectionRetry"
  shows "\<exists>ls. runs client_step (CDial b i) ls (CCleanup b) \<and> concat (map client_vis ls) = [] \<and>
    count_failures i ls = clientReconnectionRetry"
  using assms
proof (induction "clientReconnectionRetry - i" arbitrary: i)
  case 0
  then have "runs client_step (CDial b i) [ClTau] (CCleanup b)"
    using d_exhausted [THEN k_redial] by (auto intro!: client_cons runs_nil)
  with 0 show ?case by (intro exI [of _ "[ClTau]"]) simp
next
  case (Suc n)
  then obtain ls where ls: "runs client_step (CDial b (Suc i)) ls (CCleanup b)" "concat (map client_vis ls) = []"
    "count_failures (Suc i) ls = clientReconnectionRetry"
    using Suc.hyps(1) [of "Suc i"] Suc.hyps(2) by fastforce
  have "runs client_step (CDial b i) (ClDialFailed EOF # ClTau # ls) (CCleanup b)"
    using Suc.hyps(2) by (intro client_cons [OF d_failed [THEN k_redial]] client_cons [OF d_retry [THEN k_redial]] ls(1)) simp
  with ls show ?case by (intro exI [of _ "ClDialFailed EOF # ClTau # ls"]) simp
qed

lemma closed_stays:
  "runs client_step k ls k' \<Longrightarrow> k = CClosed b \<Longrightarrow>
     (\<exists>b'. k' = CClosed b') \<and> written (concat (map client_vis ls)) = []"
proof (induction rule: runs.induct)
  case (runs_snoc s ls t l u)
  then obtain b' where b': "t = CClosed b'" "written (concat (map client_vis ls)) = []" by auto
  from runs_snoc.hyps(2) have "(\<exists>b''. u = CClosed b'') \<and> written (client_vis l) = []"
    unfolding b' by (elim client_stepE) (auto elim!: reDialLoop_stepE idle_stepE)
  with b' show ?case by (simp add: labels_append)
qed simp

lemma client_of_session:
  "session_run s ls t \<Longrightarrow> runs client_step (CSession s) (map ClConn ls) (CSession t)"
  by (induction rule: session_run.induct) (auto intro: runs.intros k_session)

section \<open>Properties\<close>

text \<open>
  C4. Messages survive reconnections: over the whole life of a client, whatever connections it
  loses and dials, what is left over from before together with what was submitted is exactly what
  was written successfully, in order, followed by what is still to be written; and what was received
  is exactly what was handed out, in order, followed by what waits in the read queue.
\<close>

theorem client_conserves_messages:
  assumes "runs client_step (startPolling b c) ls k"
  shows "outbox b @ submitted (concat (map client_vis ls)) = written (concat (map client_vis ls)) @ client_todo k \<and>
    inbox b @ received (concat (map client_vis ls)) = handed_out (concat (map client_vis ls)) @ inbox (client_base k)"
  using cl.conserves_outbound [OF assms] cl.conserves_inbound [OF assms]
  by (simp add: cl.shown_def startPolling_def client_taken_def)

theorem client_conserves_messages_witness:
  "\<exists>ls k. runs client_step (startPolling newBaseTcpConnection (new_conn [])) ls k \<and>
     submitted (concat (map client_vis ls)) = written (concat (map client_vis ls)) @ client_todo k \<and>
     written (concat (map client_vis ls)) = [example_message]"
proof -
  obtain s where s: "session_run (start_session newBaseTcpConnection (new_conn []))
      [CSubmit example_message, CTau, CTau, CWritten example_message] s" using example_sent by blast
  let ?ls = "map ClConn [CSubmit example_message, CTau, CTau, CWritten example_message]"
  have r: "runs client_step (startPolling newBaseTcpConnection (new_conn [])) ?ls (CSession s)"
    unfolding startPolling_def by (rule client_of_session [OF s])
  have "concat (map client_vis ?ls) = [CSubmit example_message, CTau, CTau, CWritten example_message]" by simp
  with client_conserves_messages [OF r] r show ?thesis
    by (intro exI [of _ ?ls] exI [of _ "CSession s"]) (simp add: newBase_queues)
qed

text \<open>
  C23. Redialling is bounded: at no moment have more than ten dials failed in a row since the last
  connection; the client closes its channels only after the context was cancelled or exactly ten dials
  failed; and once the context is cancelled and the errors are taken, it has closed them, or it can
  move, or it is in a session that lost its wake-up.
\<close>

theorem client_redials_ten_times:
  assumes "runs client_step (startPolling b c) ls k"
  shows "count_failures 0 ls \<le> 10 \<and>
    (\<forall>b'. k = CClosed b' \<longrightarrow> ctx_done b' \<or> count_failures 0 ls = 10) \<and>
    (ctx_done (client_base k) \<and> length (unrecoverableErrors (client_base k)) < errors_cap \<longrightarrow>
       (\<exists>b'. k = CClosed b') \<or> (\<exists>k'. client_step k ClTau k') \<or> (\<exists>l k'. reDialLoop_step k l k') \<or>
       (\<exists>s. k = CSession s \<and> ((\<exists>l t. consumeConnection s l t) \<or> lost_wakeup s)))"
proof -
  have ok: "failures_ok (count_failures 0 ls) k" by (rule client_run_failures [OF assms]) simp
  have "\<exists>k'. client_step k ClTau k' \<or> (\<exists>l k'. reDialLoop_step k l k')" if "\<forall>s. k \<noteq> CSession s" "\<forall>b'. k \<noteq> CClosed b'"
    using that d_ctx d_dial d_failed d_retry d_exhausted k_cleanup by (cases k) blast+
  moreover have "session_done s \<or> (\<exists>l t. consumeConnection s l t) \<or> lost_wakeup s"
    if "k = CSession s" "ctx_done (client_base k)" "length (unrecoverableErrors (client_base k)) < errors_cap" for s
    using session_progress [of s] that ok by simp
  ultimately show ?thesis
    using ok failures_ok_bound [OF ok] k_lost by (cases k) (auto simp: clientReconnectionRetry_def)
qed

theorem client_redials_ten_times_witness:
  "\<exists>ls s. runs client_step (startPolling newBaseTcpConnection (new_conn [])) ls (CSession s) \<and>
     ctx_done (base s) \<and> (\<exists>l t. consumeConnection s l t)"
proof -
  let ?s = "start_session newBaseTcpConnection (new_conn [])"
  let ?t = "?s\<lparr>base := newBaseTcpConnection\<lparr>ctx_done := True\<rparr>\<rparr>"
  have "client_step (CSession ?s) (ClConn CCancel) (CSession ?t)"
    using k_session [OF u_cancel [THEN s_user], of ?s] by simp
  then have r: "runs client_step (startPolling newBaseTcpConnection (new_conn [])) [ClConn CCancel] (CSession ?t)"
    unfolding startPolling_def by (rule client_cons) (rule runs_nil)
  have "\<not> client_step (CSession ?t) ClTau k'" "\<not> reDialLoop_step (CSession ?t) l k'" "\<not> lost_wakeup ?t" for l k'
    by (auto elim!: client_stepE reDialLoop_stepE simp: session_done_def lost_wakeup_def start_session_def)
  with client_redials_ten_times [OF r] have "\<exists>l t. consumeConnection ?t l t"
    by (auto simp: errors_cap_def newBaseTcpConnection_def)
  with r show ?thesis by (intro exI [of _ "[ClConn CCancel]"] exI [of _ ?t]) simp
qed

text \<open>
  Giving up is silent: when the connection is lost and ten dials fail, the client closes its error
  channel without having put any error on it, while the context is still open; from then on every
  message submitted stays in the queue and none is ever written.
\<close>

lemma failed_redial_is_silent:
  assumes "\<not> ctx_done b"
  shows "\<exists>ls. runs client_step (CSelect b) ls (CClosed (cleanup b)) \<and> count_failures 0 ls = 10 \<and>
    unrecoverableErrors (cleanup b) = unrecoverableErrors b \<and> errors_closed (cleanup b) \<and> \<not> ctx_done (cleanup b) \<and>
    (\<forall>ls' k. runs client_step (CClosed (cleanup b)) ls' k \<longrightarrow>
       written (concat (map client_vis ls')) = [] \<and> client_todo k = outbox b @ submitted (concat (map client_vis ls')))"
proof -
  obtain ls where ls: "runs client_step (CDial b 0) ls (CCleanup b)" "count_failures 0 ls = clientReconnectionRetry"
    using redial_fails [of 0 b] by auto
  have "runs client_step (CSelect b) (ClTau # ls @ [ClTau]) (CClosed (cleanup b))"
    by (intro client_cons [OF d_dial [THEN k_redial]] runs_snoc [OF ls(1) k_cleanup] assms)
  moreover have "count_failures 0 (ClTau # ls @ [ClTau]) = 10"
    using ls(2) by (simp add: count_failures_append clientReconnectionRetry_def)
  moreover have "written (concat (map client_vis ls')) = [] \<and> client_todo k = outbox b @ submitted (concat (map client_vis ls'))"
    if "runs client_step (CClosed (cleanup b)) ls' k" for ls' k
    using closed_stays [OF that refl] cl.conserves_outbound [OF that] by (simp add: cl.shown_def)
  ultimately show ?thesis using assms by (intro exI [of _ "ClTau # ls @ [ClTau]"]) (simp add: cleanup_def)
qed

end
