(* ===== verification/Server_Connection.thy ===== *)
theory Server_Connection
  imports Client_Connection
begin

text \<open>
  \<open>pkg/network/server_connection.go\<close>: the server accepts one connection after the other, upgrades it
  to TLS when it has a configuration loader, and consumes it; it stops when the context is cancelled
  or \<open>Accept\<close> fails.

  Listening, accepting, the loader and the TLS layer are the environment: the outcome of each is part
  of the label of the step that meets it.  A TLS connection is an ordinary \<open>conn\<close> of the clear text.
\<close>

section \<open>The accept loop\<close>

text \<open>
  The states of the second goroutine of \<open>startAcceptPolling\<close>: at the \<open>select\<close> of \<open>listenLoop\<close>, in
  \<open>Accept\<close>, loading the TLS configuration for a connection, sending the loader's error on the channel
  (after which the connection is closed and the loop goes on),
  in \<open>consumeConnection\<close>, before \<open>cleanup\<close>, and returned, the closing channel closed.
\<close>

datatype server_pc =
    SvSelect baseTcpConnection
  | SvAccept baseTcpConnection
  | SvLoad baseTcpConnection conn
  | SvReport baseTcpConnection conn go_error
  | SvSession session
  | SvCleanup baseTcpConnection
  | SvClosed baseTcpConnection

record serverTcpConnection =
  sv_pc :: server_pc
  listener_open :: bool
  has_loader :: bool

datatype server_label =
    SlConn clabel | SlAccepted conn | SlAcceptFailed go_error
  | SlUpgraded conn | SlLoadFailed go_error | SlListenerClosed | SlTau

fun pc_base :: "server_pc \<Rightarrow> baseTcpConnection" where
  "pc_base (SvSelect b) = b"
| "pc_base (SvAccept b) = b"
| "pc_base (SvLoad b c) = b"
| "pc_base (SvReport b c e) = b"
| "pc_base (SvSession s) = base s"
| "pc_base (SvCleanup b) = b"
| "pc_base (SvClosed b) = b"

definition newServerTcpConnection :: "bool \<Rightarrow> serverTcpConnection" where
  "newServerTcpConnection loader =
     \<lparr>sv_pc = SvSelect newBaseTcpConnection, listener_open = True, has_loader = loader\<rparr>"

inductive listenLoop_step :: "serverTcpConnection \<Rightarrow> server_label \<Rightarrow> server_pc \<Rightarrow> bool" where
  l_ctx: "sv_pc t = SvSelect b \<Longrightarrow> ctx_done b \<Longrightarrow> listenLoop_step t SlTau (SvCleanup b)"
| l_accept: "sv_pc t = SvSelect b \<Longrightarrow> \<not> ctx_done b \<Longrightarrow> listenLoop_step t SlTau (SvAccept b)"
| l_accepted: "sv_pc t = SvAccept b \<Longrightarrow> listener_open t \<Longrightarrow> fresh_conn c \<Longrightarrow>
    listenLoop_step t (SlAccepted c) (if has_loader t then SvLoad b c else SvSession (start_session b c))"
| l_accept_failed: "sv_pc t = SvAccept b \<Longrightarrow> listenLoop_step t (SlAcceptFailed e) (SvCleanup b)"
| l_upgraded: "sv_pc t = SvLoad b c \<Longrightarrow> fresh_conn c' \<Longrightarrow>
    listenLoop_step t (SlUpgraded c') (SvSession (start_session b c'))"
| l_load_failed: "sv_pc t = SvLoad b c \<Longrightarrow> listenLoop_step t (SlLoadFailed e) (SvReport b c e)"
| l_report: "sv_pc t = SvReport b c e \<Longrightarrow> Errors_send e b = Some b' \<Longrightarrow> listenLoop_step t SlTau (SvSelect b')"
| l_lost: "sv_pc t = SvSession s \<Longrightarrow> session_done s \<Longrightarrow> listenLoop_step t SlTau (SvSelect (base s))"

text \<open>The accept goroutine, the goroutine that closes the listener, and the users of the connection.\<close>

inductive server_step :: "serverTcpConnection \<Rightarrow> server_label \<Rightarrow> serverTcpConnection \<Rightarrow> bool" where
  v_loop: "listenLoop_step t l pc \<Longrightarrow> server_step t l (t\<lparr>sv_pc := pc\<rparr>)"
| v_session: "sv_pc t = SvSession s \<Longrightarrow> session_step s l s' \<Longrightarrow>
    server_step t (SlConn l) (t\<lparr>sv_pc := SvSession s'\<rparr>)"
| v_cleanup: "sv_pc t = SvCleanup b \<Longrightarrow> server_step t SlTau (t\<lparr>sv_pc := SvClosed (cleanup b)\<rparr>)"
| v_close_listener: "ctx_done (pc_base (sv_pc t)) \<Longrightarrow> listener_open t \<Longrightarrow>
    server_step t SlListenerClosed (t\<lparr>listener_open := False\<rparr>)"
| v_select_idle: "sv_pc t = SvSelect b \<Longrightarrow> idle_step b l b' \<Longrightarrow> server_step t (SlConn l) (t\<lparr>sv_pc := SvSelect b'\<rparr>)"
| v_accept_idle: "sv_pc t = SvAccept b \<Longrightarrow> idle_step b l b' \<Longrightarrow> server_step t (SlConn l) (t\<lparr>sv_pc := SvAccept b'\<rparr>)"
| v_load_idle: "sv_pc t = SvLoad b c \<Longrightarrow> idle_step b l b' \<Longrightarrow> server_step t (SlConn l) (t\<lparr>sv_pc := SvLoad b' c\<rparr>)"
| v_report_idle: "sv_pc t = SvReport b c e \<Longrightarrow> idle_step b l b' \<Longrightarrow>
    server_step t (SlConn l) (t\<lparr>sv_pc := SvReport b' c e\<rparr>)"
| v_cleanup_idle: "sv_pc t = SvCleanup b \<Longrightarrow> idle_step b l b' \<Longrightarrow> server_step t (SlConn l) (t\<lparr>sv_pc := SvCleanup b'\<rparr>)"
| v_closed_idle: "sv_pc t = SvClosed b \<Longrightarrow> idle_step b l b' \<Longrightarrow> server_step t (SlConn l) (t\<lparr>sv_pc := SvClosed b'\<rparr>)"

inductive_cases listenLoop_stepE: "listenLoop_step t l pc"
inductive_cases server_stepE: "server_step t l t'"

section \<open>Starting the server\<close>

text \<open>The keep-alive time of accepted connections, in nanoseconds.\<close>

record ListenConfig =
  lc_KeepAlive :: int

definition default_listenConfig :: ListenConfig where
  "default_listenConfig = \<lparr>lc_KeepAlive = 30 * 1000000000\<rparr>"

record ControlServerOptions =
  port :: int
  listenConfig :: ListenConfig

type_synonym ControlServerOption = "ControlServerOptions \<Rightarrow> ControlServerOptions"

definition WithPort :: "int \<Rightarrow> ControlServerOption" where
  "WithPort p options = options\<lparr>port := p\<rparr>"

text \<open>
  A \<open>ControlServer\<close>: its service, the port it listens on, and the accept loop it was started with,
  whose end closes the channel that \<open>ClosedCh\<close> returns.
\<close>

record 's ControlServer =
  cs_Service :: "'s service"
  cs_port :: int
  cs_conn :: serverTcpConnection

definition ListeningPort :: "'s ControlServer \<Rightarrow> int" where
  "ListeningPort cs = cs_port cs"

fun ClosedCh_closed :: "server_pc \<Rightarrow> bool" where
  "ClosedCh_closed (SvClosed b) = True"
| "ClosedCh_closed _ = False"

definition LastIndex_colon :: "string \<Rightarrow> int" where
  "LastIndex_colon s =
     (if CHR '':'' \<in> set s then int (length s) - 1 - int (length (takeWhile (\<lambda>c. c \<noteq> CHR '':'') (rev s))) else -1)"

text \<open>\<open>listen\<close> stands for \<open>ListenConfig.Listen\<close>: an error, or the address of the listener.\<close>

definition StartControlServer ::
  "(ListenConfig \<Rightarrow> string \<Rightarrow> 'w \<Rightarrow> (go_error + string) \<times> 'w) \<Rightarrow> bool \<Rightarrow> ControlServerOption list \<Rightarrow> 'w \<Rightarrow>
     (go_error + 's ControlServer) \<times> 'w" where
  "StartControlServer listen loader options w =
     (let opts = fold (\<lambda>fn. fn) options \<lparr>port = 9000, listenConfig = default_listenConfig\<rparr>
      in case listen (listenConfig opts) ('':'' @ string_of_int (port opts)) w of
           (Inl err, w') \<Rightarrow> (Inl err, w')
         | (Inr listeningAddress, w') \<Rightarrow>
             (case Atoi (drop (nat (LastIndex_colon listeningAddress + 1)) listeningAddress) of
                Inl err \<Rightarrow> (Inl (Wrapped ''cannot parse the listening port: '' err), w')
              | Inr p \<Rightarrow>
                  (Inr \<lparr>cs_Service = NewService newBaseTcpConnection, cs_port = p,
                        cs_conn = newServerTcpConnection loader\<rparr>, w')))"

definition StartInsecureControlServer ::
  "(ListenConfig \<Rightarrow> string \<Rightarrow> 'w \<Rightarrow> (go_error + string) \<times> 'w) \<Rightarrow> ControlServerOption list \<Rightarrow> 'w \<Rightarrow> (go_error + 's ControlServer) \<times> 'w" where
  "StartInsecureControlServer listen = StartControlServer listen False"

section \<open>Lemmas\<close>

subsection \<open>Conservation\<close>

fun server_vis :: "server_label \<Rightarrow> clabel list" where
  "server_vis (SlConn l) = [l]"
| "server_vis _ = []"

fun pc_todo :: "server_pc \<Rightarrow> Message list" where
  "pc_todo (SvSession s) = unwritten s"
| "pc_todo pc = outbox (pc_base pc)"

definition server_todo :: "serverTcpConnection \<Rightarrow> Message list" where
  "server_todo t = pc_todo (sv_pc t)"

definition server_taken :: "serverTcpConnection \<Rightarrow> Message list" where
  "server_taken t = inbox (pc_base (sv_pc t))"

lemma listenLoop_step_frame:
  assumes "listenLoop_step t l pc"
  shows "server_vis l = []" "pc_todo pc = server_todo t" "inbox (pc_base pc) = server_taken t"
  using assms by (elim listenLoop_stepE; auto simp: server_todo_def server_taken_def unwritten_done session_simps)+

interpretation sv: endpoint server_step server_vis server_todo server_taken
proof (unfold_locales, goal_cases)
  case (1 s l t)
  then show ?case
    by (elim server_stepE)
       (auto simp del: submitted.simps written.simps
          simp: server_todo_def submitted.simps(1) written.simps(1) listenLoop_step_frame(1)
          dest: session_step_order idle_step_order listenLoop_step_frame(2))
next
  case (2 s l t)
  then show ?case
    by (elim server_stepE)
       (auto simp del: received.simps handed_out.simps
          simp: server_taken_def received.simps(1) handed_out.simps(1) listenLoop_step_frame(1)
          dest: session_step_inbound idle_step_inbound listenLoop_step_frame(3))
qed

subsection \<open>Stopping\<close>

definition accept_failed :: "server_label list \<Rightarrow> bool" where
  "accept_failed ls \<longleftrightarrow> (\<exists>e. SlAcceptFailed e \<in> set ls)"

lemma accept_failed_simps:
  "\<not> accept_failed []" "accept_failed (ls @ ls') \<longleftrightarrow> accept_failed ls \<or> accept_failed ls'"
  by (auto simp: accept_failed_def)

fun stop_ok :: "bool \<Rightarrow> server_pc \<Rightarrow> bool" where
  "stop_ok f (SvSession s) \<longleftrightarrow> session_inv s"
| "stop_ok f (SvCleanup b) \<longleftrightarrow> ctx_done b \<or> f"
| "stop_ok f (SvClosed b) \<longleftrightarrow> ctx_done b \<or> f"
| "stop_ok f _ \<longleftrightarrow> True"

lemma stop_ok_mono: "stop_ok f pc \<Longrightarrow> stop_ok (f \<or> g) pc"
  by (cases pc) auto

lemma server_step_stop:
  "server_step t l t' \<Longrightarrow> stop_ok f (sv_pc t) \<Longrightarrow> stop_ok (f \<or> accept_failed [l]) (sv_pc t')"
  by (elim server_stepE listenLoop_stepE)
     (auto simp: accept_failed_def intro: session_inv_start session_step_inv stop_ok_mono dest: idle_step_ctx)

lemma server_run_stop:
  assumes "runs server_step t ls t'" and "stop_ok False (sv_pc t)"
  shows "stop_ok (accept_failed ls) (sv_pc t')"
  using assms
proof (induction rule: runs.induct)
  case (runs_snoc s ls t l u)
  then show ?case
    using server_step_stop [OF runs_snoc.hyps(2), of "accept_failed ls"] by (simp add: accept_failed_simps)
qed (simp add: accept_failed_simps)

lemmas server_cons = runs_cons [of server_step]

text \<open>
  What the server does by itself: the internal steps of its goroutines, the closing of the listener, and the error that
  \<open>Accept\<close> returns once the listener is closed.  Accepting a connection, the loader's answer and an \<open>Accept\<close> that fails on an open
  listener are not among them.
\<close>

inductive own_step :: "serverTcpConnection \<Rightarrow> server_label \<Rightarrow> serverTcpConnection \<Rightarrow> bool" where
  own_internal: "server_step t SlTau t' \<Longrightarrow> own_step t SlTau t'"
| own_close: "server_step t SlListenerClosed t' \<Longrightarrow> own_step t SlListenerClosed t'"
| own_accept: "\<not> listener_open t \<Longrightarrow> server_step t (SlAcceptFailed e) t' \<Longrightarrow> own_step t (SlAcceptFailed e) t'"

definition stoppable :: "serverTcpConnection \<Rightarrow> bool" where
  "stoppable t \<longleftrightarrow> (\<exists>ls t'. runs own_step t ls t' \<and> ClosedCh_closed (sv_pc t') \<and> \<not> listener_open t')"

text \<open>In a session whose goroutines can move, or that has lost its wake-up.\<close>

definition in_session :: "serverTcpConnection \<Rightarrow> bool" where
  "in_session t \<longleftrightarrow> (\<exists>s. sv_pc t = SvSession s \<and> ((\<exists>l s'. consumeConnection s l s') \<or> lost_wakeup s))"

text \<open>Waiting for the loader: whichever way it answers, the server is then stoppable, or in a session that can move.\<close>

definition awaits_loader :: "serverTcpConnection \<Rightarrow> bool" where
  "awaits_loader t \<longleftrightarrow> (\<exists>b c. sv_pc t = SvLoad b c) \<and>
     (\<forall>e t'. server_step t (SlLoadFailed e) t' \<longrightarrow> stoppable t') \<and>
     (\<forall>c t'. server_step t (SlUpgraded c) t' \<longrightarrow> in_session t')"

lemma stoppable_step: "own_step t l t' \<Longrightarrow> stoppable t' \<Longrightarrow> stoppable t"
  unfolding stoppable_def by (metis runs_cons [of own_step])

lemma stoppable_cleanup: "sv_pc t = SvCleanup b \<Longrightarrow> \<not> listener_open t \<Longrightarrow> stoppable t"
  by (rule stoppable_step [OF own_internal [OF v_cleanup]]) (auto simp: stoppable_def intro!: exI [of _ "[]"] runs_nil)

lemma stoppable_select: "sv_pc t = SvSelect b \<Longrightarrow> ctx_done b \<Longrightarrow> \<not> listener_open t \<Longrightarrow> stoppable t"
  by (rule stoppable_step [OF own_internal [OF l_ctx [THEN v_loop]]]) (auto intro!: stoppable_cleanup)

lemma stoppable_report:
  assumes "sv_pc t = SvReport b c e" and "ctx_done b" and "\<not> listener_open t"
    and "length (unrecoverableErrors b) < errors_cap"
  shows "stoppable t"
proof -
  obtain b' where b': "Errors_send e b = Some b'" "ctx_done b'"
    using assms(2,4) by (auto simp: Errors_send_def)
  show ?thesis
    by (rule stoppable_step [OF own_internal [OF l_report [OF assms(1) b'(1), THEN v_loop]]])
       (use b'(2) assms(3) in \<open>auto intro!: stoppable_select\<close>)
qed

lemma stoppable_closed_listener:
  assumes "ctx_done (pc_base (sv_pc t))" and "\<not> listener_open t"
    and "length (unrecoverableErrors (pc_base (sv_pc t))) < errors_cap"
    and "\<forall>s. sv_pc t = SvSession s \<longrightarrow> session_done s" and "\<forall>b c. sv_pc t \<noteq> SvLoad b c"
  shows "stoppable t"
proof (cases "sv_pc t")
  case (SvAccept b)
  show ?thesis
    by (rule stoppable_step [OF own_accept [OF assms(2) l_accept_failed [OF SvAccept, of ErrClosed, THEN v_loop]]])
       (use assms(2) in \<open>auto intro: stoppable_cleanup\<close>)
next
  case (SvSession s)
  show ?thesis
    by (rule stoppable_step [OF own_internal [OF l_lost [OF SvSession, THEN v_loop]]]) (use assms SvSession in \<open>auto intro: stoppable_select\<close>)
next
  case (SvClosed b)
  with assms(2) show ?thesis by (auto simp: stoppable_def intro!: exI [of _ "[]"] exI [of _ t] runs_nil)
qed (use assms in \<open>auto intro: stoppable_select stoppable_report stoppable_cleanup\<close>)

lemma stoppable_cancelled:
  assumes "ctx_done (pc_base (sv_pc t))"
    and "length (unrecoverableErrors (pc_base (sv_pc t))) < errors_cap"
    and "\<forall>s. sv_pc t = SvSession s \<longrightarrow> session_done s" and "\<forall>b c. sv_pc t \<noteq> SvLoad b c"
  shows "stoppable t"
proof (cases "listener_open t")
  case True
  show ?thesis
    by (rule stoppable_step [OF own_close [OF v_close_listener [OF assms(1) True]]]) (use assms in \<open>auto intro!: stoppable_closed_listener\<close>)
qed (use assms in \<open>auto intro: stoppable_closed_listener\<close>)

lemma session_starts_moving: "ctx_done b \<Longrightarrow> \<exists>l s'. consumeConnection (start_session b c) l s'"
  using c_monitor [OF mon_ctx, of "start_session b c"] by (auto simp: start_session_def)

lemma awaits_loader_cancelled:
  assumes "sv_pc t = SvLoad b c" and "ctx_done b" and "length (unrecoverableErrors b) < errors_cap"
  shows "awaits_loader t"
proof -
  have "stoppable t'" if "server_step t (SlLoadFailed e) t'" for e t'
    using that assms by (elim server_stepE listenLoop_stepE) (auto intro!: stoppable_cancelled)
  moreover have "in_session t'" if "server_step t (SlUpgraded c') t'" for c' t'
    using that assms session_starts_moving [of b] by (elim server_stepE listenLoop_stepE) (auto simp: in_session_def)
  ultimately show ?thesis using assms(1) by (auto simp: awaits_loader_def)
qed

text \<open>
  The steps the accept loop takes itself, sessions and users apart; once the context is cancelled, each of them brings it
  nearer to its end.
\<close>

fun loop_label :: "server_label \<Rightarrow> bool" where
  "loop_label (SlConn l) \<longleftrightarrow> False"
| "loop_label SlListenerClosed \<longleftrightarrow> False"
| "loop_label _ \<longleftrightarrow> True"

fun loop_rank :: "server_pc \<Rightarrow> nat" where
  "loop_rank (SvAccept b) = 5"
| "loop_rank (SvLoad b c) = 4"
| "loop_rank (SvReport b c e) = 3"
| "loop_rank (SvSession s) = 3"
| "loop_rank (SvSelect b) = 2"
| "loop_rank (SvCleanup b) = 1"
| "loop_rank (SvClosed b) = 0"

lemma cancelled_step:
  assumes "server_step t l t'" and "ctx_done (pc_base (sv_pc t))"
  shows "ctx_done (pc_base (sv_pc t'))" "loop_rank (sv_pc t') + (if loop_label l then 1 else 0) \<le> loop_rank (sv_pc t)"
  using assms by (auto elim!: server_stepE listenLoop_stepE simp: Errors_send_Some start_session_def dest: idle_step_ctx session_step_ctx)

lemma cancelled_run:
  assumes "runs server_step t ls t'" and "ctx_done (pc_base (sv_pc t))"
  shows "ctx_done (pc_base (sv_pc t')) \<and> loop_rank (sv_pc t') + length (filter loop_label ls) \<le> loop_rank (sv_pc t)"
  using assms
proof (induction rule: runs.induct)
  case (runs_snoc s ls t l u)
  then show ?case using cancelled_step [OF runs_snoc.hyps(2)] by (auto split: if_splits)
qed simp

lemma loop_rank_le: "loop_rank pc \<le> 5"
  by (cases pc) simp_all

subsection \<open>The port\<close>

lemma takeWhile_rev_digits:
  "takeWhile (\<lambda>c. c \<noteq> CHR '':'') (rev (host @ '':'' @ string_of_nat p)) = rev (string_of_nat p)"
proof -
  have "c \<noteq> CHR '':''" if "c \<in> set (digits_rev p)" for c
    using digits_rev_digits [OF that] by (auto simp: digit_val_def)
  then show ?thesis by (simp add: string_of_nat_def takeWhile_append2)
qed

lemma port_suffix:
  fixes host p
  defines "a \<equiv> host @ '':'' @ string_of_nat p"
  shows "drop (nat (LastIndex_colon a + 1)) a = string_of_nat p"
proof -
  have "LastIndex_colon a + 1 = int (length host + 1)"
    using takeWhile_rev_digits [of host p] by (simp add: LastIndex_colon_def a_def)
  then show ?thesis by (simp add: a_def nat_add_distrib)
qed

section \<open>Properties\<close>

text \<open>
  The server loses no message between connections: over its whole life, the messages submitted
  are exactly those written successfully, in order, followed by those still to be written; and those
  received are exactly those handed out, followed by those in the read queue.
\<close>

lemma server_conserves_messages:
  assumes "runs server_step (newServerTcpConnection loader) ls t"
  shows "submitted (concat (map server_vis ls)) = written (concat (map server_vis ls)) @ pc_todo (sv_pc t) \<and>
    received (concat (map server_vis ls)) = handed_out (concat (map server_vis ls)) @ inbox (pc_base (sv_pc t))"
  using sv.conserves_outbound [OF assms] sv.conserves_inbound [OF assms]
  by (simp add: sv.shown_def newServerTcpConnection_def server_todo_def server_taken_def newBase_queues)

text \<open>
  C22. The server stops as it should.  The channel of \<open>ClosedCh\<close> is closed only after the context was
  cancelled or \<open>Accept\<close> failed.  Once the context is cancelled, the accept loop takes at most five more steps, whatever
  connections, loader and users do.  And as long as the channel of errors has room, it is not stuck before its end: the server can close its listener
  and the channel by its own steps alone; or it waits for the loader, and is in such a state when that fails and in a session that can move when it succeeds; or
  it is in a session, whose goroutines can move unless it has lost its wake-up.
\<close>

theorem server_stops_when_cancelled:
  assumes "runs server_step (newServerTcpConnection loader) ls t"
  shows "(ClosedCh_closed (sv_pc t) \<longrightarrow> ctx_done (pc_base (sv_pc t)) \<or> accept_failed ls) \<and>
    (ctx_done (pc_base (sv_pc t)) \<longrightarrow> (\<forall>ls' t'. runs server_step t ls' t' \<longrightarrow> length (filter loop_label ls') \<le> 5)) \<and>
    (ctx_done (pc_base (sv_pc t)) \<and> length (unrecoverableErrors (pc_base (sv_pc t))) < errors_cap \<longrightarrow>
       stoppable t \<or> awaits_loader t \<or> in_session t)"
proof (intro conjI impI allI)
  have ok: "stop_ok (accept_failed ls) (sv_pc t)"
    by (rule server_run_stop [OF assms]) (simp add: newServerTcpConnection_def)
  then show "ctx_done (pc_base (sv_pc t)) \<or> accept_failed ls" if "ClosedCh_closed (sv_pc t)"
    using that by (cases "sv_pc t") auto
  show "length (filter loop_label ls') \<le> 5" if "ctx_done (pc_base (sv_pc t))" "runs server_step t ls' t'" for ls' t'
    using cancelled_run [OF that(2,1)] loop_rank_le [of "sv_pc t"] by simp
  show "stoppable t \<or> awaits_loader t \<or> in_session t"
    if "ctx_done (pc_base (sv_pc t)) \<and> length (unrecoverableErrors (pc_base (sv_pc t))) < errors_cap"
  proof (cases "\<exists>b c. sv_pc t = SvLoad b c")
    case True
    with that show ?thesis by (auto intro: awaits_loader_cancelled)
  next
    case False
    with stoppable_cancelled [of t] that have "stoppable t \<or> (\<exists>s. sv_pc t = SvSession s \<and> \<not> session_done s)" by blast
    with ok that session_progress show ?thesis by (fastforce simp: in_session_def)
  qed
qed

theorem server_stops_when_cancelled_witness:
  "\<exists>t. runs server_step (newServerTcpConnection True) [SlConn CCancel] t \<and> ctx_done (pc_base (sv_pc t)) \<and> stoppable t \<and>
     (\<forall>ls' t'. runs server_step t ls' t' \<longrightarrow> length (filter loop_label ls') \<le> 5)"
proof -
  let ?t = "newServerTcpConnection True"
  let ?u = "?t\<lparr>sv_pc := SvSelect (newBaseTcpConnection\<lparr>ctx_done := True\<rparr>)\<rparr>"
  have "server_step ?t (SlConn CCancel) ?u"
    by (rule v_select_idle [OF _ i_cancel]) (simp add: newServerTcpConnection_def)
  then have r: "runs server_step ?t [SlConn CCancel] ?u" by (rule server_cons) (rule runs_nil)
  have "ctx_done (pc_base (sv_pc ?u)) \<and> length (unrecoverableErrors (pc_base (sv_pc ?u))) < errors_cap"
    by (simp add: errors_cap_def newBaseTcpConnection_def)
  moreover have "\<not> awaits_loader ?u" "\<not> in_session ?u" by (simp_all add: awaits_loader_def in_session_def)
  ultimately show ?thesis using server_stops_when_cancelled [OF r] r by blast
qed

text \<open>
  The port: the server asks for the port of the last \<open>WithPort\<close> option, or 9000; and for an address
  that ends in a colon and a decimal port, whatever colons the host part has, \<open>ListeningPort\<close> is that
  port.
\<close>

lemma listening_port_is_bound_port:
  assumes "listen default_listenConfig ('':'' @ string_of_int (last (9000 # ports))) w = (Inr (host @ '':'' @ string_of_nat p), w')"
    and "p < 2 ^ 63"
  shows "\<exists>cs. StartControlServer listen loader (map WithPort ports) w = (Inr cs, w') \<and> ListeningPort cs = int p \<and>
    cs_conn cs = newServerTcpConnection loader"
proof -
  have "fold (\<lambda>fn. fn) (map WithPort ports) \<lparr>port = q, listenConfig = lc\<rparr> = \<lparr>port = last (q # ports), listenConfig = lc\<rparr>" for q lc
    by (induction ports arbitrary: q) (simp_all add: WithPort_def)
  with assms Atoi_string_of_nat [OF assms(2)] port_suffix [of host p] show ?thesis
    by (simp add: StartControlServer_def Let_def ListeningPort_def)
qed

end
