(* ===== verification/Stream_Decoder.thy ===== *)
theory Stream_Decoder
  imports Base_Connection
begin

text \<open>
  Reading messages from an arbitrary peer.  The wire format has a reference decoder on byte strings,
  and \<open>connRead\<close>, which reads through \<open>LimitReader\<close> and \<open>ReadAtLeast\<close> whatever pieces the network
  delivers, is shown to be that decoder: the pieces do not matter.  It follows that every message that
  reaches the read queue is well formed, whatever bytes the peer sends and whatever errors occur.
\<close>

section \<open>The reference decoder\<close>

text \<open>The error of a stream that ends with \<open>fin\<close> after \<open>got\<close> of the bytes asked for.\<close>

definition cut_error :: "bytes \<Rightarrow> go_error \<Rightarrow> go_error" where
  "cut_error got fin = (if got \<noteq> [] \<and> fin = EOF then ErrUnexpectedEOF else fin)"

text \<open>
  The first message of a stream of which \<open>bs\<close> arrives before the error \<open>fin\<close>, and the bytes behind it.
\<close>

definition decode_first :: "bytes \<Rightarrow> go_error \<Rightarrow> go_error + Message \<times> bytes" where
  "decode_first bs fin =
     (if length bs < 24 then Inl (cut_error bs fin)
      else let h = messageHeaderFromBytes (take 24 bs); rest = drop 24 bs; l = unat (msg_length h)
           in if l = 0 then Inr (\<lparr>header = h, payload = None\<rparr>, rest)
              else if length rest < l then Inl (cut_error rest fin)
              else Inr (\<lparr>header = h, payload = Some (take l rest)\<rparr>, drop l rest))"

text \<open>A message as it comes from the wire: well formed, and without an empty payload slice.\<close>

definition wire_message :: "Message \<Rightarrow> bool" where
  "wire_message m \<longleftrightarrow> wf_message m \<and> payload m \<noteq> Some []"

lemma wire_message_as_received: "wire_message m \<Longrightarrow> as_received m = m"
  by (simp add: wire_message_def as_received_def)

lemma decode_first_wire_message: "decode_first bs fin = Inr (m, rest) \<Longrightarrow> wire_message m"
  by (auto simp: decode_first_def Let_def wire_message_def wf_message_def payload_bytes_def split: if_splits)

text \<open>What is decoded was there: re-encoded, it gives the bytes consumed, but for the unused third byte.\<close>

lemma decode_first_bytes:
  assumes "decode_first bs fin = Inr (m, rest)"
  shows "bs[2 := 0] = encode m @ rest"
proof -
  have len: "24 \<le> length bs" using assms by (auto simp: decode_first_def split: if_splits)
  have h: "header m = messageHeaderFromBytes (take 24 bs)"
    and p: "payload_bytes m @ rest = drop 24 bs"
    using assms by (auto simp: decode_first_def Let_def payload_bytes_def split: if_splits simp del: drop_drop)
  have "encode_header (header m) = (take 24 bs)[2 := 0]"
    unfolding h by (rule encode_messageHeaderFromBytes) (use len in simp)
  moreover have "bs[2 := 0] = (take 24 bs)[2 := 0] @ drop 24 bs"
    using len by (metis append_take_drop_id length_take list_update_append1 min.absorb2 numeral_less_iff semiring_norm(76,78))
  ultimately show ?thesis using p by (simp add: encode_def)
qed

lemma decode_first_encode: "wf_message m \<Longrightarrow> decode_first (encode m @ rest) fin = Inr (as_received m, rest)"
  using length_encode_header [of "header m"] messageHeaderFromBytes_encode [of "header m"]
  by (cases m; cases "payload m")
     (auto simp: decode_first_def Let_def encode_def wf_message_def payload_bytes_def as_received_def)

section \<open>The reader is the decoder\<close>

context io_reader
begin

lemma Message_ReadFrom_complete:
  assumes "24 \<le> length (avail r)" and "h = messageHeaderFromBytes (take 24 (avail r))"
    and "24 + unat (msg_length h) \<le> length (avail r)"
  shows "\<exists>r'. Message_ReadFrom rd zeroMessage r =
           Some (24 + unat (msg_length h), None,
                 \<lparr>header = h, payload = (if msg_length h = 0 then None
                                       else Some (take (unat (msg_length h)) (drop 24 (avail r))))\<rparr>, r') \<and>
           avail r' = drop (24 + unat (msg_length h)) (avail r) \<and> final r' = final r"
proof -
  let ?l = "unat (msg_length h)"
  obtain r1 where r1: "ReadAtLeast (LimitedReader_Read rd) (r, 24) 24 24 = Some (take 24 (avail r), None, (r1, 0))"
    "avail r1 = drop 24 (avail r)" "final r1 = final r"
    using ReadAtLeast_enough [OF assms(1)] by auto
  have "?l \<le> length (avail r1)" using r1 assms by simp
  from ReadAtLeast_enough [OF this] obtain r2 where
    r2: "ReadAtLeast (LimitedReader_Read rd) (r1, ?l) ?l ?l = Some (take ?l (drop 24 (avail r)), None, (r2, 0))"
      "avail r2 = drop (24 + ?l) (avail r)" "final r2 = final r"
    using r1 by (auto simp: add.commute)
  show ?thesis
  proof (cases "msg_length h = 0")
    case True
    then show ?thesis using r1 assms by (simp add: Message_ReadFrom_def Let_def Length_def zeroMessage_def)
  next
    case False
    then show ?thesis using r1 r2 assms
      by (simp add: Message_ReadFrom_def Let_def Length_def zeroMessage_def)
  qed
qed

end

lemma connRead_decode:
  "\<exists>c'. connRead c = Some (map_sum id fst (decode_first (conn_avail c) (conn_final c)), c') \<and>
     (\<forall>m rest. decode_first (conn_avail c) (conn_final c) = Inr (m, rest) \<longrightarrow>
        conn_avail c' = rest \<and> conn_final c' = conn_final c)"
proof -
  let ?bs = "conn_avail c" and ?h = "messageHeaderFromBytes (take 24 (conn_avail c))"
  consider "length ?bs < 24" | "24 \<le> length ?bs" "length ?bs < 24 + unat (msg_length ?h)"
    | "24 \<le> length ?bs" "24 + unat (msg_length ?h) \<le> length ?bs" by linarith
  then show ?thesis
  proof cases
    case 1
    with conn_rd.Message_ReadFrom_short_header [OF 1, of zeroMessage] show ?thesis
      by (auto simp: connRead_def decode_first_def cut_error_def)
  next
    case 2
    with conn_rd.Message_ReadFrom_short_payload [OF 2(1) refl, of zeroMessage] show ?thesis
      by (auto simp: connRead_def decode_first_def cut_error_def Length_def Let_def)
  next
    case 3
    with conn_rd.Message_ReadFrom_complete [OF 3(1) refl 3(2)] show ?thesis
      by (auto simp: connRead_def decode_first_def Length_def Let_def add.commute unat_eq_0)
  qed
qed

text \<open>All complete messages of a byte string.\<close>

lemma decode_first_shorter: "decode_first bs fin = Inr (m, rest) \<Longrightarrow> length rest < length bs"
  by (auto simp: decode_first_def Let_def split: if_splits)

function decode_all :: "bytes \<Rightarrow> Message list" where
  "decode_all bs = (case decode_first bs EOF of Inl _ \<Rightarrow> [] | Inr (m, rest) \<Rightarrow> m # decode_all rest)"
  by auto
termination
  by (relation "measure length") (auto simp: decode_first_shorter)

declare decode_all.simps [simp del]

lemma decode_first_final: "decode_first bs fin = Inr x \<longleftrightarrow> decode_first bs fin' = Inr x"
  by (auto simp: decode_first_def Let_def)

lemma decode_all_step: "decode_first bs fin = Inr (m, rest) \<Longrightarrow> decode_all bs = m # decode_all rest"
  using decode_first_final [of bs fin _ EOF] by (subst decode_all.simps) simp

lemma decode_all_encode: "\<forall>m \<in> set ms. wf_message m \<Longrightarrow> decode_all (concat (map encode ms)) = map as_received ms"
proof (induction ms)
  case Nil
  then show ?case by (subst decode_all.simps) (simp add: decode_first_def)
next
  case (Cons m ms)
  then show ?case using decode_first_encode [of m "concat (map encode ms)" EOF] by (simp add: decode_all_step)
qed

lemma decode_all_wire_message: "list_all wire_message (decode_all bs)"
proof (induction bs rule: decode_all.induct)
  case (1 bs)
  then show ?case
    using decode_first_wire_message [of bs EOF]
    by (subst decode_all.simps) (auto split: sum.splits)
qed

section \<open>What a session receives\<close>

lemma connRead_Inr:
  assumes "connRead c = Some (Inr m, c')"
  shows "decode_first (conn_avail c) (conn_final c) = Inr (m, conn_avail c') \<and> conn_final c' = conn_final c"
  using connRead_decode [of c] assms by (cases "decode_first (conn_avail c) (conn_final c)") auto

lemma connRead_Inl:
  assumes "connRead c = Some (Inl e, c')"
  shows "e = conn_final c \<or> e = ErrUnexpectedEOF"
  using connRead_decode [of c] assms
  by (cases "decode_first (conn_avail c) (conn_final c)")
     (auto simp: decode_first_def cut_error_def Let_def split: if_splits)

lemma session_step_wire_message: "session_step s l t \<Longrightarrow> list_all wire_message (received [l])"
  by (elim session_elims) (auto dest!: connRead_Inr decode_first_wire_message)

lemma session_run_wire_message: "session_run s ls t \<Longrightarrow> list_all wire_message (received ls)"
proof (induction rule: session_run.induct)
  case (run_step s ls t l u)
  with session_step_wire_message [OF run_step.hyps(2)] show ?case by (simp del: received.simps)
qed simp

text \<open>The messages still to come when the reader is in its loop, and what has come so far.\<close>

definition decode_inv :: "bytes \<Rightarrow> clabel list \<Rightarrow> session \<Rightarrow> bool" where
  "decode_inv bs ls s \<longleftrightarrow> prefix (received ls) (decode_all bs) \<and>
     (\<forall>e. reader s = RReport e \<longrightarrow> \<not> isTransientError e) \<and>
     (reader s = RRead \<or> reader s = RCheck \<longrightarrow> \<not> isTransientError (conn_final (s_conn s)) \<and>
        (c_closed (s_conn s) \<or> decode_all bs = received ls @ decode_all (conn_avail (s_conn s))))"

lemma decode_inv_outside:
  assumes "decode_inv bs ls s" and "reader t = reader s" and "received [l] = []"
    and "conn_avail (s_conn t) = conn_avail (s_conn s) \<and> conn_final (s_conn t) = conn_final (s_conn s) \<and>
           c_closed (s_conn t) = c_closed (s_conn s) \<or> c_closed (s_conn t)"
  shows "decode_inv bs (ls @ [l]) t"
  using assms by (auto simp: decode_inv_def conn_avail_def conn_final_def simp del: received.simps)

lemma decode_none: "c_closed c \<Longrightarrow> connRead c \<noteq> Some (Inr m, c')"
  using connRead_Inr [of c m c'] by (auto simp: conn_avail_def decode_first_def)

lemma reader_step_decode_inv:
  assumes "reader_step s l t" and "decode_inv bs ls s"
  shows "decode_inv bs (ls @ [l]) t"
  using assms(1)
proof cases
  case (r_received m c')
  have fin: "\<not> isTransientError (conn_final (s_conn s))"
    and split: "decode_all bs = received ls @ decode_all (conn_avail (s_conn s))"
    using assms(2) r_received decode_none [of "s_conn s" m c'] by (auto simp: decode_inv_def)
  note d = connRead_Inr [OF r_received(4)]
  have "decode_all (conn_avail (s_conn s)) = m # decode_all (conn_avail c')" using d by (blast intro: decode_all_step)
  then show ?thesis using r_received fin split d by (simp add: decode_inv_def)
next
  case (r_failed e c')
  with assms(2) connRead_Inl [OF r_failed(4)] show ?thesis by (auto simp: decode_inv_def)
qed (use assms(2) in \<open>auto simp: decode_inv_def session_simps split: if_splits\<close>)

lemma session_step_decode_inv:
  assumes "session_step s l t" and "decode_inv bs ls s"
  shows "decode_inv bs (ls @ [l]) t"
  using assms(1)
proof (cases rule: session_step.cases)
  case s_consume
  then show ?thesis
  proof (cases rule: consumeConnection.cases)
    case c_reader
    then show ?thesis using reader_step_decode_inv assms by blast
  next
    case c_monitor
    then show ?thesis by (elim monitor_stepE) (auto intro!: decode_inv_outside [OF assms(2)])
  next
    case c_writer
    then show ?thesis
      by (elim writer_stepE)
         (auto intro!: decode_inv_outside [OF assms(2)] dest: connWrite_inbound connWrite_frame(2) simp: session_simps)
  qed
next
  case s_user
  then show ?thesis by (elim user_stepE) (auto intro!: decode_inv_outside [OF assms(2)] simp: session_simps)
qed

lemma session_run_decode_inv:
  assumes "session_run s0 ls s" and "s0 = start_session b c" and "\<not> isTransientError (conn_final c)"
  shows "decode_inv (conn_avail c) ls s"
  using assms
proof (induction rule: session_run.induct)
  case (run_nil s)
  then show ?case by (simp add: decode_inv_def start_session_def)
next
  case (run_step s ls u l v)
  then show ?case using session_step_decode_inv by blast
qed

text \<open>
  A transient read error in the middle of a message loses the bytes read so far: the loop of the reader
  goes on with the connection, and takes what follows for the beginning of a message.  Here the whole
  message arrives, with a timeout behind its third byte, and both reads fail.
\<close>

lemma transient_read_error_loses_message:
  "\<exists>c1 c2. connRead ((new_conn [])\<lparr>c_in := [Chunk (take 3 (encode example_message)), Fail (NetError ''i/o timeout'' False True),
                                       Chunk (drop 3 (encode example_message))]\<rparr>) =
       Some (Inl (NetError ''i/o timeout'' False True), c1) \<and>
     connRead c1 = Some (Inl ErrUnexpectedEOF, c2)"
  by (intro exI [of _ "(new_conn [])\<lparr>c_in := [Chunk (drop 3 (encode example_message))]\<rparr>"] exI [of _ "new_conn []"])
     code_simp

section \<open>Properties\<close>

text \<open>
  C18. Reading one message is the reference decoder applied to the bytes that arrive before the next
  error, however the network cuts them into pieces: the same error, or the same message with the
  connection left exactly behind it.  The message is well formed, and its encoding is the bytes
  consumed, but for the third byte of the header, which the protocol does not use.
\<close>

theorem connRead_is_decoder:
  "case decode_first (conn_avail c) (conn_final c) of
     Inl e \<Rightarrow> (\<exists>c'. connRead c = Some (Inl e, c'))
   | Inr (m, rest) \<Rightarrow> (\<exists>c'. connRead c = Some (Inr m, c') \<and> conn_avail c' = rest \<and> conn_final c' = conn_final c) \<and>
       wf_message m \<and> payload m \<noteq> Some [] \<and> (conn_avail c)[2 := 0] = encode m @ rest"
  using connRead_decode [of c] decode_first_wire_message [of "conn_avail c"] decode_first_bytes [of "conn_avail c"]
  by (auto simp: wire_message_def split: sum.splits)

text \<open>
  C19. Whatever bytes the peer sends, in whatever pieces, with whatever errors in between, transient
  ones included: in every interleaving of a session, every message that is handed out or waits in
  the read queue is well formed (a UUID of 16 bytes, a length field that is the payload's length)
  and has no empty payload slice.  When the stream does not fail with a transient error, the
  messages received are the first ones of the stream's decoding.
\<close>

theorem received_messages_well_formed:
  assumes "session_run (start_session b c) ls s" and "list_all wire_message (queue (readQueue b))"
  shows "list_all wire_message (handed_out ls @ queue (readQueue (base s))) \<and>
    (\<not> isTransientError (conn_final c) \<longrightarrow> prefix (received ls) (decode_all (conn_avail c)))"
proof -
  have "list_all wire_message (handed_out ls @ queue (readQueue (base s)))"
    using session_run_inbound [OF assms(1)] session_run_wire_message [OF assms(1)] assms(2)
    by (metis list_all_append start_session_simps(1))
  then show ?thesis using session_run_decode_inv [OF assms(1) refl] by (simp add: decode_inv_def)
qed

theorem received_messages_well_formed_witness:
  "\<exists>s. session_run (start_session newBaseTcpConnection (new_conn [encode example_message, [1, 2, 3]]))
         [CReceived example_message, CHandOut example_message, CTau] s \<and>
     wire_message example_message \<and> prefix [example_message] (decode_all (encode example_message @ [1, 2, 3]))"
proof -
  let ?c = "new_conn [encode example_message, [1, 2, 3]]"
  obtain c' where "connRead ?c = Some (Inr example_message, c')"
    using connRead_encode [of example_message ?c "[1, 2, 3]"] by auto
  from receive_one_run [OF _ _ this, of newBaseTcpConnection] obtain s where
    s: "session_run (start_session newBaseTcpConnection ?c) [CReceived example_message, CHandOut example_message, CTau] s" by auto
  from received_messages_well_formed [OF s] s show ?thesis by (auto simp: isTransientError_def)
qed

end
