(* ===== verification/Session_Termination.thy ===== *)
theory Session_Termination
  imports Endpoint Stream_Decoder
begin

text \<open>
  Termination of \<open>consumeConnection\<close>: left to itself, on a connection whose incoming stream ends at some
  point, it takes finitely many steps, and it can only stop by returning, on a full error channel
  that nobody reads, or in the lost wake-up of the writer.  The bound is a measure made of what the
  connection still delivers, of what is still to be written, of the writes that will fail, and of
  the three program counters.
\<close>

section \<open>Every read and every failing write uses up its script\<close>

lemma conn_Read_size: "conn_Read c n = (bs, e, c') \<Longrightarrow> in_size (c_in c') \<le> in_size (c_in c)"
  by (auto simp: conn_Read_cases)

lemma conn_Read_size_less:
  "conn_Read c n = (bs, e, c') \<Longrightarrow> \<not> c_closed c \<Longrightarrow> c_in c \<noteq> [] \<Longrightarrow> 0 < n \<Longrightarrow> in_size (c_in c') < in_size (c_in c)"
  by (auto simp: conn_Read_cases)

text \<open>The first read of \<open>ReadAtLeast\<close>, and what a relation kept by single reads says of the others.\<close>

lemma ReadAtLeast_first:
  assumes one: "\<And>r n bs e r'. rd r n = (bs, e, r') \<Longrightarrow> R r r'"
    and refl: "\<And>r. R r r" and trans: "\<And>r r1 r2. R r r1 \<Longrightarrow> R r1 r2 \<Longrightarrow> R r r2"
    and ret: "ReadAtLeast (LimitedReader_Read rd) (r, k) k k = Some (bs, e, (r', k'))" and "0 < k"
  shows "\<exists>bs1 e1 r1. rd r k = (bs1, e1, r1) \<and> R r1 r'"
proof -
  obtain bs1 e1 r1 where rd: "rd r k = (bs1, e1, r1)" by (cases "rd r k")
  have lim: "R (fst x) (fst x')" if "LimitedReader_Read rd x n = (b, e, x')" for x n b e x'
    using that one refl by (cases x) (auto simp: LimitedReader_Read_def split: if_splits prod.splits)
  obtain b0 e0 where loop: "readLoop (LimitedReader_Read rd) k k (r, k) [] = Some (b0, e0, (r', k'))"
    using ret by (auto simp: ReadAtLeast_def split: if_splits)
  have step: "LimitedReader_Read rd (r, k) k = (bs1, e1, (r1, k - length bs1))"
    using rd \<open>0 < k\<close> by (simp add: LimitedReader_Read_def)
  have "R r1 r'"
  proof (cases e1)
    case None
    with loop step \<open>0 < k\<close> have "readLoop (LimitedReader_Read rd) k k (r1, k - length bs1) bs1 = Some (b0, e0, (r', k'))"
      by (subst (asm) readLoop.simps) simp
    from readLoop_rel [where R = "\<lambda>x x'. R (fst x) (fst x')", OF lim _ _ this] refl trans show ?thesis by simp
  next
    case (Some err)
    with loop step \<open>0 < k\<close> refl show ?thesis by (subst (asm) readLoop.simps) simp
  qed
  with rd show ?thesis by blast
qed

lemma Message_ReadFrom_first:
  assumes one: "\<And>r n bs e r'. rd r n = (bs, e, r') \<Longrightarrow> R r r'"
    and refl: "\<And>r. R r r" and trans: "\<And>r r1 r2. R r r1 \<Longrightarrow> R r1 r2 \<Longrightarrow> R r r2"
    and ret: "Message_ReadFrom rd m r = Some (n, e, m', r')"
  shows "\<exists>bs1 e1 r1. rd r 24 = (bs1, e1, r1) \<and> R r1 r'"
proof -
  have read: "R x x'" if "ReadAtLeast (LimitedReader_Read rd) (x, k) l l = Some (bs, err, (x', k'))"
    for x k l bs err x' k'
    by (rule ReadAtLeast_limited_rel [where R = R, OF _ _ _ that]) (fact one, fact refl, fact trans)
  obtain b e1 r1 k1 where 1: "ReadAtLeast (LimitedReader_Read rd) (r, 24) 24 24 = Some (b, e1, (r1, k1))"
    using ret by (auto simp: Message_ReadFrom_def split: option.splits)
  have "\<exists>bs1 e1 r0. rd r 24 = (bs1, e1, r0) \<and> R r0 r1"
    by (rule ReadAtLeast_first [where R = R, OF _ _ _ 1]) (fact one, fact refl, fact trans, simp)
  moreover let ?l = "unat (Length (messageHeaderFromBytes b))"
  have "R r1 r'"
  proof (cases "r' = r1")
    case False
    then obtain p e2 k2 where "ReadAtLeast (LimitedReader_Read rd) (r1, ?l) ?l ?l = Some (p, e2, (r', k2))"
      using ret 1 by (auto simp: Message_ReadFrom_def Let_def split: option.splits if_splits)
    then show ?thesis by (rule read)
  qed (simp add: refl)
  ultimately show ?thesis using trans by blast
qed

lemma connRead_size:
  assumes "connRead c = Some (r, c')"
  shows "in_size (c_in c') \<le> in_size (c_in c)"
    and "\<not> c_closed c \<Longrightarrow> c_in c \<noteq> [] \<Longrightarrow> in_size (c_in c') < in_size (c_in c)"
proof -
  obtain n e m where ret: "Message_ReadFrom conn_Read zeroMessage c = Some (n, e, m, c')"
    using assms by (auto simp: connRead_def split: option.splits if_splits)
  have "\<exists>bs1 e1 c1. conn_Read c 24 = (bs1, e1, c1) \<and> in_size (c_in c') \<le> in_size (c_in c1)"
    by (rule Message_ReadFrom_first [where R = "\<lambda>c c'. in_size (c_in c') \<le> in_size (c_in c)", OF _ _ _ ret])
       (auto dest: conn_Read_size)
  then obtain bs1 e1 c1 where 1: "conn_Read c 24 = (bs1, e1, c1)" and 2: "in_size (c_in c') \<le> in_size (c_in c1)"
    by blast
  show "in_size (c_in c') \<le> in_size (c_in c)" using conn_Read_size [OF 1] 2 by simp
  show "in_size (c_in c') < in_size (c_in c)" if "\<not> c_closed c" "c_in c \<noteq> []"
    using conn_Read_size_less [OF 1 that] 2 by simp
qed

text \<open>A message, or a transient error, comes from an open connection with something left to read.\<close>

lemma connRead_uses_script:
  assumes "connRead c = Some (r, c')" and "case r of Inl e \<Rightarrow> isTransientError e | Inr _ \<Rightarrow> True"
  shows "in_size (c_in c') < in_size (c_in c)"
proof (rule connRead_size(2) [OF assms(1)])
  have "\<not> c_closed c \<and> c_in c \<noteq> []"
  proof (cases r)
    case (Inl e)
    with assms connRead_Inl [of c e c'] have "isTransientError (conn_final c)" by auto
    then show ?thesis by (auto simp: conn_final_def split: if_splits)
  next
    case (Inr m)
    with assms(1) connRead_Inr [of c m c'] show ?thesis
      by (cases "c_in c") (auto simp: conn_avail_def decode_first_def split: if_splits)
  qed
  then show "\<not> c_closed c" "c_in c \<noteq> []" by auto
qed

definition script_used :: "conn \<Rightarrow> go_error option \<Rightarrow> conn \<Rightarrow> bool" where
  "script_used c e c' \<longleftrightarrow> length (c_wr c') \<le> length (c_wr c) \<and>
     (\<forall>err. e = Some err \<longrightarrow> isTransientError err \<longrightarrow> length (c_wr c') < length (c_wr c))"

lemma conn_Write_script: "conn_Write c bs = (n, e, c') \<Longrightarrow> script_used c e c'"
  by (auto simp: script_used_def conn_Write_def split: if_splits list.splits wr_event.splits)

lemma connWrite_script: "connWrite c m = (e, c') \<Longrightarrow> script_used c e c'"
proof -
  assume "connWrite c m = (e, c')"
  then obtain n e' where w: "Message_WriteTo conn_Write m c = (n, e', c')"
    and e: "e = e' \<or> e' = None \<and> e = Some (lengthMismatch n m)"
    by (auto simp: connWrite_def split: prod.splits option.splits if_splits)
  have "script_used c e' c'"
    by (rule Message_WriteTo_rel [where R = script_used, OF conn_Write_script _ w])
       (fastforce simp: script_used_def)+
  with e show ?thesis by (auto simp: script_used_def)
qed

section \<open>The measure\<close>

fun monitor_rank :: "monitor_pc \<Rightarrow> nat" where
  "monitor_rank MonSelect = 8"
| "monitor_rank MonUnblock = 7"
| "monitor_rank MonClose = 1"
| "monitor_rank MonDone = 0"

fun writer_rank :: "writer_pc \<Rightarrow> nat" where
  "writer_rank WDone = 0"
| "writer_rank WAsleep = 0"
| "writer_rank (WReport e) = (if isTransientError e then 6 else 1)"
| "writer_rank (WPrepend m e) = (if isTransientError e then 7 else 2)"
| "writer_rank (WWrite m) = 3"
| "writer_rank WTake = 4"
| "writer_rank WCheck = 5"
| "writer_rank WWoken = 5"

fun reader_rank :: "reader_pc \<Rightarrow> nat" where
  "reader_rank RDone = 0"
| "reader_rank RCancel = 1"
| "reader_rank (RReport e) = (if isTransientError e then 5 else 2)"
| "reader_rank RRead = 3"
| "reader_rank RCheck = 4"

definition session_measure :: "session \<Rightarrow> nat" where
  "session_measure s = monitor_rank (monitor s) + writer_rank (writer s) + reader_rank (reader s) +
     3 * in_size (c_in (s_conn s)) + 3 * length (unwritten s) + 5 * length (c_wr (s_conn s))"

lemma monitor_step_measure: "monitor_step s t \<Longrightarrow> session_measure t < session_measure s"
  by (elim monitor_stepE) (auto simp: session_measure_def unwritten_def wake_writer_def)

lemma writer_step_measure: "writer_step s l t \<Longrightarrow> session_measure t < session_measure s"
proof (elim writer_stepE, goal_cases)
  case (7 m c')
  with connWrite_script [of "s_conn s" m None c'] connWrite_frame(1) [of "s_conn s" m None c']
  show ?case by (auto simp: session_measure_def unwritten_def script_used_def)
next
  case (8 m e c')
  with connWrite_script [of "s_conn s" m "Some e" c'] connWrite_frame(1) [of "s_conn s" m "Some e" c']
  show ?case by (auto simp: session_measure_def unwritten_def script_used_def)
qed (auto simp: session_measure_def unwritten_def session_simps)

lemma reader_step_measure: "reader_step s l t \<Longrightarrow> session_measure t < session_measure s"
proof (elim reader_stepE, goal_cases)
  case (1 m c')
  with connRead_uses_script [of "s_conn s" "Inr m" c'] connRead_frame [of "s_conn s" "Inr m" c']
  show ?case by (auto simp: session_measure_def unwritten_def read_frame_def)
next
  case (2 e c')
  with connRead_uses_script [of "s_conn s" "Inl e" c'] connRead_frame [of "s_conn s" "Inl e" c']
    connRead_size(1) [of "s_conn s" "Inl e" c']
  show ?case by (auto simp: session_measure_def unwritten_def read_frame_def)
qed (auto simp: session_measure_def unwritten_def session_simps)

lemma consumeConnection_measure: "consumeConnection s l t \<Longrightarrow> session_measure t < session_measure s"
  by (elim consumeConnectionE) (auto intro: monitor_step_measure writer_step_measure reader_step_measure)

section \<open>Where it can stop\<close>

lemma consumeConnection_stuck:
  assumes "session_inv s" and "\<forall>l t. \<not> consumeConnection s l t"
  shows "session_done s \<or> lost_wakeup s \<or> errors_cap \<le> length (unrecoverableErrors (base s))"
proof (cases "errors_cap \<le> length (unrecoverableErrors (base s))")
  case False
  then have room: "length (unrecoverableErrors (base s)) < errors_cap" by simp
  have r: "reader s = RDone" using reader_progress [OF room] assms(2) by blast
  with assms(1) have "closedConnCtx s" by (simp add: session_inv_def)
  then have m: "monitor s = MonDone" using monitor_progress assms(2) by blast
  have "writer s = WAsleep \<or> writer s = WDone" using writer_progress [OF room] assms(2) by blast
  with r m assms(1) show ?thesis
    by (auto simp: session_done_def lost_wakeup_def session_inv_def)
qed simp

lemma own_runs_inv: "runs consumeConnection s ls t \<Longrightarrow> session_inv s \<Longrightarrow> session_inv t"
  by (erule runs_invariant) (auto intro: session_step_inv s_consume)

subsection \<open>An example\<close>

text \<open>The peer closes at once and the writer finds the context closed: the six steps to the return.\<close>

lemma closed_session_run:
  "\<exists>t. runs consumeConnection (start_session newBaseTcpConnection (new_conn [])) (replicate 6 CTau) t \<and> session_done t"
proof -
  let ?s = "\<lambda>c cl mo wr re. \<lparr>base = newBaseTcpConnection, s_conn = c, closedConnCtx = cl, monitor = mo, writer = wr, reader = re\<rparr>"
  let ?c = "new_conn []"
  obtain c' where rd: "connRead ?c = Some (Inl EOF, c')"
    using connRead_decode [of ?c] by (auto simp: decode_first_def cut_error_def)
  have 1: "consumeConnection (?s ?c False MonSelect WCheck RRead) CTau (?s c' False MonSelect WCheck RCancel)"
    using r_failed [of "?s ?c False MonSelect WCheck RRead" EOF c', THEN c_reader] rd
    by (simp add: isEOF_def errors_Is.simps)
  have 2: "consumeConnection (?s c' False MonSelect WCheck RCancel) CTau (?s c' True MonSelect WCheck RDone)"
    using r_cancel [of "?s c' False MonSelect WCheck RCancel", THEN c_reader] by simp
  have 3: "consumeConnection (?s c' True MonSelect WCheck RDone) CTau (?s c' True MonSelect WDone RDone)"
    using w_check_closed [of "?s c' True MonSelect WCheck RDone", THEN c_writer] by simp
  have 4: "consumeConnection (?s c' True MonSelect WDone RDone) CTau (?s c' True MonUnblock WDone RDone)"
    using mon_closed [of "?s c' True MonSelect WDone RDone", THEN c_monitor] by simp
  have 5: "consumeConnection (?s c' True MonUnblock WDone RDone) CTau (?s c' True MonClose WDone RDone)"
    using mon_unblock [of "?s c' True MonUnblock WDone RDone", THEN c_monitor] by (simp add: wake_writer_def)
  have 6: "consumeConnection (?s c' True MonClose WDone RDone) CTau (?s (snd (conn_Close c')) True MonDone WDone RDone)"
    using mon_close [of "?s c' True MonClose WDone RDone", THEN c_monitor] by simp
  note own = runs_cons [of consumeConnection]
  have "runs consumeConnection (?s ?c False MonSelect WCheck RRead) [CTau, CTau, CTau, CTau, CTau, CTau]
          (?s (snd (conn_Close c')) True MonDone WDone RDone)"
    by (rule own [OF 1 own [OF 2 own [OF 3 own [OF 4 own [OF 5 own [OF 6 runs_nil]]]]]])
  then show ?thesis
    by (intro exI [of _ "?s (snd (conn_Close c')) True MonDone WDone RDone"])
       (simp add: start_session_def session_done_def eval_nat_numeral)
qed

section \<open>Properties\<close>

text \<open>
  C14. \<open>consumeConnection\<close> terminates: from any state that a session can reach, on a \<open>net.Conn\<close> whose incoming
  stream ends (after finitely many bytes and errors, in end of file), when nothing more comes from its users,
  its goroutines take at most \<open>session_measure\<close> further steps, however they are
  interleaved and whichever reads and writes fail.  Where they can move no more, \<open>consumeConnection\<close>
  has returned, or the error channel is full, or the writer sleeps in the one state in which its
  wake-up was lost, with monitor and reader returned and nothing queued.
\<close>

theorem consumeConnection_terminates:
  assumes "session_run (start_session b c) ls s" and "runs consumeConnection s ls' t"
  shows "length ls' \<le> session_measure s \<and>
    (session_done t \<or> (\<exists>l u. consumeConnection t l u) \<or> errors_cap \<le> length (unrecoverableErrors (base t)) \<or>
     monitor t = MonDone \<and> reader t = RDone \<and> writer t = WAsleep \<and> queue (writeQueue (base t)) = [])"
proof -
  have "session_inv t" using own_runs_inv [OF assms(2)] session_run_inv [OF assms(1) session_inv_start] by blast
  from consumeConnection_stuck [OF this] show ?thesis
    using runs_measure [OF assms(2), where \<mu> = session_measure] consumeConnection_measure
    by (auto simp: lost_wakeup_def)
qed

theorem consumeConnection_terminates_witness:
  "\<exists>t. runs consumeConnection (start_session newBaseTcpConnection (new_conn [])) (replicate 6 CTau) t \<and> session_done t \<and>
     6 \<le> session_measure (start_session newBaseTcpConnection (new_conn []))"
proof -
  obtain t where t: "runs consumeConnection (start_session newBaseTcpConnection (new_conn [])) (replicate 6 CTau) t" "session_done t"
    using closed_session_run by blast
  from consumeConnection_terminates [OF run_nil t(1)] t show ?thesis by auto
qed

end
