(* ===== verification/Acked_Delivery.thy ===== *)
theory Acked_Delivery
  imports Service "HOL-Library.Multiset"
begin

text \<open>
  The layers put together: two services, each on its own connection, whose sessions exchange bytes.
  What a service submits to its connection is what the session is to write, and what the session hands
  out is what the service accepts.  Handlers are free to keep state and to send messages of their own, as
  long as the acks they write are for the message they handle, through the function they are given.
\<close>

section \<open>Services on connections\<close>

fun accepted :: "svc_label list \<Rightarrow> Message list" where
  "accepted [] = []"
| "accepted (LAccept m # ls) = m # accepted ls"
| "accepted (_ # ls) = accepted ls"

fun handled :: "svc_label list \<Rightarrow> Message list" where
  "handled [] = []"
| "handled (LHandled m # ls) = m # handled ls"
| "handled (_ # ls) = handled ls"

text \<open>Everything the service has submitted to its connection, in order.\<close>

definition submissions :: "'s svc_world \<Rightarrow> Message list" where
  "submissions w = queue (writeQueue (connection (svc w)))"

definition acks_own :: "('s, baseTcpConnection) MessageHandler \<Rightarrow> bool" where
  "acks_own h \<longleftrightarrow> (\<forall>m s b s' b'. h (NewServiceMessage m (service_ackFunc m)) (s, b) = Some (s', b') \<longrightarrow>
     (\<exists>ms. queue (writeQueue b') = queue (writeQueue b) @ ms \<and>
        (\<forall>x \<in> set ms. is_ack x \<longrightarrow> (\<exists>err. x = newAckMessage (UUID (header m)) err))))"

definition service_step :: "'s svc_world \<Rightarrow> svc_label \<Rightarrow> 's svc_world \<Rightarrow> bool" where
  "service_step w l w' \<longleftrightarrow> svc_step w l w' \<and> acks_own (handler (svc w))"

text \<open>
  A peer: its service runs on a new connection object, and the connection's session on \<open>c\<close> carries
  what the service submits and accepts.
\<close>

definition peer_run :: "'s \<Rightarrow> conn \<Rightarrow> svc_label list \<Rightarrow> 's svc_world \<Rightarrow> session \<Rightarrow> bool" where
  "peer_run hs c ls w s \<longleftrightarrow> runs service_step (start_service newBaseTcpConnection hs) ls w \<and>
     (\<exists>ks. session_run (start_session newBaseTcpConnection c) ks s \<and>
        submitted ks = submissions w \<and> handed_out ks = accepted ls)"

text \<open>A link: the bytes that reach the second connection were written on the first, and neither side sees transient errors.\<close>

definition linked :: "session \<Rightarrow> conn \<Rightarrow> bool" where
  "linked s c \<longleftrightarrow> prefix (conn_avail c) (c_out (s_conn s)) \<and> \<not> isTransientError (conn_final c) \<and>
     c_out c = [] \<and> no_transient_writes (c_wr c)"

section \<open>Lemmas\<close>

lemma accepted_append [simp]: "accepted (ls @ [l]) = accepted ls @ accepted [l]"
  by (induction ls rule: accepted.induct) auto

lemma handled_append [simp]: "handled (ls @ [l]) = handled ls @ handled [l]"
  by (induction ls rule: handled.induct) auto

lemma newAckMessage_simps [simp]: "is_ack (newAckMessage u err)" "UUID (header (newAckMessage u err)) = u"
  by (simp_all add: is_ack_def newAckMessage_def NewMessage_def OpCode_def UUID_def)

lemma Noop_acks_own: "acks_own NoopMessageHandler"
  by (auto simp: acks_own_def NoopMessageHandler_def service_message_defs service_ackFunc_def WriteMessage_def queue_op_defs)

lemma router_acks_own:
  assumes "\<forall>h \<in> fmran' r. acks_own h"
  shows "acks_own (MessageRouter_HandleServiceMessage r)"
proof -
  have own: "acks_own h" if "fmlookup r op = Some h" for op h using assms that by (auto simp: fmran'_def)
  show ?thesis
    unfolding acks_own_def
  proof (intro allI impI)
    fix m s b s' b'
    let ?sm = "NewServiceMessage m (service_ackFunc m)"
    assume run: "MessageRouter_HandleServiceMessage r ?sm (s, b) = Some (s', b')"
    show "\<exists>ms. queue (writeQueue b') = queue (writeQueue b) @ ms \<and>
        (\<forall>x \<in> set ms. is_ack x \<longrightarrow> (\<exists>err. x = newAckMessage (UUID (header m)) err))"
    proof (cases "fmlookup r (OpCode (Headers ?sm))")
      case None
      with run show ?thesis
        by (auto simp: MessageRouter_HandleServiceMessage_def service_message_defs service_ackFunc_def WriteMessage_def queue_op_defs)
    next
      case (Some h)
      with run own [OF Some] show ?thesis
        unfolding acks_own_def MessageRouter_HandleServiceMessage_def by simp
    qed
  qed
qed

lemma service_runs_svc_run: "runs service_step w ls w' \<Longrightarrow> svc_run w ls w'"
  by (induction rule: runs.induct) (auto simp: service_step_def intro: svc_run.intros)

text \<open>The messages of the goroutines of \<open>accept\<close> at their start.\<close>

definition starts :: "accept_pc list \<Rightarrow> Message multiset" where
  "starts pcs = mset (concat (map (\<lambda>pc. case pc of AStart m \<Rightarrow> [m] | _ \<Rightarrow> []) pcs))"

lemma starts_simps [simp]:
  "starts [] = {#}" "starts (xs @ ys) = starts xs + starts ys" "starts (AStart m # xs) = add_mset m (starts xs)"
  "starts (ASend ch e # xs) = starts xs" "starts (AClose ch # xs) = starts xs" "starts (AError err # xs) = starts xs"
  by (simp_all add: starts_def)

text \<open>Every message is handled at most as often as it was accepted.\<close>

lemma svc_step_handled:
  "svc_step w l w' \<Longrightarrow> mset (handled [l]) + starts (acceptors w') \<subseteq># mset (accepted [l]) + starts (acceptors w)"
  by (elim svc_elims) (simp_all add: subset_mset.add_increasing)

lemma service_runs_handled:
  "runs service_step w0 ls w \<Longrightarrow> acceptors w0 = [] \<Longrightarrow> mset (handled ls) + starts (acceptors w) \<subseteq># mset (accepted ls)"
proof (induction rule: runs.induct)
  case (runs_snoc w0 ls w l w')
  have 1: "mset (handled [l]) + starts (acceptors w') \<subseteq># mset (accepted [l]) + starts (acceptors w)"
    by (rule svc_step_handled) (use runs_snoc.hyps(2) in \<open>simp add: service_step_def\<close>)
  have "mset (handled (ls @ [l])) + starts (acceptors w') = mset (handled ls) + (mset (handled [l]) + starts (acceptors w'))"
    by (simp add: ac_simps del: handled.simps)
  also have "\<dots> \<subseteq># mset (handled ls) + (mset (accepted [l]) + starts (acceptors w))"
    using 1 by (rule subset_mset.add_left_mono)
  also have "\<dots> = (mset (handled ls) + starts (acceptors w)) + mset (accepted [l])" by (simp only: ac_simps)
  also have "\<dots> \<subseteq># mset (accepted ls) + mset (accepted [l])"
    using runs_snoc.IH [OF runs_snoc.prems] by (rule subset_mset.add_right_mono)
  also have "\<dots> = mset (accepted (ls @ [l]))" by (simp del: accepted.simps)
  finally show ?case .
qed simp

text \<open>Every ack a service submits is for a message its handler was run on.\<close>

definition acks_for_handled :: "svc_label list \<Rightarrow> 's svc_world \<Rightarrow> bool" where
  "acks_for_handled ls w \<longleftrightarrow> (\<forall>x \<in> set (submissions w). is_ack x \<longrightarrow>
     (\<exists>m \<in> set (handled ls). \<exists>err. x = newAckMessage (UUID (header m)) err))"

text \<open>What a call sends is not an ack, and once it has written it, it is among the submissions.\<close>

definition calls_submitted :: "'s svc_world \<Rightarrow> bool" where
  "calls_submitted w \<longleftrightarrow> (\<forall>tid pc. fmlookup (senders w) tid = Some pc \<longrightarrow> \<not> is_ack (sender_msg pc) \<and>
     (case pc of SWait m ch \<Rightarrow> m \<in> set (submissions w) | SUnregister m r \<Rightarrow> m \<in> set (submissions w) | _ \<Rightarrow> True))"

lemma start_not_ack: "SendAndWaitForAck_start u opc p = Inr m \<Longrightarrow> \<not> is_ack m"
  by (auto simp: SendAndWaitForAck_start_def sendBinary_start_def is_ack_def NewMessage_def OpCode_def
      split: option.splits sum.splits if_splits)

lemma service_step_submissions:
  assumes "service_step w l w'" and "calls_submitted w"
  shows "\<exists>ms. submissions w' = submissions w @ ms \<and>
    (\<forall>x \<in> set ms. is_ack x \<longrightarrow> (\<exists>m err. handled [l] = [m] \<and> x = newAckMessage (UUID (header m)) err))"
proof -
  have step: "svc_step w l w'" and own: "acks_own (handler (svc w))" using assms(1) by (auto simp: service_step_def)
  have wr: "\<not> is_ack m" if "fmlookup (senders w) tid = Some (SWrite m ch)" for tid m ch
    using assms(2) that by (fastforce simp: calls_submitted_def)
  show ?thesis
  proof (cases "\<exists>m. l = LHandled m")
    case True
    then obtain m where l: "l = LHandled m" by blast
    from step l obtain hs' b' where
      "handler (svc w) (NewServiceMessage m (service_ackFunc m)) (hstate w, connection (svc w)) = Some (hs', b')"
      and b': "connection (svc w') = b'"
      by (auto elim!: svc_elims)
    with own obtain ms where "queue (writeQueue b') = queue (writeQueue (connection (svc w))) @ ms"
      "\<forall>x \<in> set ms. is_ack x \<longrightarrow> (\<exists>err. x = newAckMessage (UUID (header m)) err)"
      unfolding acks_own_def by blast
    with l b' show ?thesis by (auto simp: submissions_def)
  next
    case False
    with step wr show ?thesis
      by (elim svc_elims) (auto simp: submissions_def session_simps svc_op_defs cleanup_def)
  qed
qed

lemma service_step_calls:
  assumes "service_step w l w'" and "calls_submitted w"
  shows "calls_submitted w'"
proof -
  have mono: "set (submissions w) \<subseteq> set (submissions w')" using service_step_submissions [OF assms] by auto
  have step: "svc_step w l w'" using assms(1) by (simp add: service_step_def)
  have old: "\<not> is_ack (sender_msg pc) \<and>
     (case pc of SWait m ch \<Rightarrow> m \<in> set (submissions w') | SUnregister m r \<Rightarrow> m \<in> set (submissions w') | _ \<Rightarrow> True)"
    if "fmlookup (senders w) tid = Some pc" for tid pc
    using assms(2) that mono by (fastforce simp: calls_submitted_def split: sender_pc.splits)
  show ?thesis
    unfolding calls_submitted_def
  proof (intro allI impI)
    fix tid pc assume pc: "fmlookup (senders w') tid = Some pc"
    show "\<not> is_ack (sender_msg pc) \<and>
     (case pc of SWait m ch \<Rightarrow> m \<in> set (submissions w') | SUnregister m r \<Rightarrow> m \<in> set (submissions w') | _ \<Rightarrow> True)"
    proof (cases "fmlookup (senders w) tid = Some pc")
      case True
      then show ?thesis by (rule old)
    next
      case False
      with step pc show ?thesis
        by (elim svc_elims)
           (auto simp: submissions_def session_simps dest: start_not_ack dest!: old split: if_splits)
    qed
  qed
qed

lemma service_runs_invariants:
  assumes "runs service_step w0 ls w" and "w0 = start_service newBaseTcpConnection hs"
  shows "calls_submitted w \<and> acks_for_handled ls w"
  using assms
proof (induction rule: runs.induct)
  case (runs_nil w0)
  then show ?case
    by (simp add: calls_submitted_def acks_for_handled_def submissions_def start_service_def NewService_def)
next
  case (runs_snoc w0 ls w l w')
  then have IH: "calls_submitted w" "acks_for_handled ls w" by auto
  obtain ms where ms: "submissions w' = submissions w @ ms"
    and acks: "\<And>x. x \<in> set ms \<Longrightarrow> is_ack x \<Longrightarrow> \<exists>m err. handled [l] = [m] \<and> x = newAckMessage (UUID (header m)) err"
    using service_step_submissions [OF runs_snoc.hyps(2) IH(1)] by blast
  have "acks_for_handled (ls @ [l]) w'"
    unfolding acks_for_handled_def
  proof (intro ballI impI)
    fix x assume x: "x \<in> set (submissions w')" "is_ack x"
    then consider "x \<in> set (submissions w)" | "x \<in> set ms" using ms by auto
    then show "\<exists>m \<in> set (handled (ls @ [l])). \<exists>err. x = newAckMessage (UUID (header m)) err"
    proof cases
      case 1
      then obtain m err where "m \<in> set (handled ls)" "x = newAckMessage (UUID (header m)) err"
        using IH(2) x(2) unfolding acks_for_handled_def by blast
      then show ?thesis by (auto simp del: handled.simps)
    next
      case 2
      then obtain m err where "handled [l] = [m]" "x = newAckMessage (UUID (header m)) err" using acks x(2) by blast
      then show ?thesis by (auto simp del: handled.simps)
    qed
  qed
  then show ?case using service_step_calls [OF runs_snoc.hyps(2) IH(1)] by blast
qed

lemma service_runs_returned:
  assumes "runs service_step w0 ls w" and "w0 = start_service newBaseTcpConnection hs" and "LReturn tid m r \<in> set ls"
  shows "\<not> is_ack m \<and> m \<in> set (submissions w)"
  using assms
proof (induction rule: runs.induct)
  case (runs_snoc w0 ls w l w')
  have inv: "calls_submitted w" using service_runs_invariants [OF runs_snoc.hyps(1) runs_snoc.prems(1)] by blast
  have mono: "set (submissions w) \<subseteq> set (submissions w')" using service_step_submissions [OF runs_snoc.hyps(2) inv] by auto
  show ?case
  proof (cases "LReturn tid m r \<in> set ls")
    case True
    with runs_snoc mono show ?thesis by blast
  next
    case False
    with runs_snoc.prems have "l = LReturn tid m r" by simp
    with runs_snoc.hyps(2) have "fmlookup (senders w) tid = Some (SUnregister m r)"
      by (auto simp: service_step_def elim!: svc_elims)
    with inv have "\<not> is_ack m" "m \<in> set (submissions w)" by (fastforce simp: calls_submitted_def)+
    with mono show ?thesis by blast
  qed
qed simp

text \<open>What one peer accepts is the beginning of what the other submitted.\<close>

lemma linked_accepted:
  assumes "peer_run hs c ls w s" and "linked s' c" and "peer_run hs' c' ls' w' s'" and "linked s c'"
    and "\<forall>m \<in> set (submissions w'). wf_message m"
  shows "prefix (accepted ls) (map as_received (submissions w'))"
proof -
  obtain ks ks' where k: "session_run (start_session newBaseTcpConnection c) ks s" "handed_out ks = accepted ls"
    and k': "session_run (start_session newBaseTcpConnection c') ks' s'" "submitted ks' = submissions w'"
    using assms(1,3) unfolding peer_run_def by blast
  let ?ms = "submissions w'"
  have "prefix (c_out (s_conn s')) (concat (map encode ?ms))"
    using wire_prefix_of_submitted [OF k'(1)] assms(4,5) k'(2) by (simp add: linked_def wf_message_def)
  then have "prefix (conn_avail c) (concat (map encode ?ms))"
    using assms(2) prefix_order.trans by (auto simp: linked_def)
  from session_run_recv_inv [OF k(1) refl this _ assms(5)] assms(2)
  obtain n where "received ks = take n (map as_received ?ms)" by (auto simp: linked_def recv_inv_def take_map)
  then have "prefix (received ks) (map as_received ?ms)" using take_is_prefix by metis
  moreover have "prefix (handed_out ks) (received ks)" using session_run_inbound [OF k(1)] by simp
  ultimately show ?thesis using k(2) prefix_order.trans by metis
qed

lemma accepted_acks_mem: "(u, r) \<in> set (accepted_acks ls) \<Longrightarrow> \<exists>a \<in> set (accepted ls). is_ack a \<and> UUID (header a) = u \<and> r = ackError a"
  by (induction ls rule: accepted_acks.induct) (auto split: if_splits)

lemma handled_not_ack: "runs service_step w0 ls w \<Longrightarrow> \<forall>m \<in> set (handled ls). \<not> is_ack m"
proof (induction rule: runs.induct)
  case (runs_snoc w0 ls w l w')
  then have "\<forall>m \<in> set (handled [l]). \<not> is_ack m" by (auto simp: service_step_def elim!: svc_elims)
  with runs_snoc show ?case by (auto simp del: handled.simps)
qed simp

lemma distinct_image_eq:
  assumes "distinct (map f (filter P xs))" and "x \<in> set xs" "P x" "y \<in> set xs" "P y" "f x = f y"
  shows "x = y"
proof -
  have "inj_on f (set (filter P xs))" using assms(1) by (simp add: distinct_map)
  from inj_onD [OF this assms(6)] assms(2-5) show ?thesis by simp
qed

lemma count_distinct_image:
  assumes "distinct (map f (filter P xs))" and "\<And>y. g y = g m \<Longrightarrow> P y \<and> f y = f m"
  shows "count (mset (map g xs)) (g m) \<le> 1"
  using assms(1)
proof (induction xs)
  case (Cons y xs)
  have d: "distinct (map f (filter P xs))" using Cons.prems by (cases "P y") simp_all
  show ?case
  proof (cases "g y = g m")
    case True
    then have y: "P y" "f y = f m" using assms(2) by blast+
    have "g m \<noteq> g z" if "z \<in> set xs" for z
    proof
      assume "g m = g z"
      then have "P z" "f z = f m" using assms(2) [of z] by simp_all
      then have "f m \<in> f ` set (filter P xs)" using that by (intro image_eqI [of _ _ z]) simp_all
      then show False using Cons.prems y by simp
    qed
    then have "g m \<notin> g ` set xs" by blast
    then have "count (mset (map g xs)) (g m) = 0" by (simp add: count_eq_zero_iff)
    then show ?thesis using True by simp
  next
    case False
    then show ?thesis using Cons.IH [OF d] by simp
  qed
qed simp

lemma is_ack_as_received [simp]: "is_ack (as_received m) = is_ack m"
  by (simp add: is_ack_def)

lemma wf_ack_short: "wf_message (newAckMessage u err) \<Longrightarrow> \<forall>e. err = Some e \<longrightarrow> length (error_text e) < 2 ^ 32"
proof (intro allI impI)
  fix e assume wf: "wf_message (newAckMessage u err)" and "err = Some e"
  then have "length (error_text e) = unat (msg_length (header (newAckMessage u err)))"
    by (simp add: wf_message_def newAckMessage_def NewMessage_def payload_bytes_def)
  also have "\<dots> < 2 ^ 32" using unsigned_less [of "msg_length (header (newAckMessage u err))"] by simp
  finally show "length (error_text e) < 2 ^ 32" .
qed

lemma peer_runD: "peer_run hs c ls w s \<Longrightarrow> runs service_step (start_service newBaseTcpConnection hs) ls w"
  by (simp add: peer_run_def)

lemma handled_le_accepted:
  assumes "peer_run hs c ls w s"
  shows "mset (handled ls) \<subseteq># mset (accepted ls)"
proof -
  have "mset (handled ls) + starts (acceptors w) \<subseteq># mset (accepted ls)"
    by (rule service_runs_handled [OF peer_runD [OF assms]]) (simp add: start_service_def)
  then show ?thesis by (rule subset_mset.order_trans [OF mset_subset_eq_add_left])
qed

lemma as_received_header: "as_received z = as_received m \<Longrightarrow> header z = header m"
  by (metis header_as_received)

lemma handled_at_most_once:
  assumes "peer_run hs c ls w s" and "prefix (accepted ls) (map as_received ms)" and "\<not> is_ack m"
    and "distinct (map (\<lambda>m. UUID (header m)) (filter (\<lambda>m. \<not> is_ack m) ms))"
  shows "count (mset (handled ls)) (as_received m) \<le> 1"
proof -
  obtain zs where zs: "map as_received ms = accepted ls @ zs" using assms(2) by (auto simp: prefix_def)
  have "count (mset (handled ls)) (as_received m) \<le> count (mset (accepted ls)) (as_received m)"
    by (rule mset_subset_eq_count [OF handled_le_accepted [OF assms(1)]])
  also have "\<dots> \<le> count (mset (map as_received ms)) (as_received m)" by (simp only: zs mset_append count_union)
  also have "\<dots> \<le> 1"
    by (rule count_distinct_image [OF assms(4)]) (use assms(3) in \<open>auto simp: is_ack_def dest: as_received_header\<close>)
  finally show ?thesis .
qed

text \<open>A call that returns by an ack: the peer's handler was run on a message with its identifier, and wrote the ack.\<close>

lemma ack_origin:
  assumes "peer_run hsA cA lsA wA sA" and "peer_run hsB cB lsB wB sB"
    and "prefix (accepted lsA) (map as_received (submissions wB))"
    and "LReturn tid m r \<in> set lsA" and "r \<noteq> Some ContextCanceled" and "r \<noteq> Some (timeoutError m)"
  shows "\<exists>m' \<in> set (handled lsB). \<exists>err. UUID (header m') = UUID (header m) \<and>
    newAckMessage (UUID (header m)) err \<in> set (submissions wB) \<and>
    r = ackError (as_received (newAckMessage (UUID (header m)) err))"
proof -
  have "result_ok (set (accepted_acks lsA)) m r"
    by (rule return_result [OF service_runs_svc_run [OF peer_runD [OF assms(1)]] refl assms(4)])
  then have "(UUID (header m), r) \<in> set (accepted_acks lsA)" using assms(5,6) by (simp add: result_ok_def)
  then obtain a where a: "a \<in> set (accepted lsA)" "is_ack a" "UUID (header a) = UUID (header m)" "r = ackError a"
    using accepted_acks_mem by blast
  then obtain x where x: "x \<in> set (submissions wB)" "a = as_received x" using set_mono_prefix [OF assms(3)] by auto
  with a(2) have "is_ack x" by simp
  then obtain m' err where m': "m' \<in> set (handled lsB)" "x = newAckMessage (UUID (header m')) err"
    using service_runs_invariants [OF peer_runD [OF assms(2)] refl] x(1) unfolding acks_for_handled_def by blast
  have "UUID (header m') = UUID (header m)" using a(3) x(2) m'(2) by simp
  with m' x a(4) show ?thesis by auto
qed

subsection \<open>An example\<close>

lemma svc_run_service_runs:
  "svc_run w ls w' \<Longrightarrow> LSetHandler \<notin> set ls \<Longrightarrow> acks_own (handler (svc w)) \<Longrightarrow>
     runs service_step w ls w' \<and> handler (svc w') = handler (svc w)"
proof (induction rule: svc_run.induct)
  case (svc_snoc w ls w' l w'')
  then have IH: "runs service_step w ls w'" "handler (svc w') = handler (svc w)" by auto
  have "handler (svc w'') = handler (svc w')"
    using svc_snoc.hyps(2) svc_snoc.prems(1) by (elim svc_elims) (auto simp: svc_op_defs)
  moreover have "service_step w' l w''" using svc_snoc IH by (simp add: service_step_def)
  ultimately show ?case using IH by (auto intro: runs_snoc)
qed (simp add: runs_nil)

text \<open>The peer that is asked: it accepts the request and its default handler acks it.\<close>

lemma example_answer:
  "\<exists>w. runs service_step (start_service newBaseTcpConnection ()) [LArrive example_request, LAccept example_request, LHandled example_request] w \<and>
     submissions w = [example_ack]"
proof -
  let ?w0 = "start_service newBaseTcpConnection () :: unit svc_world" and ?m = example_request
  let ?w1 = "?w0\<lparr>acceptors := acceptors ?w0 @ [AStart ?m]\<rparr>"
  let ?b = "WriteMessage newBaseTcpConnection example_ack"
  let ?w2 = "?w1\<lparr>svc := (svc ?w1)\<lparr>connection := ?b\<rparr>, hstate := (), acceptors := []\<rparr>"
  have 1: "svc_run ?w0 [LArrive ?m, LAccept ?m] ?w1"
    by (rule accept_run) (simp_all add: start_service_def NewService_def)
  have "\<not> is_ack ?m" by (simp add: is_ack_def example_request_def NewMessage_def OpCode_def AckOpCode_eq)
  moreover have "NoopMessageHandler (NewServiceMessage ?m (service_ackFunc ?m)) ((), newBaseTcpConnection) = Some ((), ?b)"
    by (simp add: NoopMessageHandler_def service_message_defs service_ackFunc_def example_ack_def)
  ultimately have 2: "svc_step ?w1 (LHandled ?m) ?w2"
    using acc_handle [of ?w1 "[]" ?m "[]" "()" ?b] by (intro st_accept) (simp_all add: start_service_def NewService_def)
  have "svc_run ?w0 [LArrive ?m, LAccept ?m, LHandled ?m] ?w2" by (rule svc_run_snoc2 [OF 1 2]) simp
  then have "runs service_step ?w0 [LArrive ?m, LAccept ?m, LHandled ?m] ?w2"
    using svc_run_service_runs Noop_acks_own by (fastforce simp: start_service_def NewService_def)
  then show ?thesis by (intro exI conjI) (assumption, simp add: submissions_def WriteMessage_def queue_op_defs)
qed

lemma example_caller:
  "\<exists>w. runs service_step (start_service newBaseTcpConnection ()) example_trace w \<and> submissions w = [example_request]"
proof -
  obtain w where w: "svc_run (start_service newBaseTcpConnection ()) example_trace w"
    "queue (writeQueue (connection (svc w))) = [example_request]" using example_trace_run by blast
  moreover have "acks_own (handler (svc (start_service newBaseTcpConnection () :: unit svc_world)))"
    using Noop_acks_own by (simp add: start_service_def NewService_def)
  ultimately have "runs service_step (start_service newBaseTcpConnection ()) example_trace w"
    using svc_run_service_runs [OF w(1)] by (simp add: example_trace_def)
  with w(2) show ?thesis by (auto simp: submissions_def)
qed

text \<open>A session that writes one message and receives one, in either order.\<close>

lemma example_session:
  assumes "wf_message m" and "wf_message m'" and "as_received m' = m'"
  shows "\<exists>ks s. session_run (start_session newBaseTcpConnection (new_conn [encode m'])) ks s \<and>
     submitted ks = [m] \<and> handed_out ks = [m'] \<and> c_out (s_conn s) = encode m"
proof -
  let ?b = newBaseTcpConnection and ?c = "new_conn [encode m']"
  obtain c' where rd: "connRead ?c = Some (Inr m', c')" using connRead_encode [OF assms(2), of ?c "[]"] assms(3) by auto
  have 1: "session_run (start_session ?b ?c) [CReceived m', CHandOut m', CTau] (start_session ?b c')"
    by (rule receive_one_run [OF _ _ rd]) simp_all
  have c': "c_wr c' = []" "\<not> c_closed c'" "c_out c' = []"
    using connRead_frame [OF rd] by (simp_all add: read_frame_def new_conn_def)
  have 2: "session_run (start_session ?b c') [CSubmit m, CTau, CTau, CWritten m] (start_session ?b (c'\<lparr>c_out := encode m\<rparr>))"
    using send_one_run [OF _ connWrite_clean [OF assms(1) c'(1,2)], of ?b] c'(3) by (simp add: start_session_def)
  show ?thesis
    by (intro exI conjI) (rule session_run_append [OF 2 1], simp_all)
qed

lemma example_exchange_wf [simp]:
  "wf_message example_request" "wf_message example_ack" "as_received example_request = example_request"
  "as_received example_ack = example_ack"
  by (simp_all add: example_request_def example_ack_def newAckMessage_def NewMessage_def as_received_def
      wf_message_def wf_header_def payload_bytes_def)

lemma example_peers:
  "\<exists>lsB wA sA wB sB.
     peer_run () (new_conn [encode example_ack]) example_trace (wA :: unit svc_world) sA \<and> submissions wA = [example_request] \<and>
     peer_run () (new_conn [encode example_request]) lsB (wB :: unit svc_world) sB \<and> submissions wB = [example_ack] \<and>
     linked sA (new_conn [encode example_request]) \<and> linked sB (new_conn [encode example_ack])"
proof -
  let ?a = example_ack and ?m = example_request
  obtain wA :: "unit svc_world" where wA: "runs service_step (start_service newBaseTcpConnection ()) example_trace wA"
    "submissions wA = [?m]" using example_caller by blast
  obtain wB :: "unit svc_world" where wB:
    "runs service_step (start_service newBaseTcpConnection ()) [LArrive ?m, LAccept ?m, LHandled ?m] wB"
    "submissions wB = [?a]" using example_answer by blast
  obtain ksA sA where A: "session_run (start_session newBaseTcpConnection (new_conn [encode ?a])) ksA sA"
    "submitted ksA = [?m]" "handed_out ksA = [?a]" "c_out (s_conn sA) = encode ?m"
    using example_session [of ?m ?a] by auto
  obtain ksB sB where B: "session_run (start_session newBaseTcpConnection (new_conn [encode ?m])) ksB sB"
    "submitted ksB = [?a]" "handed_out ksB = [?m]" "c_out (s_conn sB) = encode ?a"
    using example_session [of ?a ?m] by auto
  have "peer_run () (new_conn [encode ?a]) example_trace wA sA"
    unfolding peer_run_def using wA A by (intro conjI exI [of _ ksA]) (simp_all add: example_trace_def)
  moreover have "peer_run () (new_conn [encode ?m]) [LArrive ?m, LAccept ?m, LHandled ?m] wB sB"
    unfolding peer_run_def by (intro conjI exI [of _ ksB]) (simp_all add: wB B)
  moreover have "linked sA (new_conn [encode ?m])" "linked sB (new_conn [encode ?a])"
    using A(4) B(4) by (simp_all add: linked_def isTransientError_def) (simp_all add: new_conn_def no_transient_writes_def)
  ultimately show ?thesis using wA(2) wB(2) by blast
qed

section \<open>Properties\<close>

text \<open>
  C2. An acked message was handled, once, and by nobody's mistake twice: let two peers run any
  interleaving of their services, with any handlers that ack only the message they handle, over two
  linked connections that see no transient errors, and let the requests the first one sends carry
  different identifiers.  When a call of \<open>SendAndWaitForAck\<close> returns anything but a timeout or a
  cancellation, the peer's handler was run on exactly this message exactly once, and acked it; and the
  call returns what the handler acked with: nil for nil (or for an error with an empty text),
  otherwise an error with the same text.
\<close>

theorem acked_means_handled_once:
  assumes "peer_run hsA cA lsA wA sA" and "peer_run hsB cB lsB wB sB" and "linked sA cB" and "linked sB cA"
    and "\<forall>m \<in> set (submissions wA @ submissions wB). wf_message m"
    and "distinct (map (\<lambda>m. UUID (header m)) (filter (\<lambda>m. \<not> is_ack m) (submissions wA)))"
    and "LReturn tid m r \<in> set lsA" and "r \<noteq> Some ContextCanceled" and "r \<noteq> Some (timeoutError m)"
  shows "count (mset (handled lsB)) (as_received m) = 1 \<and>
    (\<exists>err. newAckMessage (UUID (header m)) err \<in> set (submissions wB) \<and>
       r = (case err of None \<Rightarrow> None
            | Some e \<Rightarrow> if error_text e = '''' then None else Some (ErrorString (error_text e))))"
proof -
  have wfA: "\<forall>m \<in> set (submissions wA). wf_message m" and wfB: "\<forall>m \<in> set (submissions wB). wf_message m"
    using assms(5) by auto
  have accA: "prefix (accepted lsA) (map as_received (submissions wB))"
    by (rule linked_accepted [OF assms(1,4,2,3) wfB])
  have accB: "prefix (accepted lsB) (map as_received (submissions wA))"
    by (rule linked_accepted [OF assms(2,3,1,4) wfA])
  have m: "\<not> is_ack m" "m \<in> set (submissions wA)"
    using service_runs_returned [OF peer_runD [OF assms(1)] refl assms(7)] by auto
  obtain m' err where m': "m' \<in> set (handled lsB)" "UUID (header m') = UUID (header m)"
    and ack: "newAckMessage (UUID (header m)) err \<in> set (submissions wB)"
      "r = ackError (as_received (newAckMessage (UUID (header m)) err))"
    using ack_origin [OF assms(1,2) accA assms(7-9)] by blast
  have "m' \<in> set (accepted lsB)" using mset_subset_eqD [OF handled_le_accepted [OF assms(2)], of m'] m'(1) by simp
  then obtain y where y: "y \<in> set (submissions wA)" "m' = as_received y" using set_mono_prefix [OF accB] by auto
  have "\<not> is_ack y" using handled_not_ack [OF peer_runD [OF assms(2)]] m'(1) y(2) by auto
  with m y m'(2) have "y = m" by (intro distinct_image_eq [OF assms(6) y(1) _ m(2)]) auto
  then have "0 < count (mset (handled lsB)) (as_received m)" using m'(1) y(2) by simp
  with handled_at_most_once [OF assms(2) accB m(1) assms(6)]
  have "count (mset (handled lsB)) (as_received m) = 1" by linarith
  moreover have "\<forall>e. err = Some e \<longrightarrow> length (error_text e) < 2 ^ 32" by (rule wf_ack_short) (use wfB ack(1) in blast)
  from ackError_newAckMessage [OF this] have "ackError (as_received (newAckMessage (UUID (header m)) err)) =
    (case err of None \<Rightarrow> None | Some e \<Rightarrow> if error_text e = '''' then None else Some (ErrorString (error_text e)))" .
  ultimately show ?thesis using ack by auto
qed

theorem acked_means_handled_once_witness:
  "\<exists>lsB wA sA wB sB.
     peer_run () (new_conn [encode example_ack]) example_trace (wA :: unit svc_world) sA \<and>
     peer_run () (new_conn [encode example_request]) lsB (wB :: unit svc_world) sB \<and>
     linked sA (new_conn [encode example_request]) \<and> linked sB (new_conn [encode example_ack]) \<and>
     LReturn 0 example_request None \<in> set example_trace \<and> count (mset (handled lsB)) example_request = 1"
proof -
  obtain lsB and wA :: "unit svc_world" and sA and wB :: "unit svc_world" and sB where
    A: "peer_run () (new_conn [encode example_ack]) example_trace wA sA" "submissions wA = [example_request]" and
    B: "peer_run () (new_conn [encode example_request]) lsB wB sB" "submissions wB = [example_ack]" and
    L: "linked sA (new_conn [encode example_request])" "linked sB (new_conn [encode example_ack])"
    using example_peers by blast
  have r: "LReturn 0 example_request None \<in> set example_trace" by (simp add: example_trace_def)
  have "count (mset (handled lsB)) (as_received example_request) = 1"
    using acked_means_handled_once [OF A(1) B(1) L _ _ r] A(2) B(2) by simp
  with A(1) B(1) L r show ?thesis by (intro exI conjI) simp_all
qed

end
