(* ===== verification/Handler_Lock.thy ===== *)
theory Handler_Lock
  imports Service_Message
begin

text \<open>
  \<open>pkg/service/service.go\<close>: the read-write lock between the goroutines that run a handler
  (\<open>accept\<close>, and in the same way \<open>acceptError\<close>) and the calls that replace it (\<open>MessageHandler\<close>,
  \<open>ErrorHandler\<close>).  The theory \<open>Service\<close> takes a handler's run and its replacement as single steps;
  here the lock is explicit.  A handler is a value of type \<open>'h\<close>, and what matters of its run is that it may call
  \<open>MessageHandler\<close> on its own service before it returns.

  The lock is \<open>sync.RWMutex\<close>: a writer first gets the mutex that writers share, then announces itself,
  from when on \<open>RLock\<close> waits, and then waits until there are no readers.
\<close>

section \<open>The goroutines\<close>

text \<open>
  \<open>TRLock m\<close>: \<open>accept\<close> of \<open>m\<close>, at \<open>handlerMutex.RLock()\<close>;  \<open>THandling m h\<close>: inside \<open>HandleServiceMessage\<close> of
  the handler \<open>h\<close> it found, with the read lock.  A call of \<open>MessageHandler\<close> with \<open>h'\<close> waits for the
  writers' mutex (\<open>TWant\<close>), then, announced, for the readers (\<open>TLock\<close>), and then assigns (\<open>TAssign\<close>).  The last
  three counters are a call from inside a handler \<open>h\<close> that runs on \<open>m\<close>.
\<close>

datatype 'h lock_pc =
    TRLock Message | THandling Message 'h
  | TWant 'h | TLock 'h | TAssign 'h
  | TWantInside Message 'h 'h | TLockInside Message 'h 'h | TAssignInside Message 'h 'h

record 'h lock_world =
  goroutines :: "(nat, 'h lock_pc) fmap"
  current :: 'h

datatype 'h lock_label =
    KArrive Message | KHandle Message 'h | KHandlerReturns Message | KCall 'h | KCallInside nat 'h | KTau | KReplaced 'h

fun running :: "'h lock_pc \<Rightarrow> 'h option" where
  "running (THandling m h) = Some h"
| "running (TWantInside m h h') = Some h"
| "running (TLockInside m h h') = Some h"
| "running (TAssignInside m h h') = Some h"
| "running _ = None"

fun has_lock :: "'h lock_pc \<Rightarrow> bool" where
  "has_lock (TAssign h') = True"
| "has_lock (TAssignInside m h h') = True"
| "has_lock _ = False"

fun announced :: "'h lock_pc \<Rightarrow> bool" where
  "announced (TLock h') = True"
| "announced (TLockInside m h h') = True"
| "announced pc = has_lock pc"

definition some_goroutine :: "('h lock_pc \<Rightarrow> bool) \<Rightarrow> 'h lock_world \<Rightarrow> bool" where
  "some_goroutine P w \<longleftrightarrow> (\<exists>pc \<in> fmran' (goroutines w). P pc)"

text \<open>When \<open>RLock\<close> returns, when a writer gets the writers' mutex, and when \<open>Lock\<close> returns.\<close>

definition can_RLock :: "'h lock_world \<Rightarrow> bool" where
  "can_RLock w \<longleftrightarrow> \<not> some_goroutine announced w"

definition can_announce :: "'h lock_world \<Rightarrow> bool" where
  "can_announce w \<longleftrightarrow> \<not> some_goroutine announced w"

definition can_Lock :: "'h lock_world \<Rightarrow> bool" where
  "can_Lock w \<longleftrightarrow> \<not> some_goroutine (\<lambda>pc. running pc \<noteq> None) w"

definition move :: "nat \<Rightarrow> 'h lock_pc \<Rightarrow> 'h lock_world \<Rightarrow> 'h lock_world" where
  "move tid pc w = w\<lparr>goroutines := fmupd tid pc (goroutines w)\<rparr>"

definition leave :: "nat \<Rightarrow> 'h lock_world \<Rightarrow> 'h lock_world" where
  "leave tid w = w\<lparr>goroutines := fmdrop tid (goroutines w)\<rparr>"

abbreviation at_pc :: "'h lock_world \<Rightarrow> nat \<Rightarrow> 'h lock_pc \<Rightarrow> bool" where
  "at_pc w tid pc \<equiv> fmlookup (goroutines w) tid = Some pc"

text \<open>\<open>accept\<close>, and what a running handler does: return, or call \<open>MessageHandler\<close>.\<close>

inductive handling_step :: "'h lock_world \<Rightarrow> 'h lock_label \<Rightarrow> 'h lock_world \<Rightarrow> bool" where
  h_arrive: "fmlookup (goroutines w) tid = None \<Longrightarrow> handling_step w (KArrive m) (move tid (TRLock m) w)"
| h_rlock: "at_pc w tid (TRLock m) \<Longrightarrow> can_RLock w \<Longrightarrow>
    handling_step w (KHandle m (current w)) (move tid (THandling m (current w)) w)"
| h_return: "at_pc w tid (THandling m h) \<Longrightarrow> handling_step w (KHandlerReturns m) (leave tid w)"
| h_call: "at_pc w tid (THandling m h) \<Longrightarrow> handling_step w (KCallInside tid h') (move tid (TWantInside m h h') w)"

text \<open>\<open>MessageHandler\<close>, called from elsewhere and from inside a handler.\<close>

inductive replacing_step :: "'h lock_world \<Rightarrow> 'h lock_label \<Rightarrow> 'h lock_world \<Rightarrow> bool" where
  p_call: "fmlookup (goroutines w) tid = None \<Longrightarrow> replacing_step w (KCall h') (move tid (TWant h') w)"
| p_announce: "at_pc w tid (TWant h') \<Longrightarrow> can_announce w \<Longrightarrow> replacing_step w KTau (move tid (TLock h') w)"
| p_lock: "at_pc w tid (TLock h') \<Longrightarrow> can_Lock w \<Longrightarrow> replacing_step w KTau (move tid (TAssign h') w)"
| p_assign: "at_pc w tid (TAssign h') \<Longrightarrow> replacing_step w (KReplaced h') (leave tid (w\<lparr>current := h'\<rparr>))"
| p_announce_inside: "at_pc w tid (TWantInside m h h') \<Longrightarrow> can_announce w \<Longrightarrow>
    replacing_step w KTau (move tid (TLockInside m h h') w)"
| p_lock_inside: "at_pc w tid (TLockInside m h h') \<Longrightarrow> can_Lock w \<Longrightarrow>
    replacing_step w KTau (move tid (TAssignInside m h h') w)"
| p_assign_inside: "at_pc w tid (TAssignInside m h h') \<Longrightarrow>
    replacing_step w (KReplaced h') (move tid (THandling m h) (w\<lparr>current := h'\<rparr>))"

inductive lock_step :: "'h lock_world \<Rightarrow> 'h lock_label \<Rightarrow> 'h lock_world \<Rightarrow> bool" where
  k_handling: "handling_step w l w' \<Longrightarrow> lock_step w l w'"
| k_replacing: "replacing_step w l w' \<Longrightarrow> lock_step w l w'"

inductive_cases handling_stepE: "handling_step w l w'"
inductive_cases replacing_stepE: "replacing_step w l w'"
inductive_cases lock_stepE: "lock_step w l w'"

lemmas lock_elims = lock_stepE handling_stepE replacing_stepE

definition start_lock :: "'h \<Rightarrow> 'h lock_world" where
  "start_lock h = \<lparr>goroutines = fmempty, current = h\<rparr>"

section \<open>The invariant\<close>

lemma some_goroutine_iff: "some_goroutine P w \<longleftrightarrow> (\<exists>tid pc. at_pc w tid pc \<and> P pc)"
  by (auto simp: some_goroutine_def fmran'_def)

lemmas lock_guards = can_RLock_def can_announce_def can_Lock_def some_goroutine_iff

lemma at_pc_move [simp]: "at_pc (move tid pc w) tid' pc' \<longleftrightarrow> (if tid' = tid then pc' = pc else at_pc w tid' pc')"
  by (auto simp: move_def)

lemma at_pc_leave [simp]: "at_pc (leave tid w) tid' pc' \<longleftrightarrow> tid' \<noteq> tid \<and> at_pc w tid' pc'"
  by (simp add: leave_def)

lemma lock_world_simps [simp]:
  "current (move tid pc w) = current w" "current (leave tid w) = current w"
  "at_pc (w\<lparr>current := h\<rparr>) tid pc = at_pc w tid pc"
  by (simp_all add: move_def leave_def)

text \<open>
  One writer at most has announced itself; while one has the lock, no handler runs, so that no call from
  inside a handler ever has it; and the handlers that run are the current one.
\<close>

definition one_writer :: "'h lock_world \<Rightarrow> bool" where
  "one_writer w \<longleftrightarrow> (\<forall>tid pc tid' pc'. at_pc w tid pc \<longrightarrow> announced pc \<longrightarrow> at_pc w tid' pc' \<longrightarrow> announced pc' \<longrightarrow> tid = tid')"

definition writer_alone :: "'h lock_world \<Rightarrow> bool" where
  "writer_alone w \<longleftrightarrow> (\<forall>tid pc tid' pc'. at_pc w tid pc \<longrightarrow> has_lock pc \<longrightarrow> at_pc w tid' pc' \<longrightarrow> running pc' = None)"

definition runs_current :: "'h lock_world \<Rightarrow> bool" where
  "runs_current w \<longleftrightarrow> (\<forall>tid pc h. at_pc w tid pc \<longrightarrow> running pc = Some h \<longrightarrow> h = current w)"

definition lock_inv :: "'h lock_world \<Rightarrow> bool" where
  "lock_inv w \<longleftrightarrow> one_writer w \<and> writer_alone w \<and> runs_current w"

lemma has_lock_announced: "has_lock pc \<Longrightarrow> announced pc"
  by (cases pc) auto

lemma one_writer_step: "lock_step w l w' \<Longrightarrow> lock_inv w \<Longrightarrow> one_writer w'"
  unfolding lock_inv_def one_writer_def
  by (elim lock_elims) (simp_all add: lock_guards split: if_splits, (metis announced.simps has_lock.simps)+)

lemma no_assign_inside: "lock_inv w \<Longrightarrow> \<not> at_pc w tid (TAssignInside m h h')"
  unfolding lock_inv_def writer_alone_def by (metis has_lock.simps(2) option.distinct(1) running.simps(4))

lemma no_lock_inside: "at_pc w tid (TLockInside m h h') \<Longrightarrow> \<not> can_Lock w"
  by (auto simp: lock_guards intro!: exI [of _ tid])

lemma writer_alone_step:
  assumes "lock_step w l w'" and "lock_inv w"
  shows "writer_alone w'"
proof -
  have alone: "running pc' = None" if "at_pc w tid pc" "has_lock pc" "at_pc w tid' pc'" for tid pc tid' pc'
    using assms(2) that unfolding lock_inv_def writer_alone_def by blast
  have rlock: False if "can_RLock w" "at_pc w tid pc" "has_lock pc" for tid pc
    using that has_lock_announced by (auto simp: lock_guards)
  from assms(1) show ?thesis
    unfolding writer_alone_def
    by (elim lock_elims)
       (auto simp: lock_guards no_assign_inside [OF assms(2)] split: if_splits
         dest: alone rlock has_lock_announced no_lock_inside [unfolded lock_guards])
qed

lemma runs_current_step:
  assumes "lock_step w l w'" and "lock_inv w"
  shows "runs_current w'"
proof -
  have cur: "h = current w" if "at_pc w tid pc" "running pc = Some h" for tid pc h
    using assms(2) that unfolding lock_inv_def runs_current_def by blast
  have alone: "running pc' = None" if "at_pc w tid (TAssign h')" "at_pc w tid' pc'" for tid h' tid' pc'
    using assms(2) that unfolding lock_inv_def writer_alone_def by (metis has_lock.simps(1))
  from assms(1) show ?thesis
    unfolding runs_current_def
    by (elim lock_elims) (auto simp: no_assign_inside [OF assms(2)] split: if_splits dest: cur alone)
qed

lemma lock_inv_step: "lock_step w l w' \<Longrightarrow> lock_inv w \<Longrightarrow> lock_inv w'"
  using one_writer_step writer_alone_step runs_current_step unfolding lock_inv_def [of w'] by blast

lemma lock_inv_start: "lock_inv (start_lock h)"
  by (simp add: lock_inv_def one_writer_def writer_alone_def runs_current_def start_lock_def)

lemma lock_inv_runs: "runs lock_step (start_lock h) ls w \<Longrightarrow> lock_inv w"
  by (erule runs_invariant [where I = lock_inv]) (simp_all add: lock_inv_start lock_inv_step)

section \<open>A call from inside a handler\<close>

text \<open>A goroutine whose handler has called \<open>MessageHandler\<close>, and what that call makes impossible.\<close>

definition calls_inside :: "nat \<Rightarrow> Message \<Rightarrow> 'h \<Rightarrow> 'h \<Rightarrow> 'h lock_world \<Rightarrow> bool" where
  "calls_inside tid m h h' w \<longleftrightarrow> at_pc w tid (TWantInside m h h') \<or> at_pc w tid (TLockInside m h h')"

fun replaces :: "'h lock_label \<Rightarrow> bool" where
  "replaces (KReplaced h) = True"
| "replaces _ = False"

fun handles :: "'h lock_label \<Rightarrow> bool" where
  "handles (KHandle m h) = True"
| "handles _ = False"

lemma calls_inside_stuck:
  assumes "lock_step w l w'" and "lock_inv w" and "calls_inside tid m h h' w"
  shows "calls_inside tid m h h' w' \<and> current w' = current w \<and> \<not> replaces l"
proof -
  have busy: "\<not> can_Lock w"
    using assms(3) by (auto simp: calls_inside_def lock_guards intro!: exI [of _ tid])
  have alone: False if "at_pc w tid' (TAssign h'')" for tid' h''
    using assms(2,3) that unfolding lock_inv_def writer_alone_def calls_inside_def
    by (metis has_lock.simps(1) option.distinct(1) running.simps(2,3))
  from assms(1,3) busy show ?thesis
    by (elim lock_elims) (auto simp: calls_inside_def no_assign_inside [OF assms(2)] dest: alone split: if_splits)
qed

lemma calls_inside_runs:
  assumes "runs lock_step w ls w'" and "lock_inv w" and "calls_inside tid m h h' w"
  shows "lock_inv w' \<and> calls_inside tid m h h' w' \<and> current w' = current w \<and> list_all (\<lambda>l. \<not> replaces l) ls"
  using assms
proof (induction rule: runs.induct)
  case (runs_snoc w ls w1 l w2)
  then have IH: "lock_inv w1" "calls_inside tid m h h' w1" "current w1 = current w" "list_all (\<lambda>l. \<not> replaces l) ls"
    by auto
  from calls_inside_stuck [OF runs_snoc.hyps(2) IH(1,2)] lock_inv_step [OF runs_snoc.hyps(2) IH(1)] IH(3,4)
  show ?case by simp
qed simp

text \<open>Once the call has announced itself, no message is handled any more.\<close>

lemma lock_inside_stuck:
  assumes "lock_step w l w'" and "at_pc w tid (TLockInside m h h')"
  shows "at_pc w' tid (TLockInside m h h') \<and> \<not> handles l"
proof -
  have "\<not> can_RLock w" "\<not> can_Lock w"
    using assms(2) by (auto simp: lock_guards intro!: exI [of _ tid])
  with assms show ?thesis by (elim lock_elims) (auto split: if_splits)
qed

lemma lock_inside_runs:
  "runs lock_step w ls w' \<Longrightarrow> at_pc w tid (TLockInside m h h') \<Longrightarrow>
     at_pc w' tid (TLockInside m h h') \<and> list_all (\<lambda>l. \<not> handles l) ls"
proof (induction rule: runs.induct)
  case (runs_snoc w ls w1 l w2)
  then show ?case using lock_inside_stuck [OF runs_snoc.hyps(2), of tid m h h'] by simp
qed simp

lemma replaced_needs_lock:
  assumes "lock_step w l w'" and "replaces l"
  shows "\<exists>tid pc. at_pc w tid pc \<and> has_lock pc"
  using assms by (elim lock_elims) (auto, (metis has_lock.simps)+)

subsection \<open>An example\<close>

text \<open>A message arrives, its handler replaces itself and announces that.\<close>

lemma example_inside:
  "\<exists>w w1. runs lock_step (start_lock False) [KArrive example_message, KHandle example_message False] w \<and>
     lock_step w (KCallInside 0 True) w1 \<and>
     runs lock_step w1 [KTau] (move 0 (TLockInside example_message False True) w1)"
proof -
  let ?m = example_message
  let ?w0 = "start_lock False"
  let ?w1 = "move 0 (TRLock ?m) ?w0"
  let ?w2 = "move 0 (THandling ?m False) ?w1"
  let ?w3 = "move 0 (TWantInside ?m False True) ?w2"
  have cur: "current ?w1 = False" by (simp add: start_lock_def)
  have 1: "lock_step ?w0 (KArrive ?m) ?w1" by (intro k_handling h_arrive) (simp add: start_lock_def)
  have 2: "lock_step ?w1 (KHandle ?m False) ?w2"
    using h_rlock [of ?w1 0 ?m, THEN k_handling] by (simp add: lock_guards cur start_lock_def split: if_splits)
  have 3: "lock_step ?w2 (KCallInside 0 True) ?w3" by (intro k_handling h_call [where h = False]) simp
  have 4: "lock_step ?w3 KTau (move 0 (TLockInside ?m False True) ?w3)"
    by (intro k_replacing p_announce_inside) (auto simp: lock_guards start_lock_def split: if_splits)
  note lock_cons = runs_cons [of lock_step]
  have "runs lock_step ?w0 [KArrive ?m, KHandle ?m False] ?w2" by (rule lock_cons [OF 1 lock_cons [OF 2 runs_nil]])
  moreover have "runs lock_step ?w3 [KTau] (move 0 (TLockInside ?m False True) ?w3)" by (rule lock_cons [OF 4 runs_nil])
  ultimately show ?thesis using 3 by blast
qed

section \<open>Properties\<close>

text \<open>
  C26. A handler is never replaced under its feet: in every reachable state, each handler that is running is the one
  currently installed, and no step installs another one before it has returned.
\<close>

theorem handler_not_replaced_while_running:
  assumes "runs lock_step (start_lock h0) ls w" and "at_pc w tid pc" and "running pc = Some h"
  shows "h = current w \<and> {(h', w'). lock_step w (KReplaced h') w'} = {}"
proof -
  have inv: "lock_inv w" by (rule lock_inv_runs [OF assms(1)])
  have "False" if "lock_step w (KReplaced h') w'" for h' w'
    using replaced_needs_lock [OF that] inv assms(2,3) unfolding lock_inv_def writer_alone_def
    by (metis option.distinct(1) replaces.simps(1))
  moreover have "h = current w" using inv assms(2,3) unfolding lock_inv_def runs_current_def by blast
  ultimately show ?thesis by blast
qed

theorem handler_not_replaced_while_running_witness:
  "\<exists>w w1. runs lock_step (start_lock False) [KArrive example_message, KHandle example_message False] w \<and>
     lock_step w (KCallInside 0 True) w1 \<and> {(h', w'). lock_step w (KReplaced h') w'} = {}"
proof -
  obtain w w1 where w: "runs lock_step (start_lock False) [KArrive example_message, KHandle example_message False] w"
    and s: "lock_step w (KCallInside 0 True) w1" using example_inside by blast
  from s obtain m h where "at_pc w 0 (THandling m h)" by (auto elim!: lock_elims)
  from handler_not_replaced_while_running [OF w this] w s show ?thesis by auto
qed

text \<open>
  C40. A handler that calls \<open>MessageHandler\<close> on its own service never returns: whatever the interleaving, the call
  stays in \<open>Lock()\<close>, which waits for the read lock its own goroutine has, and no handler is ever installed
  again.  Once the call has announced itself to the lock, no further message is handled either.
\<close>

theorem handler_set_in_handler_deadlocks:
  assumes "runs lock_step (start_lock h0) ls w" and "lock_step w (KCallInside tid h') w1" and "runs lock_step w1 ls' w2"
  shows "current w2 = current w \<and> (\<forall>h''. KReplaced h'' \<notin> set ls') \<and>
    (\<exists>m h. (at_pc w2 tid (TWantInside m h h') \<or> at_pc w2 tid (TLockInside m h h')) \<and>
       (\<forall>ls'' w3 m' h''. at_pc w2 tid (TLockInside m h h') \<longrightarrow> runs lock_step w2 ls'' w3 \<longrightarrow> KHandle m' h'' \<notin> set ls''))"
proof -
  have inv: "lock_inv w1" by (rule lock_inv_step [OF assms(2) lock_inv_runs [OF assms(1)]])
  from assms(2) obtain m h where c1: "calls_inside tid m h h' w1" and cur: "current w1 = current w"
    by (auto simp: calls_inside_def elim!: lock_elims)
  note c2 = calls_inside_runs [OF assms(3) inv c1]
  have "KReplaced h'' \<notin> set ls'" for h'' using c2 by (auto simp: list_all_iff)
  moreover have "KHandle m' h'' \<notin> set ls''"
    if "at_pc w2 tid (TLockInside m h h')" "runs lock_step w2 ls'' w3" for ls'' w3 m' h''
    using lock_inside_runs [OF that(2,1)] by (auto simp: list_all_iff)
  ultimately show ?thesis using c2 cur by (auto simp: calls_inside_def)
qed

theorem handler_set_in_handler_deadlocks_witness:
  "\<exists>w w1 w2. runs lock_step (start_lock False) [KArrive example_message, KHandle example_message False] w \<and>
     lock_step w (KCallInside 0 True) w1 \<and> runs lock_step w1 [KTau] w2 \<and> current w2 = current w"
proof -
  obtain w w1 where w: "runs lock_step (start_lock False) [KArrive example_message, KHandle example_message False] w"
    and s: "lock_step w (KCallInside 0 True) w1"
    and r: "runs lock_step w1 [KTau] (move 0 (TLockInside example_message False True) w1)" using example_inside by blast
  from handler_set_in_handler_deadlocks [OF w s r] w s r show ?thesis by blast
qed

end
