(* ===== verification/Reconnection.thy ===== *)
theory Reconnection
  imports Server_Connection Stream_Decoder "HOL-Library.Sublist"
begin

text \<open>
  Client and server over the whole life of both: the client loses connections and dials new ones, the
  server accepts one after the other, and each connection carries bytes both ways until it breaks.  A
  \<open>history\<close> of an endpoint is a run together with the sessions it went through.  The locale \<open>session_endpoint\<close>
  extends \<open>endpoint\<close> by how an endpoint enters and leaves its sessions; client and server interpret it.
\<close>

section \<open>Histories\<close>

text \<open>One session: the connection object and the \<open>net.Conn\<close> it began with, what it showed, and its state.\<close>

record session_trace =
  tr_base :: baseTcpConnection
  tr_conn :: conn
  tr_labels :: "clabel list"
  tr_session :: session

definition begin_trace :: "session \<Rightarrow> session_trace" where
  "begin_trace s = \<lparr>tr_base = base s, tr_conn = s_conn s, tr_labels = [], tr_session = s\<rparr>"

text \<open>How a step from a state in session \<open>x\<close> (or in none) to one in \<open>y\<close> changes the list of sessions.\<close>

fun extend_history :: "session_trace list \<Rightarrow> session option \<Rightarrow> clabel list \<Rightarrow> session option \<Rightarrow> session_trace list" where
  "extend_history h None v (Some y) = h @ [begin_trace y]"
| "extend_history h (Some x) v (Some y) =
     butlast h @ [(last h)\<lparr>tr_labels := tr_labels (last h) @ v, tr_session := y\<rparr>]"
| "extend_history h x v None = h"

inductive history ::
  "('s \<Rightarrow> 'l \<Rightarrow> 's \<Rightarrow> bool) \<Rightarrow> ('l \<Rightarrow> clabel list) \<Rightarrow> ('s \<Rightarrow> session option) \<Rightarrow> 's \<Rightarrow> 'l list \<Rightarrow> session_trace list \<Rightarrow> 's \<Rightarrow> bool"
  for step vis session_of s0 where
  hist_start: "history step vis session_of s0 [] (map begin_trace (case session_of s0 of None \<Rightarrow> [] | Some x \<Rightarrow> [x])) s0"
| hist_step: "history step vis session_of s0 ls h t \<Longrightarrow> step t l u \<Longrightarrow>
    history step vis session_of s0 (ls @ [l]) (extend_history h (session_of t) (vis l) (session_of u)) u"

text \<open>The bytes a session has put on its connection.\<close>

definition stream :: "session_trace \<Rightarrow> bytes" where
  "stream x = c_out (s_conn (tr_session x))"

text \<open>What one end of a connection receives was written at the other, and reading does not fail transiently.\<close>

definition carries :: "session_trace \<Rightarrow> session_trace \<Rightarrow> bool" where
  "carries x y \<longleftrightarrow> prefix (conn_avail (tr_conn y)) (stream x) \<and> \<not> isTransientError (conn_final (tr_conn y))"

text \<open>
  The sessions of a client and of a server that talk to each other: the server accepts the client's connections in
  the order in which they were dialled; from one that it never accepts, the client receives nothing.
\<close>

inductive joined :: "session_trace list \<Rightarrow> session_trace list \<Rightarrow> bool" where
  join_nil: "joined [] []"
| join_ignored: "joined h h' \<Longrightarrow> conn_avail (tr_conn x) = [] \<Longrightarrow> \<not> isTransientError (conn_final (tr_conn x)) \<Longrightarrow> joined (x # h) h'"
| join_accepted: "joined h h' \<Longrightarrow> carries x y \<Longrightarrow> carries y x \<Longrightarrow> joined (x # h) (y # h')"

text \<open>
  A session whose writes never fail transiently, and in which no message whose write returned an error had gone out
  completely: the first message still to be written is not on the wire.
\<close>

definition clean_writes :: "session_trace \<Rightarrow> bool" where
  "clean_writes x \<longleftrightarrow> c_out (tr_conn x) = [] \<and> no_transient_writes (c_wr (tr_conn x)) \<and>
     (\<forall>m ms. unwritten (tr_session x) = m # ms \<longrightarrow> stream x \<noteq> concat (map encode (written (tr_labels x))) @ encode m)"

fun client_session :: "client \<Rightarrow> session option" where
  "client_session (CSession s) = Some s"
| "client_session _ = None"

fun pc_session :: "server_pc \<Rightarrow> session option" where
  "pc_session (SvSession s) = Some s"
| "pc_session _ = None"

definition server_session :: "serverTcpConnection \<Rightarrow> session option" where
  "server_session t = pc_session (sv_pc t)"

section \<open>The contract\<close>

locale session_endpoint = endpoint step vis todo taken
  for step :: "'s \<Rightarrow> 'l \<Rightarrow> 's \<Rightarrow> bool" and vis :: "'l \<Rightarrow> clabel list" and todo taken :: "'s \<Rightarrow> Message list" +
  fixes session_of :: "'s \<Rightarrow> session option"
  assumes session_begins: "step s l t \<Longrightarrow> session_of s = None \<Longrightarrow> session_of t = Some y \<Longrightarrow>
      y = start_session (base y) (s_conn y) \<and> vis l = []"
    and session_moves: "step s l t \<Longrightarrow> session_of s = Some x \<Longrightarrow> session_of t = Some y \<Longrightarrow>
      (\<exists>k. vis l = [k] \<and> session_step x k y) \<or> vis l = [] \<and> y = x"
    and session_ends: "step s l t \<Longrightarrow> session_of s = Some x \<Longrightarrow> session_of t = None \<Longrightarrow> vis l = []"
    and session_absent: "step s l t \<Longrightarrow> session_of s = None \<Longrightarrow> session_of t = None \<Longrightarrow>
      written (vis l) = [] \<and> received (vis l) = []"
    and session_todo: "session_of s = Some x \<Longrightarrow> todo s = unwritten x"
begin

definition trace_ok :: "session_trace \<Rightarrow> bool" where
  "trace_ok x \<longleftrightarrow> session_run (start_session (tr_base x) (tr_conn x)) (tr_labels x) (tr_session x)"

text \<open>What a history says of its run: the sessions are runs, and everything written or received was so in one of them.\<close>

definition history_ok :: "'s \<Rightarrow> 'l list \<Rightarrow> session_trace list \<Rightarrow> 's \<Rightarrow> bool" where
  "history_ok s0 ls h t \<longleftrightarrow>
     (\<forall>x \<in> set h. trace_ok x \<and> set (outbox (tr_base x) @ submitted (tr_labels x)) \<subseteq> set (todo s0 @ submitted (shown ls))) \<and>
     written (shown ls) = concat (map (\<lambda>x. written (tr_labels x)) h) \<and>
     received (shown ls) = concat (map (\<lambda>x. received (tr_labels x)) h) \<and>
     (\<forall>y. session_of t = Some y \<longrightarrow> h \<noteq> [] \<and> tr_session (last h) = y)"

lemma history_runs: "history step vis session_of s0 ls h t \<Longrightarrow> runs step s0 ls t"
  by (induction rule: history.induct) (auto intro: runs.intros)

lemma runs_history: "runs step s0 ls t \<Longrightarrow> \<exists>h. history step vis session_of s0 ls h t"
  by (induction rule: runs.induct) (blast intro: history.intros)+

lemma shown_snoc: "shown (ls @ [l]) = shown ls @ vis l"
  by (simp add: shown_def)

lemma todo_bound:
  assumes "runs step s0 ls t"
  shows "set (todo t) \<subseteq> set (todo s0 @ submitted (shown ls))"
  using conserves_outbound [OF assms] by (metis Un_upper2 set_append)

lemma begin_trace_ok:
  assumes "y = start_session (base y) (s_conn y)"
  shows "trace_ok (begin_trace y)"
  using run_nil [of y] assms by (simp add: trace_ok_def begin_trace_def)

lemma history_ok_begin:
  assumes "history_ok s0 ls h t" and "runs step s0 ls t" and "step t l u" and "session_of t = None" and "session_of u = Some y"
  shows "history_ok s0 (ls @ [l]) (h @ [begin_trace y]) u"
proof -
  have y: "y = start_session (base y) (s_conn y)" and v: "vis l = []" using session_begins [OF assms(3-5)] by auto
  have "unwritten y = outbox (base y)" by (subst y) simp
  then have "set (outbox (base y)) \<subseteq> set (todo s0 @ submitted (shown (ls @ [l])))"
    using todo_bound [OF runs_snoc [OF assms(2,3)]] session_todo [OF assms(5)] by simp
  with assms(1,5) begin_trace_ok [OF y] v show ?thesis
    by (auto simp: history_ok_def shown_snoc begin_trace_def)
qed

lemma history_ok_move:
  assumes "history_ok s0 ls h t" and "step t l u" and "session_of t = Some x" and "session_of u = Some y"
  shows "history_ok s0 (ls @ [l]) (butlast h @ [(last h)\<lparr>tr_labels := tr_labels (last h) @ vis l, tr_session := y\<rparr>]) u"
proof -
  have moves: "(\<exists>k. vis l = [k] \<and> session_step x k y) \<or> vis l = [] \<and> y = x" by (rule session_moves [OF assms(2-4)])
  obtain h0 tr where h: "h = h0 @ [tr]" and tr: "tr_session tr = x"
    using assms(1,3) unfolding history_ok_def by (metis append_butlast_last_id)
  let ?tr = "tr\<lparr>tr_labels := tr_labels tr @ vis l, tr_session := y\<rparr>"
  have "trace_ok ?tr" using assms(1) moves by (auto simp: history_ok_def h tr trace_ok_def intro: run_step)
  then show ?thesis
    using assms(1,4) by (auto simp: history_ok_def h shown_snoc labels_append)
qed

lemma history_ok_other:
  assumes "history_ok s0 ls h t" and "step t l u" and "session_of u = None"
  shows "history_ok s0 (ls @ [l]) h u"
proof -
  have "written (vis l) = []" "received (vis l) = []"
    using assms session_absent session_ends by (cases "session_of t"; fastforce)+
  with assms(1,3) show ?thesis by (auto simp: history_ok_def shown_snoc labels_append)
qed

lemma history_ok_holds:
  assumes "history step vis session_of s0 ls h t" and "\<And>x. session_of s0 = Some x \<Longrightarrow> x = start_session (base x) (s_conn x)"
  shows "history_ok s0 ls h t"
  using assms(1)
proof (induction rule: history.induct)
  case hist_start
  show ?case
  proof (cases "session_of s0")
    case (Some x)
    have "unwritten x = outbox (base x)" by (subst assms(2) [OF Some]) simp
    then show ?thesis
      using Some begin_trace_ok [OF assms(2) [OF Some]] session_todo [OF Some]
      by (simp add: history_ok_def shown_def begin_trace_def)
  qed (simp add: history_ok_def shown_def)
next
  case (hist_step ls h t l u)
  then show ?case
    using history_runs [OF hist_step.hyps(1)] history_ok_begin history_ok_move history_ok_other
    by (cases "session_of t"; cases "session_of u") auto
qed

end

section \<open>Client and server\<close>

interpretation cls: session_endpoint client_step client_vis client_todo client_taken client_session
proof (unfold_locales, goal_cases)
  case (1 s l t y)
  then show ?case by (elim client_stepE) (auto elim!: reDialLoop_stepE)
next
  case (2 s l t x y)
  then show ?case by (elim client_stepE) (auto elim!: reDialLoop_stepE)
next
  case (3 s l t x)
  then show ?case by (elim client_stepE) (auto elim!: reDialLoop_stepE)
next
  case (4 s l t)
  then show ?case by (elim client_stepE) (auto elim!: reDialLoop_stepE idle_stepE)
next
  case (5 s x)
  then show ?case by (cases s) auto
qed

interpretation svs: session_endpoint server_step server_vis server_todo server_taken server_session
proof (unfold_locales, goal_cases)
  case (1 s l t y)
  then show ?case
    by (elim server_stepE) (auto simp: server_session_def elim!: listenLoop_stepE split: if_splits)
next
  case (2 s l t x y)
  then show ?case
    by (elim server_stepE) (auto simp: server_session_def elim!: listenLoop_stepE split: if_splits)
next
  case (3 s l t x)
  then show ?case
    by (elim server_stepE) (auto simp: server_session_def elim!: listenLoop_stepE split: if_splits)
next
  case (4 s l t)
  then show ?case
    by (elim server_stepE) (auto simp: server_session_def elim!: listenLoop_stepE idle_stepE split: if_splits)
next
  case (5 s x)
  then show ?case by (cases "sv_pc s") (auto simp: server_session_def server_todo_def)
qed

section \<open>Decoding a stream that breaks off\<close>

lemma decode_first_append: "decode_first bs fin = Inr (m, rest) \<Longrightarrow> decode_first (bs @ xs) fin = Inr (m, rest @ xs)"
  by (auto simp: decode_first_def Let_def split: if_splits)

lemma decode_all_cut:
  assumes "wf_message m" and "strict_prefix bs (encode m)"
  shows "decode_all bs = []"
proof (cases "decode_first bs EOF")
  case (Inr x)
  obtain m' rest where x: "x = (m', rest)" by (cases x)
  obtain more where more: "encode m = bs @ more" "more \<noteq> []" using assms(2) by (auto simp: strict_prefix_def prefix_def)
  from decode_first_append [of bs EOF m' rest more] decode_first_encode [OF assms(1), of "[]" EOF] Inr x more
  show ?thesis by simp
qed (subst decode_all.simps, simp)

lemma decode_all_stream:
  assumes "\<forall>m \<in> set ms. wf_message m" and "prefix bs (concat (map encode ms) @ torn)"
    and "torn = [] \<or> (\<exists>m. wf_message m \<and> strict_prefix torn (encode m))"
  shows "prefix (decode_all bs) (map as_received ms)"
  using assms(1,2)
proof (induction ms arbitrary: bs)
  case Nil
  have "bs = [] \<or> (\<exists>m. wf_message m \<and> strict_prefix bs (encode m))"
    using Nil.prems(2) assms(3) by (auto dest: prefix_order.le_less_trans)
  then show ?case using decode_all_cut by (auto simp: decode_all.simps [of "[]"] decode_first_def)
next
  case (Cons m ms)
  then have wf: "wf_message m" by simp
  consider "prefix (encode m) bs" | "strict_prefix bs (encode m)"
    using Cons.prems(2) prefix_same_cases [of bs "encode m @ concat (map encode ms) @ torn" "encode m"]
    by (auto simp: strict_prefix_def)
  then show ?case
  proof cases
    case 1
    then obtain rest where rest: "bs = encode m @ rest" by (auto simp: prefix_def)
    from Cons.IH [of rest] Cons.prems rest have "prefix (decode_all rest) (map as_received ms)" by simp
    moreover have "decode_all bs = as_received m # decode_all rest"
      unfolding rest by (rule decode_all_step [OF decode_first_encode [OF wf]])
    ultimately show ?thesis by simp
  qed (simp add: decode_all_cut [OF wf])
qed

section \<open>Delivery\<close>

text \<open>What can be decoded from the stream of a session is a prefix of what was written in it.\<close>

lemma clean_stream:
  assumes "cls.trace_ok x" and "clean_writes x" and "prefix bs (stream x)"
    and wf: "\<forall>m \<in> set (outbox (tr_base x) @ submitted (tr_labels x)). wf_message m"
  shows "prefix (decode_all bs) (map as_received (written (tr_labels x)))"
proof -
  have run: "session_run (start_session (tr_base x) (tr_conn x)) (tr_labels x) (tr_session x)"
    using assms(1) by (simp add: cls.trace_ok_def)
  have "\<forall>m \<in> set (outbox (tr_base x) @ submitted (tr_labels x)). wf_header (header m)"
    using wf by (simp add: wf_message_def)
  from session_run_wire_inv [OF run refl _ this] assms(2) obtain torn where
    out: "stream x = concat (map encode (written (tr_labels x))) @ torn" and torn: "torn_ok (tr_session x) torn"
    by (auto simp: clean_writes_def wire_inv_def stream_def)
  have order: "outbox (tr_base x) @ submitted (tr_labels x) = written (tr_labels x) @ unwritten (tr_session x)"
    using session_run_order [OF run] by simp
  have "torn = [] \<or> (\<exists>m ms. unwritten (tr_session x) = m # ms \<and> prefix torn (encode m))"
    using torn by (auto simp: torn_ok_def unwritten_def split: writer_pc.splits)
  moreover have "torn \<noteq> encode m" if "unwritten (tr_session x) = m # ms" for m ms
    using assms(2) that out by (auto simp: clean_writes_def)
  ultimately have "torn = [] \<or> (\<exists>m. wf_message m \<and> strict_prefix torn (encode m))"
    using wf order unfolding strict_prefix_def by (metis in_set_conv_decomp append_Cons append_Nil)
  moreover have "\<forall>m \<in> set (written (tr_labels x)). wf_message m" using wf order by (metis Un_iff set_append)
  ultimately show ?thesis using decode_all_stream assms(3) out by metis
qed

lemma carried:
  assumes "cls.trace_ok x" and "clean_writes x" and "cls.trace_ok y" and "carries x y"
    and "\<forall>m \<in> set (outbox (tr_base x) @ submitted (tr_labels x)). wf_message m"
  shows "prefix (received (tr_labels y)) (map as_received (written (tr_labels x)))"
proof -
  have "prefix (received (tr_labels y)) (decode_all (conn_avail (tr_conn y)))"
    using session_run_decode_inv [OF assms(3) [unfolded cls.trace_ok_def] refl] assms(4)
    by (simp add: carries_def decode_inv_def)
  with clean_stream [OF assms(1,2) _ assms(5)] assms(4) show ?thesis
    by (meson carries_def prefix_order.trans)
qed

lemma ignored:
  assumes "cls.trace_ok x" and "conn_avail (tr_conn x) = []" and "\<not> isTransientError (conn_final (tr_conn x))"
  shows "received (tr_labels x) = []"
  using session_run_decode_inv [OF assms(1) [unfolded cls.trace_ok_def] refl assms(3)] assms(2)
  by (simp add: decode_inv_def decode_all.simps [of "[]"] decode_first_def)

text \<open>The traces of a history, ready for delivery: runs, clean, and of well-formed messages.\<close>

definition deliverable :: "session_trace \<Rightarrow> bool" where
  "deliverable x \<longleftrightarrow> cls.trace_ok x \<and> clean_writes x \<and>
     (\<forall>m \<in> set (outbox (tr_base x) @ submitted (tr_labels x)). wf_message m)"

lemma joined_delivery:
  assumes "joined h h'" and "\<forall>x \<in> set h \<union> set h'. deliverable x"
  shows "subseq (concat (map (\<lambda>x. received (tr_labels x)) h')) (map as_received (concat (map (\<lambda>x. written (tr_labels x)) h))) \<and>
    subseq (concat (map (\<lambda>x. received (tr_labels x)) h)) (map as_received (concat (map (\<lambda>x. written (tr_labels x)) h')))"
  using assms
proof (induction rule: joined.induct)
  case (join_ignored h h' x)
  then have "received (tr_labels x) = []" using ignored by (simp add: deliverable_def)
  moreover have "subseq (concat (map (\<lambda>x. received (tr_labels x)) h'))
      (map as_received (written (tr_labels x)) @ map as_received (concat (map (\<lambda>x. written (tr_labels x)) h)))"
    using join_ignored by (intro list_emb_append2) simp
  ultimately show ?case using join_ignored by simp
next
  case (join_accepted h h' x y)
  then have "prefix (received (tr_labels y)) (map as_received (written (tr_labels x)))"
    "prefix (received (tr_labels x)) (map as_received (written (tr_labels y)))"
    using carried by (simp_all add: deliverable_def)
  then show ?case using join_accepted
    by (auto intro!: list_emb_append_mono dest: prefix_imp_subseq)
qed simp


section \<open>Example histories\<close>

text \<open>A session whose reader meets the end of the stream while the writer is at its loop's head, or done, ends.\<close>

lemma eof_run:
  assumes "connRead (s_conn s) = Some (Inl EOF, c')" and "reader s = RRead" and "monitor s = MonSelect"
    and "writer s = WCheck \<or> writer s = WDone"
  shows "\<exists>n t. session_run s (replicate n CTau) t \<and> session_done t \<and> base t = base s \<and> c_out (s_conn t) = c_out (s_conn s)"
proof -
  let ?s1 = "s\<lparr>s_conn := c', reader := RCancel\<rparr>"
  let ?s2 = "?s1\<lparr>closedConnCtx := True, reader := RDone\<rparr>"
  let ?s3 = "?s2\<lparr>writer := WDone\<rparr>"
  let ?s4 = "?s3\<lparr>monitor := MonUnblock\<rparr>"
  let ?s5 = "?s4\<lparr>monitor := MonClose, writer := wake_writer WDone\<rparr>"
  let ?s6 = "?s5\<lparr>s_conn := snd (conn_Close (s_conn ?s5)), monitor := MonDone\<rparr>"
  have 1: "session_step s CTau ?s1" using r_failed [OF assms(2,1), THEN c_reader, THEN s_consume] by (simp add: isEOF_def)
  have 2: "session_step ?s1 CTau ?s2" using r_cancel [of ?s1, THEN c_reader, THEN s_consume] by simp
  have 4: "session_step ?s3 CTau ?s4" using mon_closed [of ?s3, THEN c_monitor, THEN s_consume] assms(3) by simp
  have 5: "session_step ?s4 CTau ?s5"
    using mon_unblock [of ?s4, THEN c_monitor, THEN s_consume] by simp
  have 6: "session_step ?s5 CTau ?s6" using mon_close [of ?s5, THEN c_monitor, THEN s_consume] by simp
  have rest: "session_run ?s3 (replicate 3 CTau) ?s6"
    using session_run_cons [OF 4 session_run_cons [OF 5 session_run_cons [OF 6 run_nil]]] by (simp add: eval_nat_numeral)
  have out: "c_out c' = c_out (s_conn s)" using connRead_frame [OF assms(1)] by (simp add: read_frame_def)
  have "\<exists>n. session_run ?s2 (replicate n CTau) ?s6"
  proof (cases "writer s = WDone")
    case True
    then have "?s3 = ?s2" by simp
    with rest show ?thesis by metis
  next
    case False
    then have "session_step ?s2 CTau ?s3"
      using w_check_closed [of ?s2, THEN c_writer, THEN s_consume] assms(4) by simp
    from session_run_cons [OF this rest] show ?thesis by (metis replicate_Suc)
  qed
  then obtain n where "session_run ?s2 (replicate n CTau) ?s6" by blast
  from session_run_cons [OF 1 session_run_cons [OF 2 this]]
  have "session_run s (replicate (Suc (Suc n)) CTau) ?s6" by simp
  moreover have "session_done ?s6" by (simp add: session_done_def wake_writer_def)
  ultimately show ?thesis using out by (intro exI [of _ "Suc (Suc n)"] exI [of _ ?s6]) simp
qed

lemma silent_labels [simp]:
  "submitted (replicate n CTau) = []" "written (replicate n CTau) = []" "received (replicate n CTau) = []"
  by (induction n) auto

text \<open>A run of the current session extends a history of the endpoint.\<close>

lemma history_session_run:
  assumes "session_run x ks y" and "\<And>x k y. session_step x k y \<Longrightarrow> step (f x) (g k) (f y)"
    and "\<And>k. vis (g k) = [k]" and "\<And>x. session_of (f x) = Some x"
    and "history step vis session_of s0 ls (h @ [tr]) (f x)" and "tr_session tr = x"
  shows "history step vis session_of s0 (ls @ map g ks) (h @ [tr\<lparr>tr_labels := tr_labels tr @ ks, tr_session := y\<rparr>]) (f y)"
  using assms(1,5,6)
proof (induction rule: session_run.induct)
  case (run_nil s)
  then show ?case by (cases tr) simp
next
  case (run_step s ks t k u)
  then show ?case
    using hist_step [OF run_step.IH [OF run_step.prems] assms(2) [OF run_step.hyps(2)]] assms(3,4) by simp
qed

text \<open>
  A session on \<open>c\<close> in which the connection is closed during the write of \<open>m\<close>, and the read meets the end of the
  stream: the error is reported, and \<open>m\<close> is left to be written.
\<close>

lemma failed_write_run:
  assumes "outbox b = []" and "unrecoverableErrors b = []" and "connWrite c m = (Some ErrClosed, d)"
    and "conn_avail d = []" and "conn_final d = EOF"
  shows "\<exists>ks s. session_run (start_session b c) ks s \<and> session_done s \<and>
    base s = b\<lparr>unrecoverableErrors := [ErrClosed], writeQueue := \<lparr>queue = [m]\<rparr>\<rparr> \<and>
    c_out (s_conn s) = c_out d \<and> submitted ks = [m] \<and> written ks = []"
proof -
  let ?b = "b\<lparr>unrecoverableErrors := [ErrClosed], writeQueue := \<lparr>queue = [m]\<rparr>\<rparr>"
  let ?s = "\<lambda>b pc. \<lparr>base = b, s_conn = d, closedConnCtx = False, monitor = MonSelect, writer = pc, reader = RRead\<rparr>"
  have "writeQueue b = \<lparr>queue = []\<rparr>" using assms(1) by (cases "writeQueue b") simp
  then have 1: "session_step (?s b (WPrepend m ErrClosed)) CTau (?s (b\<lparr>writeQueue := \<lparr>queue = [m]\<rparr>\<rparr>) (WReport ErrClosed))"
    using w_prepend [of "?s b (WPrepend m ErrClosed)" m ErrClosed, THEN c_writer, THEN s_consume]
    by (simp add: queue_op_defs isEOF_def errors_Is.simps)
  have eq: "b\<lparr>writeQueue := \<lparr>queue = [m]\<rparr>, unrecoverableErrors := [ErrClosed]\<rparr> = ?b" by (cases b) simp
  have 2: "session_step (?s (b\<lparr>writeQueue := \<lparr>queue = [m]\<rparr>\<rparr>) (WReport ErrClosed)) CTau (?s ?b WDone)"
    using w_report [of "?s (b\<lparr>writeQueue := \<lparr>queue = [m]\<rparr>\<rparr>) (WReport ErrClosed)" ErrClosed, THEN c_writer, THEN s_consume] assms(2)
    by (simp add: Errors_send_Some errors_cap_def eq)
  have "connRead d = Some (Inl EOF, snd (the (connRead d)))"
    using connRead_decode [of d] assms(4,5) by (auto simp: decode_first_def cut_error_def)
  then obtain n s where s: "session_run (?s ?b WDone) (replicate n CTau) s" "session_done s" "base s = ?b" "c_out (s_conn s) = c_out d"
    using eof_run [of "?s ?b WDone" "snd (the (connRead d))"] by auto
  have "session_run (start_session b c) ([CSubmit m, CTau, CTau, CTau] @ CTau # CTau # replicate n CTau) s"
    by (rule session_run_append [OF session_run_cons [OF 1 session_run_cons [OF 2 s(1)]]]) (use send_one_run [OF assms(1,3)] in simp)
  then show ?thesis using s
    by (intro exI [of _ "[CSubmit m, CTau, CTau, CTau] @ CTau # CTau # replicate n CTau"] exI [of _ s]) simp
qed

lemma resend_run:
  assumes "outbox b = []" and "connWrite c m = (None, d)"
  shows "session_run (start_session (b\<lparr>writeQueue := \<lparr>queue = [m]\<rparr>\<rparr>) c) [CTau, CTau, CWritten m]
    \<lparr>base = b, s_conn = d, closedConnCtx = False, monitor = MonSelect, writer = WCheck, reader = RRead\<rparr>"
proof -
  let ?b = "b\<lparr>writeQueue := \<lparr>queue = [m]\<rparr>\<rparr>"
  let ?s = "\<lambda>b c pc. \<lparr>base = b, s_conn = c, closedConnCtx = False, monitor = MonSelect, writer = pc, reader = RRead\<rparr>"
  have "writeQueue b = \<lparr>queue = []\<rparr>" using assms(1) by (cases "writeQueue b") simp
  then have restore: "?b\<lparr>writeQueue := \<lparr>queue = []\<rparr>\<rparr> = b" by (cases b) simp
  have 1: "session_step (start_session ?b c) CTau (?s ?b c WTake)"
    using w_check_open [of "start_session ?b c", THEN c_writer, THEN s_consume] by (simp add: start_session_def)
  have 2: "session_step (?s ?b c WTake) CTau (?s b c (WWrite m))"
    using w_take [of "?s ?b c WTake" m "\<lparr>queue = []\<rparr>", THEN c_writer, THEN s_consume] restore by (simp add: queue_take_eq)
  have 3: "session_step (?s b c (WWrite m)) (CWritten m) (?s b d WCheck)"
    using w_written [of "?s b c (WWrite m)" m d, THEN c_writer, THEN s_consume] assms(2) by simp
  show ?thesis by (rule session_run_cons [OF 1 session_run_cons [OF 2 session_run_cons [OF 3 run_nil]]])
qed

text \<open>A client that fails to write \<open>m\<close> on \<open>c1\<close>, redials, and writes \<open>m\<close> on \<open>c2\<close>.\<close>

lemma redial_history:
  assumes "outbox b = []" and "unrecoverableErrors b = []" and "\<not> ctx_done b"
    and "connWrite c1 m = (Some ErrClosed, d1)" and "conn_avail d1 = []" and "conn_final d1 = EOF"
    and "fresh_conn c2" and "connWrite c2 m = (None, d2)"
  shows "\<exists>ls x1 x2 k. history client_step client_vis client_session (startPolling b c1) ls [x1, x2] k \<and>
    submitted (concat (map client_vis ls)) = [m] \<and> tr_conn x1 = c1 \<and> tr_conn x2 = c2 \<and> stream x1 = c_out d1 \<and> stream x2 = c_out d2 \<and>
    written (tr_labels x1) = [] \<and> unwritten (tr_session x1) = [m] \<and> unwritten (tr_session x2) = []"
proof -
  let ?b' = "b\<lparr>unrecoverableErrors := [ErrClosed]\<rparr>" and ?ks2 = "[CTau, CTau, CWritten m]"
  let ?b = "?b'\<lparr>writeQueue := \<lparr>queue = [m]\<rparr>\<rparr>"
  let ?s2 = "\<lparr>base = ?b', s_conn = d2, closedConnCtx = False, monitor = MonSelect, writer = WCheck, reader = RRead\<rparr>"
  obtain ks1 s1 where s1: "session_run (start_session b c1) ks1 s1" "session_done s1" "base s1 = ?b" "c_out (s_conn s1) = c_out d1"
    and l1: "submitted ks1 = [m]" "written ks1 = []" using failed_write_run [OF assms(1,2,4-6)] by auto
  let ?H = "history client_step client_vis client_session (startPolling b c1)"
  let ?i1 = "begin_trace (start_session b c1)" and ?i2 = "begin_trace (start_session ?b c2)"
  let ?x1 = "?i1\<lparr>tr_labels := tr_labels ?i1 @ ks1, tr_session := s1\<rparr>" and ?x2 = "?i2\<lparr>tr_labels := tr_labels ?i2 @ ?ks2, tr_session := ?s2\<rparr>"
  have i1: "?H [] ([] @ [?i1]) (CSession (start_session b c1))"
    using hist_start [of client_step client_vis client_session "startPolling b c1"] by (simp add: startPolling_def)
  have h1: "?H ([] @ map ClConn ks1) ([] @ [?x1]) (CSession s1)"
    by (rule history_session_run [where f = CSession and g = ClConn, OF s1(1) k_session _ _ i1]) (simp_all add: begin_trace_def)
  have h2: "?H (map ClConn ks1 @ [ClTau]) [?x1] (CSelect ?b)"
    using hist_step [OF h1 k_lost [OF s1(2)]] by (simp add: s1(3))
  have h3: "?H ((map ClConn ks1 @ [ClTau]) @ [ClTau]) [?x1] (CDial ?b 0)"
    using hist_step [OF h2 d_dial [THEN k_redial]] assms(3) by simp
  have h4: "?H (((map ClConn ks1 @ [ClTau]) @ [ClTau]) @ [ClDialled c2]) ([?x1] @ [?i2]) (CSession (start_session ?b c2))"
    using hist_step [OF h3 d_dialled [THEN k_redial]] assms(7) by (simp add: clientReconnectionRetry_def)
  let ?ls = "(((map ClConn ks1 @ [ClTau]) @ [ClTau]) @ [ClDialled c2]) @ map ClConn ?ks2"
  have h5: "?H ?ls ([?x1] @ [?x2]) (CSession ?s2)"
    by (rule history_session_run [where f = CSession and g = ClConn, OF resend_run [OF _ assms(8)] k_session _ _ h4])
       (simp_all add: begin_trace_def assms(1))
  have "submitted (concat (map client_vis ?ls)) = [m]" using l1 by (simp add: labels_append o_def)
  moreover have "unwritten s1 = [m]" using unwritten_done [OF s1(2)] s1(3) by simp
  ultimately show ?thesis using h5 s1(4) l1 assms(1)
    by (intro exI [of _ ?ls] exI [of _ ?x1] exI [of _ ?x2] exI [of _ "CSession ?s2"])
       (simp add: begin_trace_def stream_def unwritten_def)
qed

text \<open>A server without TLS, waiting for a connection, accepts one that carries one message, hands it out, and is back.\<close>

lemma serve_one:
  assumes "history server_step server_vis server_session t0 ls h t" and "sv_pc t = SvSelect b" and "\<not> ctx_done b"
    and "inbox b = []" and "outbox b = []" and "listener_open t" and "\<not> has_loader t" and "wf_message m"
  shows "\<exists>ls' x. history server_step server_vis server_session t0 (ls @ ls') (h @ [x]) t \<and>
    tr_conn x = new_conn [encode m] \<and> stream x = [] \<and> unwritten (tr_session x) = [] \<and>
    submitted (concat (map server_vis ls')) = [] \<and> received (concat (map server_vis ls')) = [as_received m]"
proof -
  let ?c = "new_conn [encode m]" and ?H = "history server_step server_vis server_session t0"
  let ?t = "\<lambda>pc. t\<lparr>sv_pc := pc\<rparr>"
  obtain c' where c': "connRead ?c = Some (Inr (as_received m), c')" "conn_avail c' = []" "conn_final c' = EOF"
    using connRead_encode [OF assms(8), of ?c "[]"] by auto
  have "connRead c' = Some (Inl EOF, snd (the (connRead c')))"
    using connRead_decode [of c'] c'(2,3) by (auto simp: decode_first_def cut_error_def)
  then obtain n s where s: "session_run (start_session b c') (replicate n CTau) s" "session_done s" "base s = b" "c_out (s_conn s) = c_out c'"
    using eof_run [of "start_session b c'" "snd (the (connRead c'))"] by (auto simp: start_session_def)
  let ?ks = "[CReceived (as_received m), CHandOut (as_received m), CTau] @ replicate n CTau"
  let ?i = "begin_trace (start_session b ?c)"
  let ?x = "?i\<lparr>tr_labels := tr_labels ?i @ ?ks, tr_session := s\<rparr>"
  have run: "session_run (start_session b ?c) ?ks s"
    by (rule session_run_append [OF s(1) receive_one_run [OF assms(4,3) c'(1)]])
  have "c_out c' = []" using connRead_frame [OF c'(1)] by (simp add: read_frame_def new_conn_def)
  have h1: "?H (ls @ [SlTau]) h (?t (SvAccept b))"
    using hist_step [OF assms(1) l_accept [OF assms(2,3), THEN v_loop]] by (simp add: server_session_def assms(2))
  have h2: "?H ((ls @ [SlTau]) @ [SlAccepted ?c]) (h @ [?i]) (?t (SvSession (start_session b ?c)))"
    using hist_step [OF h1 l_accepted [of "?t (SvAccept b)" b ?c, THEN v_loop]] assms(6,7)
    by (simp add: server_session_def fresh_conn_def new_conn_def)
  have h3: "?H (((ls @ [SlTau]) @ [SlAccepted ?c]) @ map SlConn ?ks) (h @ [?x]) (?t (SvSession s))"
    by (rule history_session_run [where f = "\<lambda>s. ?t (SvSession s)" and g = SlConn, OF run _ _ _ h2])
       (use v_session [of "?t (SvSession _)"] in \<open>auto simp: server_session_def begin_trace_def\<close>)
  have h4: "?H ((((ls @ [SlTau]) @ [SlAccepted ?c]) @ map SlConn ?ks) @ [SlTau]) (h @ [?x]) (?t (SvSelect b))"
    using hist_step [OF h3 l_lost [of "?t (SvSession s)" s, THEN v_loop]] s(2,3) by (simp add: server_session_def)
  have "?t (SvSelect b) = t" using assms(2) by (cases t) simp
  with h4 s(4) \<open>c_out c' = []\<close> unwritten_done [OF s(2)] s(3) assms(5) show ?thesis
    by (intro exI [of _ "[SlTau, SlAccepted ?c] @ map SlConn ?ks @ [SlTau]"] exI [of _ ?x])
       (simp add: labels_append o_def stream_def begin_trace_def)
qed

section \<open>Properties\<close>

text \<open>
  C3. Order and at most once across reconnections: let a client and a server run for their whole lives, in any
  interleaving, over any number of connections that are lost and dialled again, each of them carrying some
  prefix of what was written on it.  When no write or read fails with a transient error and no message had gone
  out completely although its write returned an error, the messages received by the server, over all its
  connections, are a subsequence of those submitted to the client: none is repeated, none is overtaken; and the same
  holds of the messages that the client receives from the server.
\<close>

theorem reconnection_preserves_order:
  assumes "history client_step client_vis client_session (startPolling b c) ls h k"
    and "history server_step server_vis server_session (newServerTcpConnection loader) ls' h' t"
    and "joined h h'" and "\<forall>x \<in> set h \<union> set h'. clean_writes x"
    and "\<forall>m \<in> set (outbox b @ submitted (concat (map client_vis ls)) @ submitted (concat (map server_vis ls'))). wf_message m"
  shows "subseq (received (concat (map server_vis ls'))) (map as_received (outbox b @ submitted (concat (map client_vis ls)))) \<and>
    subseq (received (concat (map client_vis ls))) (map as_received (submitted (concat (map server_vis ls'))))"
proof -
  have ok: "cls.history_ok (startPolling b c) ls h k"
    by (rule cls.history_ok_holds [OF assms(1)]) (auto simp: startPolling_def)
  have ok': "svs.history_ok (newServerTcpConnection loader) ls' h' t"
    by (rule svs.history_ok_holds [OF assms(2)]) (simp add: server_session_def newServerTcpConnection_def)
  have todo: "client_todo (startPolling b c) = outbox b" "server_todo (newServerTcpConnection loader) = []"
    by (simp_all add: startPolling_def server_todo_def newServerTcpConnection_def newBase_queues)
  have "deliverable x" if "x \<in> set h \<union> set h'" for x
    using that ok ok' assms(4,5) unfolding deliverable_def cls.history_ok_def svs.history_ok_def cl.shown_def sv.shown_def todo
    by fastforce
  note d = joined_delivery [OF assms(3)] 
  have w: "prefix (written (concat (map client_vis ls))) (outbox b @ submitted (concat (map client_vis ls)))"
    using cl.conserves_outbound [OF cls.history_runs [OF assms(1)]] by (auto simp: cl.shown_def todo prefix_def)
  have w': "prefix (written (concat (map server_vis ls'))) (submitted (concat (map server_vis ls')))"
    using sv.conserves_outbound [OF svs.history_runs [OF assms(2)]] by (auto simp: sv.shown_def todo prefix_def)
  have "subseq (received (concat (map server_vis ls'))) (map as_received (written (concat (map client_vis ls))))"
    "subseq (received (concat (map client_vis ls))) (map as_received (written (concat (map server_vis ls'))))"
    using d \<open>\<And>x. x \<in> set h \<union> set h' \<Longrightarrow> deliverable x\<close> ok ok'
    by (auto simp: cls.history_ok_def svs.history_ok_def cl.shown_def sv.shown_def)
  with w w' show ?thesis
    by (meson map_mono_prefix prefix_imp_subseq subseq_order.trans)
qed


text \<open>A message with an empty, but not nil, payload.\<close>

definition empty_command :: Message where
  "empty_command = NewMessage (replicate 16 1) 5 (Some []) []"

lemma example_writes:
  "connWrite ((new_conn [])\<lparr>c_wr := [WFail 3 ErrClosed]\<rparr>) example_message =
     (Some ErrClosed, (new_conn [])\<lparr>c_out := take 3 (encode example_message)\<rparr>)"
  "connWrite (new_conn []) example_message = (None, (new_conn [])\<lparr>c_out := encode example_message\<rparr>)"
  "connWrite ((new_conn [])\<lparr>c_wr := [WOk, WOk, WOk, WFail 0 ErrClosed]\<rparr>) empty_command =
     (Some ErrClosed, (new_conn [])\<lparr>c_out := encode empty_command\<rparr>)"
  "connWrite (new_conn []) empty_command = (None, (new_conn [])\<lparr>c_out := encode empty_command\<rparr>)"
  by code_simp+

lemma new_base_idle:
  "outbox newBaseTcpConnection = []" "inbox newBaseTcpConnection = []" "unrecoverableErrors newBaseTcpConnection = []"
  "\<not> ctx_done newBaseTcpConnection"
  by (simp_all add: newBaseTcpConnection_def newUnboundedMessageQueue_def)

lemma open_conn_simps:
  "conn_avail (new_conn []\<lparr>c_out := out, c_wr := ws\<rparr>) = []" "conn_final (new_conn []\<lparr>c_out := out, c_wr := ws\<rparr>) = EOF"
  "conn_avail (new_conn []\<lparr>c_out := out\<rparr>) = []" "conn_final (new_conn []\<lparr>c_out := out\<rparr>) = EOF"
  "conn_avail (new_conn []\<lparr>c_wr := ws\<rparr>) = []" "conn_final (new_conn []\<lparr>c_wr := ws\<rparr>) = EOF"
  "fresh_conn (new_conn bss)" "c_out (new_conn bss) = []" "c_wr (new_conn bss) = []"
  by (simp_all add: new_conn_def conn_avail_def conn_final_def fresh_conn_def)

lemmas redial_new = redial_history [OF new_base_idle(1,3,4) _ open_conn_simps(3,4,7)]
lemmas serve_new = serve_one [where b = newBaseTcpConnection, OF _ _ new_base_idle(4,2,1)]

lemma new_server_waits:
  "history server_step server_vis server_session (newServerTcpConnection loader) [] [] (newServerTcpConnection loader)"
  using hist_start [of server_step server_vis server_session "newServerTcpConnection loader"]
  by (simp add: server_session_def newServerTcpConnection_def)

theorem reconnection_preserves_order_witness:
  "\<exists>ls h k ls' h' t. history client_step client_vis client_session
       (startPolling newBaseTcpConnection ((new_conn [])\<lparr>c_wr := [WFail 3 ErrClosed]\<rparr>)) ls h k \<and> length h = 2 \<and>
     history server_step server_vis server_session (newServerTcpConnection False) ls' h' t \<and> joined h h' \<and>
     received (concat (map server_vis ls')) = [example_message] \<and>
     subseq [example_message] (map as_received (submitted (concat (map client_vis ls))))"
proof -
  let ?c1 = "(new_conn [])\<lparr>c_wr := [WFail 3 ErrClosed]\<rparr>"
  have wf: "wf_message example_message" by simp
  obtain ls x1 x2 k where c: "history client_step client_vis client_session (startPolling newBaseTcpConnection ?c1) ls [x1, x2] k"
      "submitted (concat (map client_vis ls)) = [example_message]" "tr_conn x1 = ?c1" "tr_conn x2 = new_conn []"
      "stream x1 = take 3 (encode example_message)" "stream x2 = encode example_message"
      "written (tr_labels x1) = []" "unwritten (tr_session x1) = [example_message]" "unwritten (tr_session x2) = []"
    using redial_new [OF example_writes(1,2)] by auto
  obtain ls' y where s: "history server_step server_vis server_session (newServerTcpConnection False) ls' [y] (newServerTcpConnection False)"
      "tr_conn y = new_conn [encode example_message]" "stream y = []" "unwritten (tr_session y) = []"
      "submitted (concat (map server_vis ls')) = []" "received (concat (map server_vis ls')) = [example_message]"
    using serve_new [OF new_server_waits _ _ _ wf, of False] by (auto simp: newServerTcpConnection_def)
  have j: "joined [x1, x2] [y]"
    by (rule join_ignored [OF join_accepted [OF join_nil]]) (use c s in \<open>simp_all add: carries_def open_conn_simps\<close>)
  have "take 3 (encode example_message) \<noteq> encode example_message" by code_simp
  then have cw: "\<forall>x \<in> set [x1, x2] \<union> set [y]. clean_writes x"
    using c s by (auto simp: clean_writes_def no_transient_writes_def open_conn_simps)
  have "\<forall>m \<in> set (outbox newBaseTcpConnection @ submitted (concat (map client_vis ls)) @ submitted (concat (map server_vis ls'))).
      wf_message m" using c(2) s(5) wf by (simp add: new_base_idle)
  from reconnection_preserves_order [OF c(1) s(1) j cw this] c(1) s(1,6) j show ?thesis
    by (fastforce simp: new_base_idle)
qed

text \<open>
  C37. Without that proviso a message can be delivered twice: a message with an empty payload that is not nil
  is written with a last call of \<open>Write\<close> for no bytes; when the connection is closed just before this call, the
  message is on the wire, yet its write has failed.  It is put back, written again on the next connection, and
  the server receives it twice, although no error was transient and every message is well formed.
\<close>

theorem reconnection_can_duplicate:
  "\<exists>ls h k ls' h' t. history client_step client_vis client_session
       (startPolling newBaseTcpConnection ((new_conn [])\<lparr>c_wr := [WOk, WOk, WOk, WFail 0 ErrClosed]\<rparr>)) ls h k \<and>
     history server_step server_vis server_session (newServerTcpConnection False) ls' h' t \<and> joined h h' \<and>
     list_all (\<lambda>x. c_out (tr_conn x) = [] \<and> no_transient_writes (c_wr (tr_conn x))) (h @ h') \<and>
     wf_message empty_command \<and> submitted (concat (map client_vis ls)) = [empty_command] \<and>
     received (concat (map server_vis ls')) = [as_received empty_command, as_received empty_command]"
proof -
  let ?c1 = "(new_conn [])\<lparr>c_wr := [WOk, WOk, WOk, WFail 0 ErrClosed]\<rparr>"
  let ?H = "history server_step server_vis server_session (newServerTcpConnection False)"
  have wf: "wf_message empty_command" unfolding empty_command_def by (intro wf_NewMessage) simp_all
  obtain ls x1 x2 k where c: "history client_step client_vis client_session (startPolling newBaseTcpConnection ?c1) ls [x1, x2] k"
      "submitted (concat (map client_vis ls)) = [empty_command]" "tr_conn x1 = ?c1" "tr_conn x2 = new_conn []"
      "stream x1 = encode empty_command" "stream x2 = encode empty_command"
    using redial_new [OF example_writes(3,4)] by auto
  have serve: "\<exists>ls' x. ?H (ls @ ls') (h @ [x]) (newServerTcpConnection False) \<and> tr_conn x = new_conn [encode empty_command] \<and>
      stream x = [] \<and> received (concat (map server_vis ls')) = [as_received empty_command]"
    if "?H ls h (newServerTcpConnection False)" for ls h
    using serve_new [OF that _ _ _ wf] by (auto simp: newServerTcpConnection_def)
  obtain l1 y1 where y1: "?H ([] @ l1) ([] @ [y1]) (newServerTcpConnection False)" "tr_conn y1 = new_conn [encode empty_command]"
      "stream y1 = []" "received (concat (map server_vis l1)) = [as_received empty_command]"
    using serve [OF new_server_waits] by blast
  obtain l2 y2 where y2: "?H (([] @ l1) @ l2) (([] @ [y1]) @ [y2]) (newServerTcpConnection False)"
      "tr_conn y2 = new_conn [encode empty_command]" "stream y2 = []" "received (concat (map server_vis l2)) = [as_received empty_command]"
    using serve [OF y1(1)] by blast
  have "joined [x1, x2] [y1, y2]"
    using c y1 y2 by (auto intro!: joined.intros simp: carries_def open_conn_simps)
  moreover have "list_all (\<lambda>x. c_out (tr_conn x) = [] \<and> no_transient_writes (c_wr (tr_conn x))) ([x1, x2] @ [y1, y2])"
    using c y1 y2 by (auto simp: no_transient_writes_def open_conn_simps)
  moreover have "received (concat (map server_vis (l1 @ l2))) = [as_received empty_command, as_received empty_command]"
    using y1(4) y2(4) by (simp add: labels_append)
  ultimately show ?thesis using c(1,2) y2(1) wf
    by (intro exI [of _ ls] exI [of _ "[x1, x2]"] exI [of _ k] exI [of _ "l1 @ l2"] exI [of _ "[y1, y2]"]
          exI [of _ "newServerTcpConnection False"]) simp
qed


end
