(* ===== verification/Send_Timeout.thy ===== *)
theory Send_Timeout
  imports Service
begin

text \<open>
  \<open>pkg/service/service.go\<close> with time.  The theory \<open>Service\<close> lets the timeout of a send happen at any moment; here a clock runs
  beside the service, a send that enters its \<open>select\<close> gets the deadline of \<open>time.After(controlServiceSendTimeout)\<close>, and the
  timeout is possible from the deadline on.  A timed run without its clock is a run of \<open>Service\<close>, so that everything
  shown there holds here too.
\<close>

section \<open>The clock\<close>

text \<open>In nanoseconds.\<close>

definition controlServiceSendTimeout :: int where "controlServiceSendTimeout = 15 * 1000000000"

record 's timed_world =
  world :: "'s svc_world"
  now :: int
  deadline :: "nat \<Rightarrow> int option"

datatype timed_label = TTick int | TStep svc_label

definition waits :: "'s svc_world \<Rightarrow> nat \<Rightarrow> bool" where
  "waits w tid \<longleftrightarrow> (\<exists>m ch. fmlookup (senders w) tid = Some (SWait m ch))"

text \<open>The deadlines after a step at time \<open>t\<close>: new for a send that begins to wait, none for one that no longer waits.\<close>

definition arm :: "int \<Rightarrow> 's svc_world \<Rightarrow> 's svc_world \<Rightarrow> (nat \<Rightarrow> int option) \<Rightarrow> nat \<Rightarrow> int option" where
  "arm t w w' d tid = (if \<not> waits w' tid then None else if waits w tid then d tid else Some (t + controlServiceSendTimeout))"

fun expired :: "'s timed_world \<Rightarrow> svc_label \<Rightarrow> bool" where
  "expired tw (LTimeout tid) \<longleftrightarrow> (case deadline tw tid of None \<Rightarrow> False | Some t \<Rightarrow> t \<le> now tw)"
| "expired tw _ \<longleftrightarrow> True"

inductive timed_step :: "'s timed_world \<Rightarrow> timed_label \<Rightarrow> 's timed_world \<Rightarrow> bool" where
  t_tick: "0 < d \<Longrightarrow> timed_step tw (TTick d) (tw\<lparr>now := now tw + d\<rparr>)"
| t_step: "svc_step (world tw) l w \<Longrightarrow> expired tw l \<Longrightarrow>
    timed_step tw (TStep l) (tw\<lparr>world := w, deadline := arm (now tw) (world tw) w (deadline tw)\<rparr>)"

inductive_cases timed_stepE: "timed_step tw l tw'"

definition start_timed :: "baseTcpConnection \<Rightarrow> 's \<Rightarrow> int \<Rightarrow> 's timed_world" where
  "start_timed conn hs t = \<lparr>world = start_service conn hs, now = t, deadline = (\<lambda>_. None)\<rparr>"

fun untimed :: "timed_label list \<Rightarrow> svc_label list" where
  "untimed [] = []"
| "untimed (TTick d # ls) = untimed ls"
| "untimed (TStep l # ls) = l # untimed ls"

fun elapsed :: "timed_label list \<Rightarrow> int" where
  "elapsed [] = 0"
| "elapsed (TTick d # ls) = d + elapsed ls"
| "elapsed (TStep l # ls) = elapsed ls"

section \<open>Lemmas\<close>

lemma untimed_append [simp]: "untimed (ls @ ls') = untimed ls @ untimed ls'"
  by (induction ls rule: untimed.induct) auto

lemma elapsed_append [simp]: "elapsed (ls @ ls') = elapsed ls + elapsed ls'"
  by (induction ls rule: elapsed.induct) auto

lemma timed_refines: "runs timed_step tw ls tw' \<Longrightarrow> svc_run (world tw) (untimed ls) (world tw')"
  by (induction rule: runs.induct) (auto intro: svc_run.intros elim!: timed_stepE)

lemma timed_now: "runs timed_step tw ls tw' \<Longrightarrow> now tw' = now tw + elapsed ls"
  by (induction rule: runs.induct) (auto elim!: timed_stepE)

lemma timed_later: "runs timed_step tw ls tw' \<Longrightarrow> 0 \<le> elapsed ls"
  by (induction rule: runs.induct) (auto elim!: timed_stepE)

text \<open>Exactly the waiting sends have a deadline, and none is further away than the timeout.\<close>

definition deadlines_ok :: "'s timed_world \<Rightarrow> bool" where
  "deadlines_ok tw \<longleftrightarrow> (\<forall>tid. (deadline tw tid \<noteq> None \<longleftrightarrow> waits (world tw) tid) \<and>
     (\<forall>t. deadline tw tid = Some t \<longrightarrow> t \<le> now tw + controlServiceSendTimeout))"

lemma deadlines_okD:
  assumes "deadlines_ok tw" and "waits (world tw) tid"
  shows "\<exists>t. deadline tw tid = Some t \<and> t \<le> now tw + controlServiceSendTimeout"
  using assms(2) assms(1) [unfolded deadlines_ok_def, rule_format, of tid] by (cases "deadline tw tid") auto

lemma timed_step_deadlines: "timed_step tw l tw' \<Longrightarrow> deadlines_ok tw \<Longrightarrow> deadlines_ok tw'"
proof (elim timed_stepE)
  fix d
  assume "deadlines_ok tw" and "tw' = tw\<lparr>now := now tw + d\<rparr>" and "0 < d"
  then show "deadlines_ok tw'" by (fastforce simp: deadlines_ok_def)
next
  fix l w
  assume "deadlines_ok tw" and "tw' = tw\<lparr>world := w, deadline := arm (now tw) (world tw) w (deadline tw)\<rparr>"
  then show "deadlines_ok tw'" by (auto simp: deadlines_ok_def arm_def split: if_splits)
qed

lemma timed_runs_deadlines:
  assumes "runs timed_step (start_timed conn hs t) ls tw"
  shows "deadlines_ok tw"
proof -
  have "deadlines_ok (start_timed conn hs t)" by (simp add: deadlines_ok_def start_timed_def start_service_def waits_def)
  from runs_invariant [where I = deadlines_ok, OF assms this timed_step_deadlines] show ?thesis .
qed

text \<open>A call that does not wait yet has no deadline before the end of a full timeout from now.\<close>

lemma fresh_deadline:
  assumes "runs timed_step tw ls tw'" and "deadline tw tid = None"
  shows "(\<forall>t. deadline tw' tid = Some t \<longrightarrow> now tw + controlServiceSendTimeout \<le> t) \<and>
    (TStep (LTimeout tid) \<in> set ls \<longrightarrow> controlServiceSendTimeout \<le> elapsed ls)"
  using assms
proof (induction rule: runs.induct)
  case (runs_snoc s ls t l u)
  note now = timed_now [OF runs_snoc.hyps(1)] and later = timed_later [OF runs_snoc.hyps(1)]
  from runs_snoc.hyps(2) show ?case
  proof cases
    case (t_tick d)
    with runs_snoc.IH runs_snoc.prems show ?thesis by auto
  next
    case (t_step l' w)
    then have "controlServiceSendTimeout \<le> elapsed ls" if "l' = LTimeout tid"
      using that runs_snoc.IH runs_snoc.prems now by (fastforce split: option.splits)
    with t_step runs_snoc.IH runs_snoc.prems now later show ?thesis by (auto simp: arm_def)
  qed
qed simp

lemmas timed_cons = runs_cons [of timed_step] and timed_snoc = runs_snoc [of timed_step]

text \<open>No goroutine but one send has moved, and nothing has arrived.\<close>

definition only_sender :: "nat \<Rightarrow> 's timed_world \<Rightarrow> 's timed_world \<Rightarrow> bool" where
  "only_sender tid tw tw' \<longleftrightarrow> acceptors (world tw') = acceptors (world tw) \<and>
     readQueue (connection (svc (world tw'))) = readQueue (connection (svc (world tw))) \<and>
     fmdrop tid (senders (world tw')) = fmdrop tid (senders (world tw))"

lemma only_sender_trans: "only_sender tid tw tw' \<Longrightarrow> only_sender tid tw' tw'' \<Longrightarrow> only_sender tid tw tw''"
  by (simp add: only_sender_def)

text \<open>From the deadline on a waiting call can time out and return.\<close>

lemma waiting_returns:
  assumes "fmlookup (senders (world tw)) tid = Some (SWait m ch)" and "\<not> panicked (world tw)" and "deadline tw tid = Some t" and "t \<le> now tw"
  shows "\<exists>tw'. runs timed_step tw [TStep (LTimeout tid), TStep (LReturn tid m (Some (timeoutError m)))] tw' \<and> only_sender tid tw tw'"
proof -
  let ?w = "(world tw)\<lparr>senders := fmupd tid (SUnregister m (Some (timeoutError m))) (senders (world tw))\<rparr>"
  let ?tw = "tw\<lparr>world := ?w, deadline := arm (now tw) (world tw) ?w (deadline tw)\<rparr>"
  have "svc_step (world tw) (LTimeout tid) ?w" by (rule st_sender [OF assms(2) snd_timeout [OF assms(1)]])
  then have 1: "timed_step tw (TStep (LTimeout tid)) ?tw" by (rule t_step) (simp add: assms(3,4))
  let ?w' = "?w\<lparr>svc := unregisterAck (svc ?w) m, senders := fmdrop tid (senders ?w)\<rparr>"
  have "svc_step ?w (LReturn tid m (Some (timeoutError m))) ?w'"
    using assms(2) by (intro st_sender snd_return) simp_all
  with t_step [of ?tw] have 2: "timed_step ?tw (TStep (LReturn tid m (Some (timeoutError m)))) (?tw\<lparr>world := ?w', deadline := arm (now ?tw) ?w ?w' (deadline ?tw)\<rparr>)"
    by simp
  have "only_sender tid tw (?tw\<lparr>world := ?w', deadline := arm (now ?tw) ?w ?w' (deadline ?tw)\<rparr>)"
    by (simp add: only_sender_def unregisterAck_def)
  with timed_cons [OF 1 timed_cons [OF 2 runs_nil]] show ?thesis by blast
qed

definition can_return :: "'s timed_world \<Rightarrow> nat \<Rightarrow> Message \<Rightarrow> bool" where
  "can_return tw tid m \<longleftrightarrow> (\<exists>ls tw' r. runs timed_step tw ls tw' \<and> TStep (LReturn tid m r) \<in> set ls \<and>
     only_sender tid tw tw' \<and> elapsed ls \<le> controlServiceSendTimeout)"

lemma can_return_step:
  assumes "timed_step tw (TStep l) tw'" and "only_sender tid tw tw'" and "can_return tw' tid m"
  shows "can_return tw tid m"
proof -
  from assms(3) obtain ls u r where ls: "runs timed_step tw' ls u" "TStep (LReturn tid m r) \<in> set ls" "only_sender tid tw' u"
    "elapsed ls \<le> controlServiceSendTimeout" unfolding can_return_def by blast
  with timed_cons [OF assms(1) ls(1)] only_sender_trans [OF assms(2) ls(3)] show ?thesis unfolding can_return_def
    by (intro exI [of _ "TStep l # ls"] exI [of _ u] exI [of _ r]) simp
qed

lemma can_return_waiting:
  assumes "fmlookup (senders (world tw)) tid = Some (SWait m ch)" and "\<not> panicked (world tw)" and "deadlines_ok tw"
  shows "can_return tw tid m"
proof -
  have "waits (world tw) tid" using assms(1) by (simp add: waits_def)
  with deadlines_okD [OF assms(3)] obtain t where t: "deadline tw tid = Some t" "t \<le> now tw + controlServiceSendTimeout" by blast
  let ?ls = "[TStep (LTimeout tid), TStep (LReturn tid m (Some (timeoutError m)))]"
  show ?thesis
  proof (cases "t \<le> now tw")
    case True
    with waiting_returns [OF assms(1,2) t(1)] obtain tw' where
      "runs timed_step tw ?ls tw'" "only_sender tid tw tw'" by blast
    then show ?thesis unfolding can_return_def
      by (intro exI [of _ ?ls] exI [of _ tw'] exI [of _ "Some (timeoutError m)"]) (simp add: controlServiceSendTimeout_def)
  next
    case False
    let ?d = "t - now tw"
    let ?tw = "tw\<lparr>now := now tw + ?d\<rparr>"
    obtain tw' where r: "runs timed_step ?tw ?ls tw'" and o: "only_sender tid tw tw'"
      unfolding only_sender_def using waiting_returns [of ?tw tid m ch t, unfolded only_sender_def] assms(1,2) t(1) by auto
    have "timed_step tw (TTick ?d) ?tw" by (rule t_tick) (use False in simp)
    from timed_cons [OF this r] o t(2) show ?thesis unfolding can_return_def
      by (intro exI [of _ "TTick ?d # ?ls"] exI [of _ tw'] exI [of _ "Some (timeoutError m)"]) simp
  qed
qed

lemma sender_move:
  assumes "sender_step (world tw) l w" and "\<not> panicked (world tw)" and "expired tw l" and "deadlines_ok tw"
  shows "\<exists>tw'. timed_step tw (TStep l) tw' \<and> world tw' = w \<and> deadlines_ok tw'"
proof -
  let ?tw = "tw\<lparr>world := w, deadline := arm (now tw) (world tw) w (deadline tw)\<rparr>"
  have "timed_step tw (TStep l) ?tw" by (rule t_step [OF st_sender [OF assms(2,1)] assms(3)])
  with timed_step_deadlines [OF this assms(4)] show ?thesis by (intro exI [of _ ?tw]) simp
qed

lemma fresh_channel: "\<exists>ch. fmlookup (ackChans w) ch = None"
proof -
  obtain ch where "ch \<notin> fset (fmdom (ackChans w))" using ex_new_if_finite [of "fset (fmdom (ackChans w))"] by auto
  then show ?thesis by (auto simp: fmlookup_dom_iff)
qed

lemma can_return_written:
  assumes "fmlookup (senders (world tw)) tid = Some (SWrite m ch)" and "\<not> panicked (world tw)" and "deadlines_ok tw"
  shows "can_return tw tid m"
proof -
  from sender_move [OF snd_write [OF assms(1)] assms(2) _ assms(3)] obtain tw' where
    tw': "timed_step tw (TStep LTau) tw'" "deadlines_ok tw'" "fmlookup (senders (world tw')) tid = Some (SWait m ch)" "\<not> panicked (world tw')"
    "only_sender tid tw tw'"
    using assms(2) by (auto simp: only_sender_def registerAck_def WriteMessage_def)
  show ?thesis by (rule can_return_step [OF tw'(1,5) can_return_waiting [OF tw'(3,4,2)]])
qed

text \<open>Wherever it stands, a call can return by its own steps.\<close>

lemma every_call_can_return:
  assumes "fmlookup (senders (world tw)) tid = Some pc" and "\<not> panicked (world tw)" and "deadlines_ok tw"
  shows "can_return tw tid (sender_msg pc)"
proof (cases pc)
  case (SRegister m)
  obtain ch where "fmlookup (ackChans (world tw)) ch = None" using fresh_channel by blast
  from sender_move [OF snd_register [OF assms(1) [unfolded SRegister] this] assms(2) _ assms(3)] obtain tw' where
    tw': "timed_step tw (TStep LTau) tw'" "deadlines_ok tw'" "fmlookup (senders (world tw')) tid = Some (SWrite m ch)" "\<not> panicked (world tw')"
    "only_sender tid tw tw'"
    using assms(2) by (auto simp: only_sender_def registerAck_def WriteMessage_def)
  show ?thesis using can_return_step [OF tw'(1,5) can_return_written [OF tw'(3,4,2)]] SRegister by simp
next
  case (SUnregister m r)
  from sender_move [OF snd_return [OF assms(1) [unfolded SUnregister]] assms(2) _ assms(3)] obtain tw' where
    tw': "timed_step tw (TStep (LReturn tid m r)) tw'" "only_sender tid tw tw'" by (auto simp: only_sender_def unregisterAck_def)
  from timed_cons [OF tw'(1) runs_nil] tw'(2) show ?thesis unfolding can_return_def SUnregister
    by (intro exI [of _ "[TStep (LReturn tid m r)]"] exI [of _ tw'] exI [of _ r]) (auto simp: controlServiceSendTimeout_def)
qed (use assms can_return_waiting can_return_written in auto)

subsection \<open>The timeout error\<close>

text \<open>A call that is about to return the timeout error has been sent it as an ack, or has timed out.\<close>

lemma result_origin:
  assumes "svc_step w l w'" and "ack_inv A w" and "fmlookup (senders w') tid = Some (SUnregister m r)"
  shows "fmlookup (senders w) tid = Some (SUnregister m r) \<or> (UUID (header m), r) \<in> A \<or> r = Some ContextCanceled \<or> l = LTimeout tid"
proof -
  have closed: False
    if "fmlookup (senders w) t = Some (SWait m ch)" "fmlookup (ackChans w) ch = Some c" "buffered c = []" "chan_closed c" for t m ch c
    using assms(2) that unfolding ack_inv_def sent_before_closed_def holds_def by (metis sender_chan.simps(2))
  have acked: "(UUID (header m), e) \<in> A"
    if "fmlookup (senders w) t = Some (SWait m ch)" "fmlookup (ackChans w) ch = Some c" "buffered c = e # es" for t m ch c e es
    using ack_inv_senderD [OF assms(2) that(1)] ack_inv_chanD [OF assms(2) that(2), of e] that(2,3) by (auto simp: chan_at_def)
  from assms(1,3) show ?thesis by (elim svc_elims) (auto split: if_splits dest: closed acked)
qed

definition timed_out :: "svc_label list \<Rightarrow> timed_label list \<Rightarrow> nat \<Rightarrow> Message \<Rightarrow> bool" where
  "timed_out before ls tid m \<longleftrightarrow> (UUID (header m), Some (timeoutError m)) \<in> set (accepted_acks (before @ untimed ls)) \<or>
     TStep (LTimeout tid) \<in> set ls"

lemma timed_out_snoc: "timed_out before ls tid m \<Longrightarrow> timed_out before (ls @ [l]) tid m"
  by (cases l) (auto simp: timed_out_def simp flip: append_assoc simp del: accepted_acks.simps)

lemma timeout_result:
  assumes "runs timed_step tw ls tw'" and "svc_run (start_service conn hs) before (world tw)" and "fmlookup (senders (world tw)) tid = None"
  shows "(\<forall>m. fmlookup (senders (world tw')) tid = Some (SUnregister m (Some (timeoutError m))) \<longrightarrow> timed_out before ls tid m) \<and>
    (\<forall>m. TStep (LReturn tid m (Some (timeoutError m))) \<in> set ls \<longrightarrow> timed_out before ls tid m)"
  using assms
proof (induction rule: runs.induct)
  case (runs_snoc s ls t l u)
  from runs_snoc.hyps(2) show ?case
  proof cases
    case (t_tick d)
    with runs_snoc.IH runs_snoc.prems timed_out_snoc show ?thesis by auto
  next
    case (t_step l' w)
    have "svc_run (start_service conn hs) (before @ untimed ls) (world t)"
      by (rule svc_run_append [OF timed_refines [OF runs_snoc.hyps(1)] runs_snoc.prems(1)])
    note origin = result_origin [OF t_step(3) ack_inv_run [OF this refl]]
    have "timed_out before (ls @ [l]) tid m" if "fmlookup (senders w) tid = Some (SUnregister m (Some (timeoutError m)))" for m
      using origin [OF that] runs_snoc.IH [OF runs_snoc.prems] timed_out_snoc [of before ls tid m l] t_step(1)
      by (auto simp: timed_out_def timeoutError_def)
    moreover have "fmlookup (senders (world t)) tid = Some (SUnregister m r)" if "l' = LReturn tid m r" for m r
      using t_step(3) that by (auto elim!: svc_elims)
    ultimately show ?thesis using t_step(1,2) runs_snoc.IH [OF runs_snoc.prems] timed_out_snoc [of before ls tid _ l] by auto
  qed
qed simp

subsection \<open>Every run of the service has a timing\<close>

lemma timeout_waits: "svc_step w (LTimeout tid) w' \<Longrightarrow> waits w tid"
  by (elim svc_elims) (auto simp: waits_def)

lemma timed_complete:
  assumes "svc_run w0 ls w" and "w0 = start_service conn hs"
  shows "\<exists>tls tw. runs timed_step (start_timed conn hs t) tls tw \<and> untimed tls = ls \<and> world tw = w"
  using assms
proof (induction rule: svc_run.induct)
  case (svc_nil w)
  have "untimed [] = [] \<and> world (start_timed conn hs t) = w" using svc_nil by (simp add: start_timed_def)
  with runs_nil [of timed_step "start_timed conn hs t"] show ?case by blast
next
  case (svc_snoc w ls w' l w'')
  from svc_snoc.IH [OF svc_snoc.prems] obtain tls tw where
    tw: "runs timed_step (start_timed conn hs t) tls tw" "untimed tls = ls" "world tw = w'" by blast
  let ?tw = "tw\<lparr>now := now tw + controlServiceSendTimeout\<rparr>"
  have run: "runs timed_step (start_timed conn hs t) (tls @ [TTick controlServiceSendTimeout]) ?tw"
    by (rule timed_snoc [OF tw(1) t_tick]) (simp add: controlServiceSendTimeout_def)
  have exp: "expired ?tw l"
  proof (cases "\<exists>tid. l = LTimeout tid")
    case True
    then obtain tid where l: "l = LTimeout tid" by blast
    from svc_snoc.hyps(2) have "waits (world tw) tid" unfolding tw(3) l by (rule timeout_waits)
    with deadlines_okD [OF timed_runs_deadlines [OF tw(1)]] obtain u where
      "deadline tw tid = Some u" "u \<le> now tw + controlServiceSendTimeout" by blast
    with l show ?thesis by simp
  qed (cases l; simp)
  have "svc_step (world ?tw) l w''" using svc_snoc.hyps(2) tw(3) by simp
  note run' = timed_snoc [OF run t_step [OF this exp]]
  show ?case
  proof (intro exI conjI)
    show "untimed ((tls @ [TTick controlServiceSendTimeout]) @ [TStep l]) = ls @ [l]" using tw(2) by simp
    show "runs timed_step (start_timed conn hs t) ((tls @ [TTick controlServiceSendTimeout]) @ [TStep l])
        (?tw\<lparr>world := w'', deadline := arm (now ?tw) (world ?tw) w'' (deadline ?tw)\<rparr>)" by (rule run')
  qed simp
qed

section \<open>An example: a peer that does not answer\<close>

definition silent_peer :: "timed_label list \<Rightarrow> bool" where
  "silent_peer ls \<longleftrightarrow> accepted_acks (untimed ls) = [] \<and> TStep (LReturn 0 example_request (Some (timeoutError example_request))) \<in> set ls"

lemma example_waiting:
  "\<exists>ls tw. runs timed_step (start_timed newBaseTcpConnection () 0) ls tw \<and> accepted_acks (untimed ls) = [] \<and>
     fmlookup (senders (world tw)) 0 = Some (SWait example_request 0) \<and> \<not> panicked (world tw)"
proof -
  obtain conn where "svc_run (start_service newBaseTcpConnection ()) [LCall 0 example_request, LTau, LTau] (waiting_world conn)"
    using example_call by blast
  from timed_complete [OF this refl, of 0] obtain ls tw where "runs timed_step (start_timed newBaseTcpConnection () 0) ls tw"
    "untimed ls = [LCall 0 example_request, LTau, LTau]" "world tw = waiting_world conn" by blast
  then show ?thesis by (intro exI [of _ ls] exI [of _ tw]) (simp add: waiting_world_def)
qed

lemma example_silent_peer: "\<exists>ls tw. runs timed_step (start_timed newBaseTcpConnection () 0) ls tw \<and> silent_peer ls"
proof -
  obtain ls tw where tw: "runs timed_step (start_timed newBaseTcpConnection () 0) ls tw" "accepted_acks (untimed ls) = []"
    "fmlookup (senders (world tw)) 0 = Some (SWait example_request 0)" "\<not> panicked (world tw)" using example_waiting by blast
  have "deadline tw 0 \<noteq> None" using timed_runs_deadlines [OF tw(1)] tw(3) unfolding deadlines_ok_def waits_def by blast
  then obtain t where t: "deadline tw 0 = Some t" by blast
  let ?d = "max 1 (t - now tw)"
  let ?tw = "tw\<lparr>now := now tw + ?d\<rparr>"
  have le: "t \<le> now tw + ?d" by linarith
  obtain tw' where tw': "runs timed_step ?tw [TStep (LTimeout 0), TStep (LReturn 0 example_request (Some (timeoutError example_request)))] tw'"
    using waiting_returns [of ?tw 0 example_request 0 t] tw(3,4) t le by auto
  have tick: "timed_step tw (TTick ?d) ?tw" by (rule t_tick) simp
  have "accepted_acks (xs @ [LTimeout 0, LReturn 0 m r]) = accepted_acks xs" for xs m r
    by (induction xs rule: accepted_acks.induct) auto
  with runs_append [of timed_step, OF timed_cons [OF tick tw'] tw(1)] tw(2) show ?thesis by (intro exI conjI) (assumption, simp add: silent_peer_def)
qed

section \<open>Property\<close>

text \<open>
  C7. The timeout of a send is fifteen seconds, neither less nor more.  A timed run is a run of the untimed service.  A call
  made after a state returns the timeout error only if an accepted ack carried that very error or at least
  \<open>controlServiceSendTimeout\<close> has passed since the state.  And a call in progress in any state that is reached
  can return with no more than \<open>controlServiceSendTimeout\<close> passing, by steps of its own: neither the peer, nor the connection, nor
  another goroutine has to do anything.
\<close>

theorem send_times_out_after_fifteen_seconds:
  assumes "runs timed_step (start_timed conn hs t) ls tw"
  shows "svc_run (start_service conn hs) (untimed ls) (world tw) \<and>
    (\<forall>tid m ls' tw'. fmlookup (senders (world tw)) tid = None \<and> runs timed_step tw ls' tw' \<and>
       TStep (LReturn tid m (Some (timeoutError m))) \<in> set ls' \<longrightarrow>
       (UUID (header m), Some (timeoutError m)) \<in> set (accepted_acks (untimed (ls @ ls'))) \<or> controlServiceSendTimeout \<le> elapsed ls') \<and>
    (\<forall>tid pc. fmlookup (senders (world tw)) tid = Some pc \<and> \<not> panicked (world tw) \<longrightarrow>
       (\<exists>ls' tw' r. runs timed_step tw ls' tw' \<and> TStep (LReturn tid (sender_msg pc) r) \<in> set ls' \<and>
          only_sender tid tw tw' \<and> elapsed ls' \<le> controlServiceSendTimeout))"
proof (intro conjI allI impI)
  show run: "svc_run (start_service conn hs) (untimed ls) (world tw)"
    using timed_refines [OF assms] by (simp add: start_timed_def)
  note ok = timed_runs_deadlines [OF assms]
  fix tid m ls' tw'
  assume "fmlookup (senders (world tw)) tid = None \<and> runs timed_step tw ls' tw' \<and> TStep (LReturn tid m (Some (timeoutError m))) \<in> set ls'"
  then have new: "fmlookup (senders (world tw)) tid = None" "runs timed_step tw ls' tw'" "TStep (LReturn tid m (Some (timeoutError m))) \<in> set ls'"
    by auto
  have "deadline tw tid = None" using ok new(1) unfolding deadlines_ok_def waits_def by (metis option.distinct(1))
  from fresh_deadline [OF new(2) this] timeout_result [OF new(2) run new(1)] new(3)
  show "(UUID (header m), Some (timeoutError m)) \<in> set (accepted_acks (untimed (ls @ ls'))) \<or> controlServiceSendTimeout \<le> elapsed ls'"
    by (auto simp: timed_out_def)
qed (use every_call_can_return timed_runs_deadlines [OF assms] in \<open>auto simp: can_return_def\<close>)

theorem send_times_out_after_fifteen_seconds_witness:
  "(\<exists>ls tw. runs timed_step (start_timed newBaseTcpConnection () 0) ls tw \<and> silent_peer ls \<and> 15000000000 \<le> elapsed ls) \<and>
   (\<exists>ls tw ls' tw' r. runs timed_step (start_timed newBaseTcpConnection () 0) ls tw \<and> runs timed_step tw ls' tw' \<and>
      TStep (LReturn 0 example_request r) \<in> set ls' \<and> elapsed ls' \<le> 15000000000)"
proof
  let ?start = "start_timed newBaseTcpConnection () 0"
  obtain ls tw where ls: "runs timed_step ?start ls tw" "silent_peer ls" using example_silent_peer by blast
  have "fmlookup (senders (world ?start)) 0 = None" by (simp add: start_timed_def start_service_def)
  with send_times_out_after_fifteen_seconds [OF runs_nil, of newBaseTcpConnection "()" 0] ls
  have "(UUID (header example_request), Some (timeoutError example_request)) \<in> set (accepted_acks (untimed ([] @ ls))) \<or>
      controlServiceSendTimeout \<le> elapsed ls" unfolding silent_peer_def by blast
  with ls(2) have "controlServiceSendTimeout \<le> elapsed ls" by (simp add: silent_peer_def)
  with ls show "\<exists>ls tw. runs timed_step ?start ls tw \<and> silent_peer ls \<and> 15000000000 \<le> elapsed ls"
    by (auto simp: controlServiceSendTimeout_def)
  obtain ls tw where tw: "runs timed_step ?start ls tw" "fmlookup (senders (world tw)) 0 = Some (SWait example_request 0)"
    "\<not> panicked (world tw)" using example_waiting by blast
  with send_times_out_after_fifteen_seconds [OF tw(1)] obtain ls' tw' r where "runs timed_step tw ls' tw'"
    "TStep (LReturn 0 (sender_msg (SWait example_request 0)) r) \<in> set ls'" "elapsed ls' \<le> controlServiceSendTimeout" by blast
  with tw(1) show "\<exists>ls tw ls' tw' r. runs timed_step ?start ls tw \<and> runs timed_step tw ls' tw' \<and>
      TStep (LReturn 0 example_request r) \<in> set ls' \<and> elapsed ls' \<le> 15000000000"
    by (intro exI [of _ ls] exI [of _ tw] exI [of _ ls'] exI [of _ tw'] exI [of _ r]) (simp add: controlServiceSendTimeout_def)
qed

end
