(* ===== verification/Caching_Concurrency.thy ===== *)
theory Caching_Concurrency
  imports Handlers
begin

text \<open>
  \<open>pkg/service/service_caching_wrapper.go\<close> with concurrent senders and payloads behind pointers.  \<open>Handlers\<close> has one call of
  \<open>SendAndWaitForAck\<close> after the other and compares values; here a call is the sequence of its steps, of which the ones of
  other calls may come in between: the lookup under the read lock, the comparison, the send through the wrapped service, the update under the
  write lock.  The map keeps the payload as the caller passed it, so that a payload passed as a pointer still belongs to the caller.
\<close>

section \<open>Payloads and calls\<close>

text \<open>
  What an \<open>encoding.BinaryMarshaler\<close> may hold: nothing, a value, or a pointer to one.  \<open>reflect.DeepEqual\<close> compares two values, or what two
  pointers point to, and tells a value from a pointer.
\<close>

datatype 'p iface = NilPayload | ByValue 'p | ByPointer nat

fun deepEqual :: "(nat \<Rightarrow> 'p) \<Rightarrow> 'p iface \<Rightarrow> 'p iface \<Rightarrow> bool" where
  "deepEqual h NilPayload NilPayload \<longleftrightarrow> True"
| "deepEqual h (ByValue v) (ByValue w) \<longleftrightarrow> v = w"
| "deepEqual h (ByPointer a) (ByPointer b) \<longleftrightarrow> a = b \<or> h a = h b"
| "deepEqual h _ _ \<longleftrightarrow> False"

text \<open>What the wrapped service marshals.\<close>

fun pointee :: "(nat \<Rightarrow> 'p) \<Rightarrow> 'p iface \<Rightarrow> 'p option" where
  "pointee h NilPayload = None"
| "pointee h (ByValue v) = Some v"
| "pointee h (ByPointer a) = Some (h a)"

datatype 'p caching_pc =
    Lookup byte "'p iface"
  | Compare byte "'p iface" "'p iface option"
  | Forward byte "'p iface"
  | StoreSent byte "'p iface"

fun pc_opcode :: "'p caching_pc \<Rightarrow> byte" where
  "pc_opcode (Lookup opc p) = opc"
| "pc_opcode (Compare opc p q) = opc"
| "pc_opcode (Forward opc p) = opc"
| "pc_opcode (StoreSent opc p) = opc"

record 'p caching_system =
  sent :: "(byte, 'p iface) fmap"
  heap :: "nat \<Rightarrow> 'p"
  sends :: "(nat, 'p caching_pc) fmap"

datatype 'p caching_label =
    CTau
  | CCall nat byte "'p iface"
  | CSuppressed nat byte "'p iface"
  | CForward nat byte "'p iface" "'p option" "go_error option"
  | CMutate nat 'p

fun hit :: "(nat \<Rightarrow> 'p) \<Rightarrow> 'p iface option \<Rightarrow> 'p iface \<Rightarrow> bool" where
  "hit h None p \<longleftrightarrow> False"
| "hit h (Some q) p \<longleftrightarrow> deepEqual h q p"

text \<open>The wrapped service returns any error or none; \<open>c_mutate\<close> is the caller's.\<close>

inductive caching_step :: "'p caching_system \<Rightarrow> 'p caching_label \<Rightarrow> 'p caching_system \<Rightarrow> bool" where
  c_call: "fmlookup (sends s) tid = None \<Longrightarrow>
    caching_step s (CCall tid opc p) (s\<lparr>sends := fmupd tid (Lookup opc p) (sends s)\<rparr>)"
| c_lookup: "fmlookup (sends s) tid = Some (Lookup opc p) \<Longrightarrow>
    caching_step s CTau (s\<lparr>sends := fmupd tid (Compare opc p (fmlookup (sent s) opc)) (sends s)\<rparr>)"
| c_hit: "fmlookup (sends s) tid = Some (Compare opc p q) \<Longrightarrow> hit (heap s) q p \<Longrightarrow>
    caching_step s (CSuppressed tid opc p) (s\<lparr>sends := fmdrop tid (sends s)\<rparr>)"
| c_miss: "fmlookup (sends s) tid = Some (Compare opc p q) \<Longrightarrow> \<not> hit (heap s) q p \<Longrightarrow>
    caching_step s CTau (s\<lparr>sends := fmupd tid (Forward opc p) (sends s)\<rparr>)"
| c_failed: "fmlookup (sends s) tid = Some (Forward opc p) \<Longrightarrow>
    caching_step s (CForward tid opc p (pointee (heap s) p) (Some err)) (s\<lparr>sends := fmdrop tid (sends s)\<rparr>)"
| c_acked: "fmlookup (sends s) tid = Some (Forward opc p) \<Longrightarrow>
    caching_step s (CForward tid opc p (pointee (heap s) p) None) (s\<lparr>sends := fmupd tid (StoreSent opc p) (sends s)\<rparr>)"
| c_store: "fmlookup (sends s) tid = Some (StoreSent opc p) \<Longrightarrow>
    caching_step s CTau (s\<lparr>sent := fmupd opc p (sent s), sends := fmdrop tid (sends s)\<rparr>)"
| c_mutate: "caching_step s (CMutate a v) (s\<lparr>heap := (heap s)(a := v)\<rparr>)"

inductive_cases caching_stepE: "caching_step s l t"

definition start_caching :: "(nat \<Rightarrow> 'p) \<Rightarrow> 'p caching_system" where
  "start_caching h = \<lparr>sent = fmempty, heap = h, sends = fmempty\<rparr>"

lemmas caching_cons = runs_cons [of caching_step] and caching_snoc = runs_snoc [of caching_step]

section \<open>The sequential calls are runs\<close>

text \<open>
  A call of \<open>cachingService_SendAndWaitForAck\<close> with a value, with nothing in between, is a run of its steps that
  leaves the same map and forwards the message in the same cases.
\<close>

definition by_value :: "'p option \<Rightarrow> 'p iface" where
  "by_value v = (case v of None \<Rightarrow> NilPayload | Some v \<Rightarrow> ByValue v)"

definition same_cache :: "(byte, 'p option) fmap \<Rightarrow> (byte, 'p iface) fmap \<Rightarrow> bool" where
  "same_cache m m' \<longleftrightarrow> (\<forall>opc. fmlookup m' opc = map_option by_value (fmlookup m opc))"

lemma deepEqual_by_value [simp]: "deepEqual h (by_value v) (by_value w) \<longleftrightarrow> v = w"
  by (cases v; cases w) (auto simp: by_value_def)

lemma pointee_by_value [simp]: "pointee h (by_value v) = v"
  by (cases v) (auto simp: by_value_def)

lemma hit_by_value: "same_cache m m' \<Longrightarrow> hit h (fmlookup m' opc) (by_value v) \<longleftrightarrow> fmlookup m opc = Some v"
  by (cases "fmlookup m opc") (auto simp: same_cache_def)

lemma cachingService_run:
  assumes "cachingService_SendAndWaitForAck c opc p w = (err, c', w')" and "same_cache (sentMessages c) (sent s)" and "fmlookup (sends s) tid = None"
  defines "v \<equiv> map_option marshaler_value p"
  shows "\<exists>ls t. runs caching_step s (CCall tid opc (by_value v) # ls) t \<and> same_cache (sentMessages c') (sent t) \<and>
    (if fmlookup (sentMessages c) opc = Some v then CSuppressed tid opc (by_value v) \<in> set ls
     else CForward tid opc (by_value v) v err \<in> set ls)"
proof -
  let ?at = "\<lambda>pc. s\<lparr>sends := fmupd tid pc (sends s)\<rparr>" and ?p = "by_value v"
  let ?q = "fmlookup (sent s) opc"
  have call: "caching_step s (CCall tid opc ?p) (?at (Lookup opc ?p))" using assms(3) by (rule c_call)
  have look: "caching_step (?at (Lookup opc ?p)) CTau (?at (Compare opc ?p ?q))"
    using c_lookup [of "?at (Lookup opc ?p)" tid opc ?p] by simp
  have drop: "fmdrop tid (sends s) = sends s" using assms(3) by (intro fmap_ext) auto
  have miss: "caching_step (?at (Compare opc ?p ?q)) CTau (?at (Forward opc ?p))" if "fmlookup (sentMessages c) opc \<noteq> Some v"
    using c_miss [of "?at (Compare opc ?p ?q)" tid opc ?p ?q] that by (simp add: hit_by_value [OF assms(2)])
  note cs = caching_send_cases [OF assms(1), folded v_def]
  consider (hit) "fmlookup (sentMessages c) opc = Some v" | (failed) e where "fmlookup (sentMessages c) opc \<noteq> Some v" "err = Some e"
    | (acked) "fmlookup (sentMessages c) opc \<noteq> Some v" "err = None" by fastforce
  then show ?thesis
  proof cases
    case hit
    then have "caching_step (?at (Compare opc ?p ?q)) (CSuppressed tid opc ?p) s"
      using c_hit [of "?at (Compare opc ?p ?q)" tid opc ?p ?q] by (simp add: hit_by_value [OF assms(2)] drop)
    from caching_cons [OF call caching_cons [OF look caching_cons [OF this runs_nil]]] hit cs assms(2) show ?thesis
      by (intro exI [of _ "[CTau, CSuppressed tid opc ?p]"] exI [of _ s]) simp
  next
    case (failed e)
    have "caching_step (?at (Forward opc ?p)) (CForward tid opc ?p v err) s"
      using c_failed [of "?at (Forward opc ?p)" tid opc ?p e] failed(2) by (simp add: drop)
    from caching_cons [OF call caching_cons [OF look caching_cons [OF miss [OF failed(1)] caching_cons [OF this runs_nil]]]] failed cs assms(2)
    show ?thesis by (intro exI [of _ "[CTau, CTau, CForward tid opc ?p v err]"] exI [of _ s]) simp
  next
    case acked
    let ?t = "s\<lparr>sent := fmupd opc ?p (sent s)\<rparr>"
    have "caching_step (?at (Forward opc ?p)) (CForward tid opc ?p v err) (?at (StoreSent opc ?p))"
      using c_acked [of "?at (Forward opc ?p)" tid opc ?p] acked(2) by simp
    moreover have "caching_step (?at (StoreSent opc ?p)) CTau ?t" using c_store [of "?at (StoreSent opc ?p)" tid opc ?p] by (simp add: drop)
    moreover have "same_cache (sentMessages c') (sent ?t)" using acked cs assms(2) by (auto simp: same_cache_def)
    ultimately show ?thesis
      using caching_cons [OF call caching_cons [OF look caching_cons [OF miss [OF acked(1)] caching_cons [OF _ caching_cons [OF _ runs_nil]]]]] acked
      by (intro exI [of _ "[CTau, CTau, CForward tid opc ?p v err, CTau]"] exI [of _ ?t]) simp
  qed
qed

section \<open>What the map knows\<close>

text \<open>While no payload is changed, the map and the calls on their way to it hold payloads that were acked.\<close>

definition forwarded_ok :: "'p caching_label list \<Rightarrow> byte \<Rightarrow> 'p iface \<Rightarrow> bool" where
  "forwarded_ok ls opc q \<longleftrightarrow> (\<exists>tid v. CForward tid opc q v None \<in> set ls)"

fun pc_known :: "'p caching_label list \<Rightarrow> 'p caching_pc \<Rightarrow> bool" where
  "pc_known ls (Compare opc p (Some q)) \<longleftrightarrow> forwarded_ok ls opc q"
| "pc_known ls (StoreSent opc p) \<longleftrightarrow> forwarded_ok ls opc p"
| "pc_known ls _ \<longleftrightarrow> True"

definition cache_known :: "'p caching_label list \<Rightarrow> 'p caching_system \<Rightarrow> bool" where
  "cache_known ls s \<longleftrightarrow> (\<forall>opc q. fmlookup (sent s) opc = Some q \<longrightarrow> forwarded_ok ls opc q) \<and>
     (\<forall>tid pc. fmlookup (sends s) tid = Some pc \<longrightarrow> pc_known ls pc)"

lemma forwarded_ok_mono: "forwarded_ok ls opc q \<Longrightarrow> forwarded_ok (ls @ [l]) opc q"
  by (auto simp: forwarded_ok_def)

lemma forwarded_ok_new [simp]: "forwarded_ok (ls @ [CForward tid opc p v None]) opc p"
  by (auto simp: forwarded_ok_def)

lemma pc_known_mono: "pc_known ls pc \<Longrightarrow> pc_known (ls @ [l]) pc"
  by (induction ls pc rule: pc_known.induct) (auto intro: forwarded_ok_mono)

lemma pc_known_Compare: "pc_known ls (Compare opc p q) \<longleftrightarrow> (\<forall>r. q = Some r \<longrightarrow> forwarded_ok ls opc r)"
  by (cases q) auto

lemma sent_origin:
  "caching_step s l t \<Longrightarrow> fmlookup (sent t) opc = Some q \<Longrightarrow>
     fmlookup (sent s) opc = Some q \<or> (\<exists>tid. fmlookup (sends s) tid = Some (StoreSent opc q))"
  by (elim caching_stepE) (auto split: if_splits)

lemma pc_origin:
  assumes "caching_step s l t" and "fmlookup (sends t) tid = Some pc"
  shows "fmlookup (sends s) tid = Some pc \<or> (\<exists>opc p. pc = Lookup opc p \<or> pc = Forward opc p) \<or>
    (\<exists>opc p. pc = Compare opc p (fmlookup (sent s) opc)) \<or> (\<exists>opc p v. pc = StoreSent opc p \<and> l = CForward tid opc p v None)"
  using assms by (elim caching_stepE) (auto split: if_splits)

lemma cache_known_run: "runs caching_step s ls t \<Longrightarrow> s = start_caching h \<Longrightarrow> cache_known ls t"
proof (induction rule: runs.induct)
  case (runs_nil s)
  then show ?case by (simp add: cache_known_def start_caching_def)
next
  case (runs_snoc s ls t l u)
  note known = runs_snoc.IH [OF runs_snoc.prems, unfolded cache_known_def]
  have "forwarded_ok (ls @ [l]) opc q" if "fmlookup (sent u) opc = Some q" for opc q
    using sent_origin [OF runs_snoc.hyps(2) that] known forwarded_ok_mono by fastforce
  moreover have "pc_known (ls @ [l]) pc" if "fmlookup (sends u) tid = Some pc" for tid pc
    using pc_origin [OF runs_snoc.hyps(2) that] known pc_known_mono [of ls pc l] forwarded_ok_mono [of ls _ _ l]
    by (auto simp: pc_known_Compare)
  ultimately show ?case by (simp add: cache_known_def)
qed

section \<open>Calls with one opcode, one after the other\<close>

text \<open>Calls with different opcodes may overlap; a call begins only when no other with its opcode is running, and payloads are not changed.\<close>

fun admissible :: "'p caching_system \<Rightarrow> 'p caching_label \<Rightarrow> bool" where
  "admissible s (CCall tid opc p) \<longleftrightarrow> opc \<notin> pc_opcode ` fmran' (sends s)"
| "admissible s (CMutate a v) \<longleftrightarrow> False"
| "admissible s _ \<longleftrightarrow> True"

definition serial_step :: "'p caching_system \<Rightarrow> 'p caching_label \<Rightarrow> 'p caching_system \<Rightarrow> bool" where
  "serial_step s l t \<longleftrightarrow> caching_step s l t \<and> admissible s l"

text \<open>The last payload acked with an opcode.\<close>

fun last_forwarded :: "byte \<Rightarrow> 'p caching_label list \<Rightarrow> 'p iface option \<Rightarrow> 'p iface option" where
  "last_forwarded opc [] r = r"
| "last_forwarded opc (CForward tid opc' p v None # ls) r = last_forwarded opc ls (if opc' = opc then Some p else r)"
| "last_forwarded opc (_ # ls) r = last_forwarded opc ls r"

lemma last_forwarded_append [simp]: "last_forwarded opc (ls @ ls') r = last_forwarded opc ls' (last_forwarded opc ls r)"
  by (induction opc ls r rule: last_forwarded.induct) auto

fun pc_serial :: "'p caching_label list \<Rightarrow> 'p caching_system \<Rightarrow> 'p caching_pc \<Rightarrow> bool" where
  "pc_serial ls s (Lookup opc p) \<longleftrightarrow> fmlookup (sent s) opc = last_forwarded opc ls None"
| "pc_serial ls s (Compare opc p q) \<longleftrightarrow> fmlookup (sent s) opc = last_forwarded opc ls None \<and> q = fmlookup (sent s) opc"
| "pc_serial ls s (Forward opc p) \<longleftrightarrow> fmlookup (sent s) opc = last_forwarded opc ls None \<and> \<not> hit (heap s) (fmlookup (sent s) opc) p"
| "pc_serial ls s (StoreSent opc p) \<longleftrightarrow> last_forwarded opc ls None = Some p"

definition serial_ok :: "'p caching_label list \<Rightarrow> 'p caching_system \<Rightarrow> bool" where
  "serial_ok ls s \<longleftrightarrow> (\<forall>opc. (\<forall>tid pc. fmlookup (sends s) tid = Some pc \<longrightarrow> pc_opcode pc \<noteq> opc) \<longrightarrow>
       fmlookup (sent s) opc = last_forwarded opc ls None) \<and>
     (\<forall>tid pc. fmlookup (sends s) tid = Some pc \<longrightarrow> pc_serial ls s pc) \<and>
     (\<forall>tid tid' pc pc'. fmlookup (sends s) tid = Some pc \<longrightarrow> fmlookup (sends s) tid' = Some pc' \<longrightarrow> pc_opcode pc = pc_opcode pc' \<longrightarrow> tid = tid')"

text \<open>A step is of one call with one opcode, and leaves the rest alone.\<close>

definition moves :: "nat \<Rightarrow> byte \<Rightarrow> 'p caching_label list \<Rightarrow> 'p caching_system \<Rightarrow> 'p caching_label \<Rightarrow> 'p caching_system \<Rightarrow> bool" where
  "moves tid opc ls s l t \<longleftrightarrow> heap t = heap s \<and> (\<forall>tid'. tid' \<noteq> tid \<longrightarrow> fmlookup (sends t) tid' = fmlookup (sends s) tid') \<and>
     (\<forall>o'. o' \<noteq> opc \<longrightarrow> fmlookup (sent t) o' = fmlookup (sent s) o' \<and> last_forwarded o' (ls @ [l]) None = last_forwarded o' ls None) \<and>
     (case fmlookup (sends s) tid of Some pc \<Rightarrow> pc_opcode pc = opc
      | None \<Rightarrow> \<forall>tid' pc. fmlookup (sends s) tid' = Some pc \<longrightarrow> pc_opcode pc \<noteq> opc) \<and>
     (case fmlookup (sends t) tid of Some pc \<Rightarrow> pc_opcode pc = opc \<and> pc_serial (ls @ [l]) t pc
      | None \<Rightarrow> fmlookup (sent t) opc = last_forwarded opc (ls @ [l]) None)"

lemma serial_okD:
  assumes "serial_ok ls s"
  shows "fmlookup (sends s) tid = Some pc \<Longrightarrow> pc_serial ls s pc"
    and "(\<And>tid pc. fmlookup (sends s) tid = Some pc \<Longrightarrow> pc_opcode pc \<noteq> opc) \<Longrightarrow> fmlookup (sent s) opc = last_forwarded opc ls None"
    and "fmlookup (sends s) tid = Some pc \<Longrightarrow> fmlookup (sends s) tid' = Some pc' \<Longrightarrow> pc_opcode pc = pc_opcode pc' \<Longrightarrow> tid = tid'"
  using assms unfolding serial_ok_def by blast+

lemma serial_moves:
  assumes "serial_step s l t" and "serial_ok ls s"
  shows "\<exists>tid opc. moves tid opc ls s l t"
proof -
  note ok = serial_okD [OF assms(2)]
  from assms(1) have step: "caching_step s l t" and adm: "admissible s l" by (simp_all add: serial_step_def)
  from step show ?thesis
  proof cases
    case (c_call tid opc p)
    have fresh: "pc_opcode pc \<noteq> opc" if "fmlookup (sends s) tid' = Some pc" for tid' pc
      using adm that c_call(1) by (auto simp: fmran'I)
    with ok(2) [of opc] c_call show ?thesis by (intro exI [of _ tid] exI [of _ opc]) (auto simp: moves_def)
  next
    case (c_lookup tid opc p)
    with ok(1) [of tid] show ?thesis by (intro exI [of _ tid] exI [of _ opc]) (auto simp: moves_def)
  next
    case (c_hit tid opc p q)
    with ok(1) [of tid] show ?thesis by (intro exI [of _ tid] exI [of _ opc]) (auto simp: moves_def)
  next
    case (c_miss tid opc p q)
    with ok(1) [of tid] show ?thesis by (intro exI [of _ tid] exI [of _ opc]) (auto simp: moves_def)
  next
    case (c_failed tid opc p err)
    with ok(1) [of tid] show ?thesis by (intro exI [of _ tid] exI [of _ opc]) (auto simp: moves_def)
  next
    case (c_acked tid opc p)
    with ok(1) [of tid] show ?thesis by (intro exI [of _ tid] exI [of _ opc]) (auto simp: moves_def)
  next
    case (c_store tid opc p)
    with ok(1) [of tid] show ?thesis by (intro exI [of _ tid] exI [of _ opc]) (auto simp: moves_def)
  next
    case (c_mutate a v)
    with adm show ?thesis by simp
  qed
qed

lemma pc_serial_frame:
  assumes "fmlookup (sent t) (pc_opcode pc) = fmlookup (sent s) (pc_opcode pc)" and "heap t = heap s"
    and "last_forwarded (pc_opcode pc) ls' None = last_forwarded (pc_opcode pc) ls None"
  shows "pc_serial ls' t pc = pc_serial ls s pc"
  using assms by (cases pc) auto

lemma moves_own: "moves tid opc ls s l t \<Longrightarrow> fmlookup (sends t) tid = Some pc \<Longrightarrow> pc_opcode pc = opc \<and> pc_serial (ls @ [l]) t pc"
  by (simp add: moves_def)

lemma moves_other:
  assumes mv: "moves tid opc ls s l t" and "serial_ok ls s" and "fmlookup (sends t) tid' = Some pc" and "tid' \<noteq> tid"
  shows "fmlookup (sends s) tid' = Some pc \<and> pc_opcode pc \<noteq> opc"
proof -
  from mv assms(3,4) have s: "fmlookup (sends s) tid' = Some pc" by (simp add: moves_def)
  show ?thesis
  proof (cases "fmlookup (sends s) tid")
    case None
    with mv s show ?thesis by (simp add: moves_def)
  next
    case (Some pc')
    with mv have "pc_opcode pc' = opc" by (simp add: moves_def)
    with serial_okD(3) [OF assms(2) s Some] assms(4) s show ?thesis by auto
  qed
qed

lemma moves_unique:
  assumes "moves tid opc ls s l t" and "serial_ok ls s"
    and t: "fmlookup (sends t) tid1 = Some pc1" "fmlookup (sends t) tid2 = Some pc2" "pc_opcode pc1 = pc_opcode pc2"
  shows "tid1 = tid2"
proof -
  note own = moves_own [OF assms(1)] and other = moves_other [OF assms(1,2)]
  consider "tid1 = tid" "tid2 = tid" | "tid1 = tid" "tid2 \<noteq> tid" | "tid1 \<noteq> tid" "tid2 = tid" | "tid1 \<noteq> tid" "tid2 \<noteq> tid" by blast
  then show ?thesis
  proof cases
    case 2
    with own t(1) other [OF t(2)] t(3) show ?thesis by simp
  next
    case 3
    with own t(2) other [OF t(1)] t(3) show ?thesis by simp
  next
    case 4
    with serial_okD(3) [OF assms(2)] other [OF t(1)] other [OF t(2)] t(3) show ?thesis by blast
  qed simp
qed

lemma moves_idle:
  assumes mv: "moves tid opc ls s l t" and "serial_ok ls s" and no: "\<And>tid' pc. fmlookup (sends t) tid' = Some pc \<Longrightarrow> pc_opcode pc \<noteq> o'"
  shows "fmlookup (sent t) o' = last_forwarded o' (ls @ [l]) None"
proof (cases "o' = opc")
  case True
  have "fmlookup (sends t) tid = None"
  proof (cases "fmlookup (sends t) tid")
    case (Some pc)
    with no [OF Some] moves_own [OF mv Some] True show ?thesis by simp
  qed
  with mv True show ?thesis by (simp add: moves_def)
next
  case False
  have "pc_opcode pc \<noteq> o'" if "fmlookup (sends s) tid' = Some pc" for tid' pc
  proof (cases "tid' = tid")
    case True
    with mv that False show ?thesis by (simp add: moves_def)
  next
    case False
    with mv that no [of tid' pc] show ?thesis by (simp add: moves_def)
  qed
  from serial_okD(2) [OF assms(2) this] mv False show ?thesis by (simp add: moves_def)
qed

lemma moves_serial:
  assumes mv: "moves tid opc ls s l t" and "serial_ok ls s"
  shows "serial_ok (ls @ [l]) t"
  unfolding serial_ok_def
proof (intro conjI allI impI)
  fix o' assume "\<forall>tid pc. fmlookup (sends t) tid = Some pc \<longrightarrow> pc_opcode pc \<noteq> o'"
  then show "fmlookup (sent t) o' = last_forwarded o' (ls @ [l]) None" by (intro moves_idle [OF assms]) simp
next
  fix tid' pc assume t: "fmlookup (sends t) tid' = Some pc"
  show "pc_serial (ls @ [l]) t pc"
  proof (cases "tid' = tid")
    case True
    with moves_own [OF mv] t show ?thesis by blast
  next
    case False
    from moves_other [OF assms t False] have pc: "fmlookup (sends s) tid' = Some pc" "pc_opcode pc \<noteq> opc" by auto
    with pc_serial_frame [of t pc s "ls @ [l]" ls] mv have "pc_serial (ls @ [l]) t pc = pc_serial ls s pc" unfolding moves_def by blast
    with serial_okD(1) [OF assms(2) pc(1)] show ?thesis by blast
  qed
qed (rule moves_unique [OF assms])

lemma serial_ok_run: "runs serial_step s ls t \<Longrightarrow> s = start_caching h \<Longrightarrow> serial_ok ls t \<and> heap t = h"
proof (induction rule: runs.induct)
  case (runs_nil s)
  then show ?case by (simp add: serial_ok_def start_caching_def)
next
  case (runs_snoc s ls t l u)
  from runs_snoc.IH [OF runs_snoc.prems] have IH: "serial_ok ls t" "heap t = h" by auto
  from serial_moves [OF runs_snoc.hyps(2) IH(1)] obtain tid opc where "moves tid opc ls t l u" by blast
  with moves_serial [OF this IH(1)] IH(2) show ?case by (simp add: moves_def)
qed

lemma serial_decides:
  assumes "serial_step s l t" and "serial_ok ls s"
  shows "l = CSuppressed tid opc p \<Longrightarrow> hit (heap s) (last_forwarded opc ls None) p"
    and "l = CForward tid opc p v r \<Longrightarrow> \<not> hit (heap s) (last_forwarded opc ls None) p"
  using assms(1) serial_okD(1) [OF assms(2), of tid] by (auto simp: serial_step_def elim!: caching_stepE)

lemma unchanged_heap:
  assumes "runs caching_step s ls t" and "\<And>a v. CMutate a v \<notin> set ls"
  shows "heap t = heap s \<and> (\<forall>tid opc q v r. CForward tid opc q v r \<in> set ls \<longrightarrow> v = pointee (heap s) q)"
  using assms
proof (induction rule: runs.induct)
  case (runs_snoc s ls t l u)
  then have "heap t = heap s \<and> (\<forall>tid opc q v r. CForward tid opc q v r \<in> set ls \<longrightarrow> v = pointee (heap s) q)" by simp
  with runs_snoc.hyps(2) runs_snoc.prems show ?case by (elim caching_stepE) auto
qed simp

lemma deepEqual_pointee: "deepEqual h q p \<Longrightarrow> pointee h q = pointee h p"
  by (induction h q p rule: deepEqual.induct) auto

lemma suppressed_was_acked:
  assumes "runs caching_step (start_caching h) ls s" and "\<And>a v. CMutate a v \<notin> set ls" and "caching_step s (CSuppressed tid opc p) t"
  shows "\<exists>tid' q. CForward tid' opc q (pointee h p) None \<in> set ls"
proof -
  from assms(3) obtain q where q: "fmlookup (sends s) tid = Some (Compare opc p (Some q))" "deepEqual (heap s) q p"
    by (auto elim!: caching_stepE) (metis hit.elims(2))
  with cache_known_run [OF assms(1) refl] have "forwarded_ok ls opc q" unfolding cache_known_def by fastforce
  then obtain tid' v where "CForward tid' opc q v None \<in> set ls" by (auto simp: forwarded_ok_def)
  moreover from this have "v = pointee h p"
    using unchanged_heap [OF assms(1,2)] deepEqual_pointee [OF q(2)] unfolding start_caching_def by (metis caching_system.select_convs(2))
  ultimately show ?thesis by blast
qed

section \<open>Examples\<close>

text \<open>The rules on a state in full, to run examples.\<close>

lemma example_moves:
  "fmlookup ss tid = None \<Longrightarrow>
     caching_step \<lparr>sent = m, heap = h, sends = ss\<rparr> (CCall tid opc p) \<lparr>sent = m, heap = h, sends = fmupd tid (Lookup opc p) ss\<rparr>"
  "fmlookup ss tid = Some (Lookup opc p) \<Longrightarrow>
     caching_step \<lparr>sent = m, heap = h, sends = ss\<rparr> CTau \<lparr>sent = m, heap = h, sends = fmupd tid (Compare opc p (fmlookup m opc)) ss\<rparr>"
  "fmlookup ss tid = Some (Compare opc p q) \<Longrightarrow> hit h q p \<Longrightarrow>
     caching_step \<lparr>sent = m, heap = h, sends = ss\<rparr> (CSuppressed tid opc p) \<lparr>sent = m, heap = h, sends = fmdrop tid ss\<rparr>"
  "fmlookup ss tid = Some (Compare opc p q) \<Longrightarrow> \<not> hit h q p \<Longrightarrow>
     caching_step \<lparr>sent = m, heap = h, sends = ss\<rparr> CTau \<lparr>sent = m, heap = h, sends = fmupd tid (Forward opc p) ss\<rparr>"
  "fmlookup ss tid = Some (Forward opc p) \<Longrightarrow> v = pointee h p \<Longrightarrow>
     caching_step \<lparr>sent = m, heap = h, sends = ss\<rparr> (CForward tid opc p v None) \<lparr>sent = m, heap = h, sends = fmupd tid (StoreSent opc p) ss\<rparr>"
  "fmlookup ss tid = Some (StoreSent opc p) \<Longrightarrow>
     caching_step \<lparr>sent = m, heap = h, sends = ss\<rparr> CTau \<lparr>sent = fmupd opc p m, heap = h, sends = fmdrop tid ss\<rparr>"
  "caching_step \<lparr>sent = m, heap = h, sends = ss\<rparr> (CMutate a w) \<lparr>sent = m, heap = h(a := w), sends = ss\<rparr>"
  using c_call [of "\<lparr>sent = m, heap = h, sends = ss\<rparr>"] c_lookup [of "\<lparr>sent = m, heap = h, sends = ss\<rparr>"]
    c_hit [of "\<lparr>sent = m, heap = h, sends = ss\<rparr>"] c_miss [of "\<lparr>sent = m, heap = h, sends = ss\<rparr>"]
    c_acked [of "\<lparr>sent = m, heap = h, sends = ss\<rparr>"] c_store [of "\<lparr>sent = m, heap = h, sends = ss\<rparr>"]
    c_mutate [of "\<lparr>sent = m, heap = h, sends = ss\<rparr>"] by simp_all

lemmas run_call = caching_cons [OF example_moves(1)]
  and run_lookup = caching_cons [OF example_moves(2)]
  and run_hit = caching_cons [OF example_moves(3)]
  and run_miss = caching_cons [OF example_moves(4)]
  and run_ack = caching_cons [OF example_moves(5)]
  and run_store = caching_cons [OF example_moves(6)]
  and run_mutate = caching_cons [OF example_moves(7)]

lemma serial_cons: "caching_step s l t \<Longrightarrow> admissible s l \<Longrightarrow> runs serial_step t ls u \<Longrightarrow> runs serial_step s (l # ls) u"
  using runs_cons [of serial_step s l t ls u] by (simp add: serial_step_def)

text \<open>Two calls with one opcode, of which the first to be acked is the last to update the map.\<close>

definition overtaken :: "nat caching_label list" where
  "overtaken = [CCall 0 1 (ByValue 10), CTau, CTau, CCall 1 1 (ByValue 20), CTau, CTau,
     CForward 0 1 (ByValue 10) (Some 10) None, CForward 1 1 (ByValue 20) (Some 20) None, CTau, CTau,
     CCall 0 1 (ByValue 10), CTau]"

lemma overtaken_run: "\<exists>s. runs caching_step (start_caching h) (overtaken @ [CSuppressed 0 1 (ByValue 10)]) s"
  unfolding overtaken_def start_caching_def append_Cons append_Nil
  by (rule exI, rule run_call, simp, rule run_lookup [where tid = 0], simp,
      rule run_miss [where tid = 0], simp, simp,
      rule run_call, simp, rule run_lookup [where tid = 1], simp,
      rule run_miss [where tid = 1], simp, simp,
      rule run_ack, simp, simp, rule run_ack, simp, simp,
      rule run_store [where tid = 1], simp, rule run_store [where tid = 0], simp,
      rule run_call, simp, rule run_lookup [where tid = 0], simp,
      rule run_hit, simp, simp, rule runs_nil)

text \<open>One call after the other, with a payload that the caller changes in between.\<close>

definition changed_payload :: "nat caching_label list" where
  "changed_payload = [CCall 0 1 (ByPointer 0), CTau, CTau, CForward 0 1 (ByPointer 0) (Some 10) None, CTau, CMutate 0 20,
     CCall 0 1 (ByPointer 0), CTau]"

lemma changed_payload_run:
  "\<exists>s. runs caching_step (start_caching (\<lambda>_. 10)) changed_payload s \<and> pointee (heap s) (ByPointer 0) = Some 20 \<and>
     (\<exists>t. caching_step s (CSuppressed 0 1 (ByPointer 0)) t)"
  unfolding changed_payload_def start_caching_def
  by (rule exI, rule conjI, rule run_call, simp, rule run_lookup [where tid = 0], simp,
      rule run_miss [where tid = 0], simp, simp, rule run_ack, simp, simp,
      rule run_store [where tid = 0], simp, rule run_mutate,
      rule run_call, simp, rule run_lookup [where tid = 0], simp,
      rule runs_nil, rule conjI, simp, rule exI, rule example_moves(3), simp, simp)

text \<open>One payload sent twice, one call after the other.\<close>

definition repeated :: "nat caching_label list" where
  "repeated = [CCall 0 1 (ByValue 10), CTau, CTau, CForward 0 1 (ByValue 10) (Some 10) None, CTau, CCall 0 1 (ByValue 10), CTau]"

lemma repeated_run:
  "\<exists>s. runs serial_step (start_caching h) repeated s \<and> (\<exists>t. serial_step s (CSuppressed 0 1 (ByValue 10)) t)"
  unfolding repeated_def start_caching_def serial_step_def [of _ "CSuppressed 0 1 (ByValue 10)"]
  by (rule exI, rule conjI, rule serial_cons, rule example_moves(1), simp, simp add: fmran'_def,
      rule serial_cons, rule example_moves(2) [where tid = 0], simp, simp, rule serial_cons, rule example_moves(4) [where tid = 0], simp, simp, simp,
      rule serial_cons, rule example_moves(5), simp, simp, simp, rule serial_cons, rule example_moves(6) [where tid = 0], simp, simp,
      rule serial_cons, rule example_moves(1), simp, simp add: fmran'_def, rule serial_cons, rule example_moves(2) [where tid = 0], simp, simp,
      rule runs_nil, rule exI, rule conjI, rule example_moves(3), simp, simp, simp)

section \<open>Properties\<close>

text \<open>
  C29. The caching service under concurrency, over every interleaving of the steps of any number of calls and every result of the wrapped
  service, while payloads are not changed.  A send is only suppressed, and reported as acked, if its value was sent with its opcode and acked
  before.  If calls with the same opcode do not overlap, though those with others may, a send is suppressed if and only if
  it equals the last acked payload with its opcode.
\<close>

theorem concurrent_caching_is_sound:
  "(\<forall>ls s tid opc p t. runs caching_step (start_caching h) ls s \<and> (\<forall>a v. CMutate a v \<notin> set ls) \<and> caching_step s (CSuppressed tid opc p) t \<longrightarrow>
      (\<exists>tid' q. CForward tid' opc q (pointee h p) None \<in> set ls)) \<and>
   (\<forall>ls s l t tid opc p v r. runs serial_step (start_caching h) ls s \<and> serial_step s l t \<longrightarrow>
      (l = CSuppressed tid opc p \<longrightarrow> hit h (last_forwarded opc ls None) p) \<and>
      (l = CForward tid opc p v r \<longrightarrow> \<not> hit h (last_forwarded opc ls None) p))"
proof (intro conjI allI impI)
  fix ls s tid opc p t
  assume "runs caching_step (start_caching h) ls s \<and> (\<forall>a v. CMutate a v \<notin> set ls) \<and> caching_step s (CSuppressed tid opc p) t"
  then show "\<exists>tid' q. CForward tid' opc q (pointee h p) None \<in> set ls" by (intro suppressed_was_acked [of h ls s]) auto
next
  fix ls s l t tid opc p v r
  assume run: "runs serial_step (start_caching h) ls s \<and> serial_step s l t"
  then have ok: "serial_ok ls s" "heap s = h" using serial_ok_run by auto
  show "hit h (last_forwarded opc ls None) p" if "l = CSuppressed tid opc p" using serial_decides(1) [OF _ ok(1) that] run ok(2) by auto
  show "\<not> hit h (last_forwarded opc ls None) p" if "l = CForward tid opc p v r" using serial_decides(2) [OF _ ok(1) that] run ok(2) by auto
qed

theorem concurrent_caching_is_sound_witness:
  "(\<exists>s t. runs caching_step (start_caching (\<lambda>_. 0)) overtaken s \<and> caching_step s (CSuppressed 0 1 (ByValue 10)) t \<and>
      (\<exists>tid q. CForward tid 1 q (Some 10) None \<in> set overtaken)) \<and>
   (\<exists>s t. runs serial_step (start_caching (\<lambda>_. 0)) repeated s \<and> serial_step s (CSuppressed 0 1 (ByValue 10)) t \<and>
      hit (\<lambda>_. 0) (last_forwarded 1 repeated None) (ByValue 10))"
proof
  obtain u where "runs caching_step (start_caching (\<lambda>_. 0)) (overtaken @ [CSuppressed 0 1 (ByValue 10)]) u" using overtaken_run by blast
  then obtain s where s: "runs caching_step (start_caching (\<lambda>_. 0)) overtaken s" "caching_step s (CSuppressed 0 1 (ByValue 10)) u"
    by (auto elim: runs.cases)
  have "\<forall>a v. CMutate a v \<notin> set overtaken" by (simp add: overtaken_def)
  with concurrent_caching_is_sound [of "\<lambda>_. 0"] s
  have "\<exists>tid q. CForward tid 1 q (pointee (\<lambda>_. 0) (ByValue 10)) None \<in> set overtaken" by blast
  with s show "\<exists>s t. runs caching_step (start_caching (\<lambda>_. 0)) overtaken s \<and> caching_step s (CSuppressed 0 1 (ByValue 10)) t \<and>
      (\<exists>tid q. CForward tid 1 q (Some 10) None \<in> set overtaken)" by auto
  obtain s t where "runs serial_step (start_caching (\<lambda>_. 0)) repeated s" "serial_step s (CSuppressed 0 1 (ByValue 10)) t"
    using repeated_run by blast
  with concurrent_caching_is_sound [of "\<lambda>_. 0"] show "\<exists>s t. runs serial_step (start_caching (\<lambda>_. 0)) repeated s \<and>
      serial_step s (CSuppressed 0 1 (ByValue 10)) t \<and> hit (\<lambda>_. 0) (last_forwarded 1 repeated None) (ByValue 10)" by blast
qed

text \<open>
  C38. Both conditions are needed: the caching service can suppress a send whose value is not the last one acked with its opcode, so that the peer
  keeps another.  With two overlapping calls it is the one that returns last which is remembered, not the one the peer was sent last.
  With a payload behind a pointer the map shares it with the caller: a new value written there is compared with itself
  and never sent.
\<close>

theorem caching_can_suppress_a_new_value:
  "(\<exists>s. runs caching_step (start_caching h) (overtaken @ [CSuppressed 0 1 (ByValue 10)]) s) \<and>
     last_forwarded 1 overtaken None = Some (ByValue 20) \<and> (\<forall>a v. CMutate a v \<notin> set overtaken) \<and>
   (\<exists>s t. runs caching_step (start_caching (\<lambda>_. 10)) changed_payload s \<and> caching_step s (CSuppressed 0 1 (ByPointer 0)) t \<and>
      pointee (heap s) (ByPointer 0) = Some 20) \<and>
     (\<forall>tid opc q r. CForward tid opc q (Some 20) r \<notin> set changed_payload)"
proof (intro conjI)
  show "\<exists>s. runs caching_step (start_caching h) (overtaken @ [CSuppressed 0 1 (ByValue 10)]) s" by (rule overtaken_run)
  show "\<exists>s t. runs caching_step (start_caching (\<lambda>_. 10)) changed_payload s \<and> caching_step s (CSuppressed 0 1 (ByPointer 0)) t \<and>
      pointee (heap s) (ByPointer 0) = Some 20" using changed_payload_run by blast
qed (simp_all add: overtaken_def changed_payload_def)

end
