(* ===== verification/Pool_Concurrency.thy ===== *)
theory Pool_Concurrency
  imports Connection_Pool
begin

text \<open>
  \<open>pkg/reconciler/connection_pool.go\<close> with several goroutines.  The lock \<open>connsLock\<close> is held for each access to the
  map, not for a whole call: \<open>DialControlService\<close> dials without the lock and takes it to store the entry, and
  \<open>ReconcileConnections\<close> reads the hosts, dials and removes in separate locked regions, with other calls in
  between.  Here the calls are goroutines with a program counter, one locked region or call of the network per step.
\<close>

section \<open>Goroutines\<close>

text \<open>What is left to do of the two loops of \<open>ReconcileConnections\<close>; a call of \<open>DialControlService\<close> is a single dial.\<close>

datatype ('svc, 'w) pool_task =
    Dial string "(string \<Rightarrow> 'svc \<Rightarrow> 'w \<Rightarrow> 'w) option"
  | Remove string "(string \<Rightarrow> 'w \<Rightarrow> 'w) option"

text \<open>
  At the start of \<open>ReconcileConnections\<close>; before the next task; inside \<open>StartControlClient\<close>, with the context made for it;
  before the locked region that stores the service; before the callback for a new service; and before \<open>RemoveConnection\<close>.
\<close>

datatype ('svc, 'd, 'w) pool_pc =
    PReconcile string "string list" "(string \<Rightarrow> 'svc \<Rightarrow> 'w \<Rightarrow> 'w) option" "(string \<Rightarrow> 'w \<Rightarrow> 'w) option"
  | PTasks string "('svc, 'w) pool_task list"
  | PDialing string string nat 'd "(string \<Rightarrow> 'svc \<Rightarrow> 'w \<Rightarrow> 'w) option" "('svc, 'w) pool_task list"
  | PStore string string nat 'svc "(string \<Rightarrow> 'svc \<Rightarrow> 'w \<Rightarrow> 'w) option" "('svc, 'w) pool_task list"
  | PNotify string string 'svc "(string \<Rightarrow> 'svc \<Rightarrow> 'w \<Rightarrow> 'w) option" "('svc, 'w) pool_task list"
  | PRemove string string "('svc, 'w) pool_task list"

record ('svc, 'd, 'w) pool_system =
  pool :: "('svc, 'd, 'w) controlPlaneConnectionPoolImpl"
  pworld :: "'w pool_world"
  calls :: "(nat, ('svc, 'd, 'w) pool_pc) fmap"

text \<open>\<open>LReturned\<close>: a call returns, without an error or with one.\<close>

datatype pool_label =
    LDial nat string string | LReconcile nat string "string list"
  | LRemove string string | LRemoveAll string | LClose
  | LWork nat | LReturned nat string bool

text \<open>The locked region at the end of \<open>DialControlService\<close>.\<close>

definition store_service ::
  "string \<Rightarrow> string \<Rightarrow> 'svc \<Rightarrow> nat \<Rightarrow> ('svc, 'd, 'w) controlPlaneConnectionPoolImpl \<Rightarrow> ('svc, 'd, 'w) controlPlaneConnectionPoolImpl" where
  "store_service key host newSvc ctx cc =
     (let m = (case fmlookup (conns cc) key of None \<Rightarrow> fmempty | Some m \<Rightarrow> m)
      in cc\<lparr>conns := fmupd key (fmupd host \<lparr>service = newSvc, cancelFn = ctx\<rparr> m) (conns cc)\<rparr>)"

definition goto :: "nat \<Rightarrow> ('svc, 'd, 'w) pool_pc \<Rightarrow> ('svc, 'd, 'w) pool_system \<Rightarrow> ('svc, 'd, 'w) pool_system" where
  "goto tid pc s = s\<lparr>calls := fmupd tid pc (calls s)\<rparr>"

definition finish :: "nat \<Rightarrow> ('svc, 'd, 'w) pool_system \<Rightarrow> ('svc, 'd, 'w) pool_system" where
  "finish tid s = s\<lparr>calls := fmdrop tid (calls s)\<rparr>"

abbreviation at :: "('svc, 'd, 'w) pool_system \<Rightarrow> nat \<Rightarrow> ('svc, 'd, 'w) pool_pc \<Rightarrow> bool" where
  "at s tid pc \<equiv> fmlookup (calls s) tid = Some pc"

text \<open>The steps inside \<open>DialControlService\<close>.\<close>

inductive dial_step ::
  "('svc, 'd, 'w) start_client \<Rightarrow> ('svc, 'd, 'w) pool_system \<Rightarrow> pool_label \<Rightarrow> ('svc, 'd, 'w) pool_system \<Rightarrow> bool"
  for StartControlClient where
  dial_call: "fmlookup (calls s) tid = None \<Longrightarrow> dial_step StartControlClient s (LDial tid key host) (goto tid (PTasks key [Dial host None]) s)"
| dial_no_dialer: "at s tid (PTasks key (Dial host cb # rest)) \<Longrightarrow> dialer_for (pool s) (io (pworld s)) = (Inl err, x) \<Longrightarrow>
    dial_step StartControlClient s (LReturned tid key False) (finish tid (s\<lparr>pworld := (pworld s)\<lparr>io := x\<rparr>\<rparr>))"
| dial_begin: "at s tid (PTasks key (Dial host cb # rest)) \<Longrightarrow> dialer_for (pool s) (io (pworld s)) = (Inr dialer, x) \<Longrightarrow>
    WithCancel ((pworld s)\<lparr>io := x\<rparr>) = (ctx, w) \<Longrightarrow>
    dial_step StartControlClient s (LWork tid) (goto tid (PDialing key host ctx dialer cb rest) (s\<lparr>pworld := w\<rparr>))"
| dial_failed: "at s tid (PDialing key host ctx dialer cb rest) \<Longrightarrow> StartControlClient dialer host (io (pworld s)) = (Inl err, x) \<Longrightarrow>
    dial_step StartControlClient s (LReturned tid key False)
      (finish tid (s\<lparr>pworld := cancel ctx ((pworld s)\<lparr>io := x\<rparr>)\<rparr>))"
| dial_started: "at s tid (PDialing key host ctx dialer cb rest) \<Longrightarrow> StartControlClient dialer host (io (pworld s)) = (Inr svc, x) \<Longrightarrow>
    dial_step StartControlClient s (LWork tid)
      (goto tid (PStore key host ctx (fold (\<lambda>wrap. wrap) (serviceWrapperFactories (pool s)) svc) cb rest)
        (s\<lparr>pworld := (pworld s)\<lparr>io := x\<rparr>\<rparr>))"
| dial_store: "at s tid (PStore key host ctx svc cb rest) \<Longrightarrow>
    dial_step StartControlClient s (LWork tid) (goto tid (PNotify key host svc cb rest) (s\<lparr>pool := store_service key host svc ctx (pool s)\<rparr>))"

text \<open>The steps of \<open>ReconcileConnections\<close> around them.\<close>

inductive reconcile_step ::
  "(string fset \<Rightarrow> string list) \<Rightarrow> ('svc, 'd, 'w) pool_system \<Rightarrow> pool_label \<Rightarrow> ('svc, 'd, 'w) pool_system \<Rightarrow> bool" for iter where
  rec_call: "fmlookup (calls s) tid = None \<Longrightarrow>
    reconcile_step iter s (LReconcile tid key want) (goto tid (PReconcile key want newCb oldCb) s)"
| rec_read: "at s tid (PReconcile key want newCb oldCb) \<Longrightarrow> existing = GetConnectedHosts iter (pool s) key \<Longrightarrow>
    reconcile_step iter s (LWork tid)
      (goto tid (PTasks key (map (\<lambda>h. Dial h newCb) (setDifference want existing) @ map (\<lambda>h. Remove h oldCb) (setDifference existing want))) s)"
| rec_new: "at s tid (PNotify key host svc cb rest) \<Longrightarrow>
    reconcile_step iter s (LWork tid)
      (goto tid (PTasks key rest)
        (s\<lparr>pworld := (case cb of None \<Rightarrow> pworld s | Some f \<Rightarrow> (pworld s)\<lparr>io := f host svc (io (pworld s))\<rparr>)\<rparr>))"
| rec_old: "at s tid (PTasks key (Remove host cb # rest)) \<Longrightarrow>
    reconcile_step iter s (LWork tid)
      (goto tid (PRemove key host rest)
        (s\<lparr>pworld := (case cb of None \<Rightarrow> pworld s | Some f \<Rightarrow> (pworld s)\<lparr>io := f host (io (pworld s))\<rparr>)\<rparr>))"
| rec_remove: "at s tid (PRemove key host rest) \<Longrightarrow> RemoveConnection key host (pool s, pworld s) = (cc, w) \<Longrightarrow>
    reconcile_step iter s (LWork tid) (goto tid (PTasks key rest) (s\<lparr>pool := cc, pworld := w\<rparr>))"
| rec_return: "at s tid (PTasks key []) \<Longrightarrow> reconcile_step iter s (LReturned tid key True) (finish tid s)"

text \<open>All calls; the removals are one locked region each.\<close>

inductive pool_system_step ::
  "(string fset \<Rightarrow> string list) \<Rightarrow> ('svc, 'd, 'w) start_client \<Rightarrow> ('svc, 'd, 'w) pool_system \<Rightarrow> pool_label \<Rightarrow> ('svc, 'd, 'w) pool_system \<Rightarrow> bool"
  for iter StartControlClient where
  sys_dial: "dial_step StartControlClient s l s' \<Longrightarrow> pool_system_step iter StartControlClient s l s'"
| sys_reconcile: "reconcile_step iter s l s' \<Longrightarrow> pool_system_step iter StartControlClient s l s'"
| sys_remove: "RemoveConnection key host (pool s, pworld s) = (cc, w) \<Longrightarrow>
    pool_system_step iter StartControlClient s (LRemove key host) (s\<lparr>pool := cc, pworld := w\<rparr>)"
| sys_removeAll: "RemoveAllConnections iter key (pool s, pworld s) = (cc, w) \<Longrightarrow>
    pool_system_step iter StartControlClient s (LRemoveAll key) (s\<lparr>pool := cc, pworld := w\<rparr>)"
| sys_close: "pool_Close iter (pool s, pworld s) = (cc, w) \<Longrightarrow>
    pool_system_step iter StartControlClient s LClose (s\<lparr>pool := cc, pworld := w\<rparr>)"

inductive_cases dial_stepE: "dial_step start s l s'"
inductive_cases reconcile_stepE: "reconcile_step iter s l s'"
inductive_cases pool_system_stepE: "pool_system_step iter start s l s'"

lemmas pool_system_elims = pool_system_stepE dial_stepE reconcile_stepE

section \<open>Calls one after the other\<close>

text \<open>A call that is left alone computes what the sequential function does: the steps below are a refinement of it.\<close>

lemma goto_simps [simp]:
  "goto tid a (goto tid b s) = goto tid a s" "finish tid (goto tid b s) = finish tid s"
  "(goto tid a s)\<lparr>pool := cc\<rparr> = goto tid a (s\<lparr>pool := cc\<rparr>)" "(goto tid a s)\<lparr>pworld := w\<rparr> = goto tid a (s\<lparr>pworld := w\<rparr>)"
  "pool (goto tid a s) = pool s" "pworld (goto tid a s) = pworld s" "at (goto tid a s) tid pc \<longleftrightarrow> pc = a"
  by (auto simp: goto_def finish_def)

lemma dial_task_run:
  assumes "at s tid (PTasks key (Dial host cb # rest))" and "DialControlService start key host (pool s, pworld s) = (r, cc, w)"
  shows "\<exists>ls. runs (pool_system_step iter start) s ls
    (case r of Inl err \<Rightarrow> finish tid (s\<lparr>pool := cc, pworld := w\<rparr>)
     | Inr (h, svc) \<Rightarrow> goto tid (PTasks key rest)
         (s\<lparr>pool := cc, pworld := (case cb of None \<Rightarrow> w | Some f \<Rightarrow> w\<lparr>io := f host svc (io w)\<rparr>)\<rparr>))"
proof -
  note cons = runs_cons [of "pool_system_step iter start"]
  obtain d x where d: "dialer_for (pool s) (io (pworld s)) = (d, x)" by fastforce
  show ?thesis
  proof (cases d)
    case (Inl err)
    from cons [OF dial_no_dialer [OF assms(1), of err x, THEN sys_dial] runs_nil] d Inl assms(2) show ?thesis
      by (auto simp: DialControlService_def)
  next
    case (Inr dialer)
    obtain ctx w1 where w1: "WithCancel ((pworld s)\<lparr>io := x\<rparr>) = (ctx, w1)" by fastforce
    obtain c y where c: "start dialer host (io w1) = (c, y)" by fastforce
    let ?s1 = "goto tid (PDialing key host ctx dialer cb rest) (s\<lparr>pworld := w1\<rparr>)"
    have 1: "pool_system_step iter start s (LWork tid) ?s1"
      using dial_begin [OF assms(1) _ w1, of dialer, THEN sys_dial] d Inr by simp
    show ?thesis
    proof (cases c)
      case (Inl err)
      have "pool_system_step iter start ?s1 (LReturned tid key False) (finish tid (s\<lparr>pworld := cancel ctx (w1\<lparr>io := y\<rparr>)\<rparr>))"
        using dial_failed [of ?s1 tid key host ctx dialer cb rest start err y, THEN sys_dial] c Inl by simp
      from cons [OF 1 cons [OF this runs_nil]] d \<open>d = Inr dialer\<close> w1 c Inl assms(2) show ?thesis
        by (auto simp: DialControlService_def)
    next
      case (Inr svc0)
      let ?svc = "fold (\<lambda>wrap. wrap) (serviceWrapperFactories (pool s)) svc0"
      let ?s2 = "goto tid (PStore key host ctx ?svc cb rest) (s\<lparr>pworld := w1\<lparr>io := y\<rparr>\<rparr>)"
      let ?s3 = "goto tid (PNotify key host ?svc cb rest) (s\<lparr>pworld := w1\<lparr>io := y\<rparr>, pool := store_service key host ?svc ctx (pool s)\<rparr>)"
      have 2: "pool_system_step iter start ?s1 (LWork tid) ?s2"
        using dial_started [of ?s1 tid key host ctx dialer cb rest start svc0 y, THEN sys_dial] c Inr by simp
      have 3: "pool_system_step iter start ?s2 (LWork tid) ?s3"
        using dial_store [of ?s2 tid key host ctx ?svc cb rest start, THEN sys_dial] by simp
      have 4: "pool_system_step iter start ?s3 (LWork tid) (goto tid (PTasks key rest) (s\<lparr>pool := store_service key host ?svc ctx (pool s),
          pworld := (case cb of None \<Rightarrow> w1\<lparr>io := y\<rparr> | Some f \<Rightarrow> w1\<lparr>io := f host ?svc y\<rparr>)\<rparr>))"
        using rec_new [of ?s3 tid key host ?svc cb rest iter, THEN sys_reconcile] by (cases cb) simp_all
      have "r = Inr (host, ?svc)" "cc = store_service key host ?svc ctx (pool s)" "w = w1\<lparr>io := y\<rparr>"
        using assms(2) d \<open>d = Inr dialer\<close> w1 c Inr by (auto simp: DialControlService_def store_service_def Let_def)
      with cons [OF 1 cons [OF 2 cons [OF 3 cons [OF 4 runs_nil]]]] show ?thesis by (cases cb) auto
    qed
  qed
qed

lemma dialAll_run:
  assumes "at s tid (PTasks key (map (\<lambda>h. Dial h cb) hosts @ rest))" and "dialAll start key cb hosts (pool s, pworld s) = (e, cc, w)"
  shows "\<exists>ls. runs (pool_system_step iter start) s ls
    (if e = None then goto tid (PTasks key rest) (s\<lparr>pool := cc, pworld := w\<rparr>) else finish tid (s\<lparr>pool := cc, pworld := w\<rparr>))"
  using assms
proof (induction hosts arbitrary: s)
  case Nil
  then have "goto tid (PTasks key rest) (s\<lparr>pool := cc, pworld := w\<rparr>) = s"
    by (cases s) (auto simp: goto_def intro!: fmap_ext)
  with Nil show ?case by (auto intro: exI [of _ "[]"] runs_nil)
next
  case (Cons host hosts)
  obtain r cc1 w1 where d: "DialControlService start key host (pool s, pworld s) = (r, cc1, w1)" using prod_cases3 by blast
  have t: "at s tid (PTasks key (Dial host cb # map (\<lambda>h. Dial h cb) hosts @ rest))" using Cons.prems(1) by simp
  from dial_task_run [OF t d] obtain ls where ls: "runs (pool_system_step iter start) s ls
    (case r of Inl err \<Rightarrow> finish tid (s\<lparr>pool := cc1, pworld := w1\<rparr>)
     | Inr (h, svc) \<Rightarrow> goto tid (PTasks key (map (\<lambda>h. Dial h cb) hosts @ rest))
         (s\<lparr>pool := cc1, pworld := (case cb of None \<Rightarrow> w1 | Some f \<Rightarrow> w1\<lparr>io := f host svc (io w1)\<rparr>)\<rparr>))" by blast
  show ?case
  proof (cases r)
    case (Inl err)
    with ls d Cons.prems(2) show ?thesis by auto
  next
    case (Inr x)
    obtain h svc where x: "x = (h, svc)" by fastforce
    let ?t = "goto tid (PTasks key (map (\<lambda>h. Dial h cb) hosts @ rest))
         (s\<lparr>pool := cc1, pworld := (case cb of None \<Rightarrow> w1 | Some f \<Rightarrow> w1\<lparr>io := f host svc (io w1)\<rparr>)\<rparr>)"
    have "dialAll start key cb hosts (pool ?t, pworld ?t) = (e, cc, w)" using Cons.prems(2) d Inr x by simp
    from Cons.IH [OF _ this] obtain ls' where "runs (pool_system_step iter start) ?t ls'
      (if e = None then goto tid (PTasks key rest) (s\<lparr>pool := cc, pworld := w\<rparr>) else finish tid (s\<lparr>pool := cc, pworld := w\<rparr>))"
      (is "runs _ _ _ ?u") by (cases e) auto
    moreover have "runs (pool_system_step iter start) s ls ?t" using ls Inr x by simp
    ultimately have "runs (pool_system_step iter start) s (ls @ ls') ?u" by (rule runs_append)
    then show ?thesis by (rule exI)
  qed
qed

lemma removeOld_run:
  assumes "at s tid (PTasks key (map (\<lambda>h. Remove h cb) hosts))" and "removeOld key cb hosts (pool s, pworld s) = (cc, w)"
  shows "\<exists>ls. runs (pool_system_step iter start) s ls (finish tid (s\<lparr>pool := cc, pworld := w\<rparr>))"
  using assms
proof (induction hosts arbitrary: s)
  case Nil
  then have "runs (pool_system_step iter start) s [LReturned tid key True] (finish tid s)"
    using runs_cons [of "pool_system_step iter start", OF rec_return [THEN sys_reconcile] runs_nil] by auto
  with Nil show ?case by (cases s) auto
next
  case (Cons host hosts)
  let ?w = "case cb of None \<Rightarrow> pworld s | Some f \<Rightarrow> (pworld s)\<lparr>io := f host (io (pworld s))\<rparr>"
  let ?s1 = "goto tid (PRemove key host (map (\<lambda>h. Remove h cb) hosts)) (s\<lparr>pworld := ?w\<rparr>)"
  obtain cc1 w1 where r: "RemoveConnection key host (pool s, ?w) = (cc1, w1)" by fastforce
  let ?s2 = "goto tid (PTasks key (map (\<lambda>h. Remove h cb) hosts)) (s\<lparr>pool := cc1, pworld := w1\<rparr>)"
  have 1: "pool_system_step iter start s (LWork tid) ?s1" using rec_old [THEN sys_reconcile] Cons.prems(1) by simp
  have 2: "pool_system_step iter start ?s1 (LWork tid) ?s2"
    using rec_remove [of ?s1 tid key host "map (\<lambda>h. Remove h cb) hosts" cc1 w1 iter, THEN sys_reconcile] r by simp
  have "removeOld key cb hosts (pool ?s2, pworld ?s2) = (cc, w)" using Cons.prems(2) r by (cases cb) simp_all
  from Cons.IH [OF _ this] obtain ls where "runs (pool_system_step iter start) ?s2 ls (finish tid (s\<lparr>pool := cc, pworld := w\<rparr>))" by auto
  from runs_cons [of "pool_system_step iter start", OF 1 runs_cons [of "pool_system_step iter start", OF 2 this]] show ?case by blast
qed

lemma ReconcileConnections_run:
  assumes "at s tid (PReconcile key want newCb oldCb)"
    and "ReconcileConnections iter start key want newCb oldCb (pool s, pworld s) = (r, cc, w)"
  shows "\<exists>ls. runs (pool_system_step iter start) s ls (finish tid (s\<lparr>pool := cc, pworld := w\<rparr>))"
proof -
  let ?ex = "GetConnectedHosts iter (pool s) key"
  let ?old = "map (\<lambda>h. Remove h oldCb) (setDifference ?ex want)"
  let ?t = "goto tid (PTasks key (map (\<lambda>h. Dial h newCb) (setDifference want ?ex) @ ?old)) s"
  have 1: "pool_system_step iter start s (LWork tid) ?t" using rec_read [OF assms(1) refl, THEN sys_reconcile] .
  obtain e cc1 w1 where d: "dialAll start key newCb (setDifference want ?ex) (pool ?t, pworld ?t) = (e, cc1, w1)" using prod_cases3 by blast
  from dialAll_run [OF _ d, of tid ?old iter] obtain ls where ls: "runs (pool_system_step iter start) ?t ls
    (if e = None then goto tid (PTasks key ?old) (s\<lparr>pool := cc1, pworld := w1\<rparr>) else finish tid (s\<lparr>pool := cc1, pworld := w1\<rparr>))" by (cases e) auto
  note go = runs_cons [of "pool_system_step iter start", OF 1]
  show ?thesis
  proof (cases e)
    case (Some err)
    with go [OF ls] assms(2) d show ?thesis by (auto simp: ReconcileConnections_def)
  next
    case None
    let ?u = "goto tid (PTasks key ?old) (s\<lparr>pool := cc1, pworld := w1\<rparr>)"
    have "removeOld key oldCb (setDifference ?ex want) (pool ?u, pworld ?u) = (cc, w)"
      using assms(2) d None by (auto simp: ReconcileConnections_def Let_def)
    from removeOld_run [OF _ this, of tid iter start] obtain ls' where
      "runs (pool_system_step iter start) ?u ls' (finish tid (s\<lparr>pool := cc, pworld := w\<rparr>))" by auto
    from go [OF runs_append [OF this]] ls None show ?thesis by auto
  qed
qed

section \<open>What callers respect\<close>

fun pc_key :: "('svc, 'd, 'w) pool_pc \<Rightarrow> string" where
  "pc_key (PReconcile key want newCb oldCb) = key"
| "pc_key (PTasks key rest) = key"
| "pc_key (PDialing key host ctx dialer cb rest) = key"
| "pc_key (PStore key host ctx svc cb rest) = key"
| "pc_key (PNotify key host svc cb rest) = key"
| "pc_key (PRemove key host rest) = key"

definition busy :: "('svc, 'd, 'w) pool_system \<Rightarrow> string \<Rightarrow> bool" where
  "busy s key \<longleftrightarrow> (\<exists>tid pc. at s tid pc \<and> pc_key pc = key)"

text \<open>
  As the work queue of a controller guarantees, no two dials or reconciliations work on the same key at the same time; and
  the conditions of the sequential calls hold when a call begins.  Removals and closing are free.
\<close>

fun admitted :: "('svc, 'd, 'w) pool_system \<Rightarrow> pool_label \<Rightarrow> bool" where
  "admitted s (LDial tid key host) \<longleftrightarrow> \<not> busy s key \<and> host \<notin> connected (pool s) key"
| "admitted s (LReconcile tid key want) \<longleftrightarrow> \<not> busy s key \<and> distinct want"
| "admitted s l \<longleftrightarrow> True"

definition worker_step ::
  "(string fset \<Rightarrow> string list) \<Rightarrow> ('svc, 'd, 'w) start_client \<Rightarrow> ('svc, 'd, 'w) pool_system \<Rightarrow> pool_label \<Rightarrow> ('svc, 'd, 'w) pool_system \<Rightarrow> bool" where
  "worker_step iter start s l s' \<longleftrightarrow> pool_system_step iter start s l s' \<and> admitted s l"

definition start_pool_system ::
  "('svc, 'd, 'w) controlPlaneConnectionPoolImpl \<Rightarrow> 'w pool_world \<Rightarrow> ('svc, 'd, 'w) pool_system" where
  "start_pool_system cc w = \<lparr>pool = cc, pworld = w, calls = fmempty\<rparr>"

section \<open>The invariant\<close>

fun dials :: "('svc, 'w) pool_task list \<Rightarrow> string list" where
  "dials [] = []"
| "dials (Dial host cb # ts) = host # dials ts"
| "dials (Remove host cb # ts) = dials ts"

text \<open>The hosts a goroutine has still to store, and the context it made and has not stored yet.\<close>

fun pc_pending :: "('svc, 'd, 'w) pool_pc \<Rightarrow> string list" where
  "pc_pending (PReconcile key want newCb oldCb) = []"
| "pc_pending (PTasks key rest) = dials rest"
| "pc_pending (PDialing key host ctx dialer cb rest) = host # dials rest"
| "pc_pending (PStore key host ctx svc cb rest) = host # dials rest"
| "pc_pending (PNotify key host svc cb rest) = dials rest"
| "pc_pending (PRemove key host rest) = dials rest"

fun pc_ctx :: "('svc, 'd, 'w) pool_pc \<Rightarrow> nat option" where
  "pc_ctx (PDialing key host ctx dialer cb rest) = Some ctx"
| "pc_ctx (PStore key host ctx svc cb rest) = Some ctx"
| "pc_ctx _ = None"

fun pc_wants :: "('svc, 'd, 'w) pool_pc \<Rightarrow> string list" where
  "pc_wants (PReconcile key want newCb oldCb) = want"
| "pc_wants _ = []"

definition flight :: "(nat, ('svc, 'd, 'w) pool_pc) fmap \<Rightarrow> nat set" where
  "flight m = {c. \<exists>tid pc. fmlookup m tid = Some pc \<and> pc_ctx pc = Some c}"

text \<open>The world as it would be without the dials that are under way.\<close>

definition settled :: "('svc, 'd, 'w) pool_system \<Rightarrow> 'w pool_world" where
  "settled s = (pworld s)\<lparr>live := ffilter (\<lambda>c. c \<notin> flight (calls s)) (live (pworld s))\<rparr>"

definition apart :: "(nat, ('svc, 'd, 'w) pool_pc) fmap \<Rightarrow> bool" where
  "apart m \<longleftrightarrow> (\<forall>tid pc tid' pc'. fmlookup m tid = Some pc \<longrightarrow> fmlookup m tid' = Some pc' \<longrightarrow> tid \<noteq> tid' \<longrightarrow>
     pc_key pc \<noteq> pc_key pc' \<and> (pc_ctx pc = None \<or> pc_ctx pc \<noteq> pc_ctx pc'))"

definition pending_ok :: "('svc, 'd, 'w) controlPlaneConnectionPoolImpl \<Rightarrow> ('svc, 'd, 'w) pool_pc \<Rightarrow> bool" where
  "pending_ok cc pc \<longleftrightarrow> distinct (pc_pending pc) \<and> distinct (pc_wants pc) \<and> set (pc_pending pc) \<inter> connected cc (pc_key pc) = {}"

definition system_ok :: "('svc, 'd, 'w) pool_system \<Rightarrow> bool" where
  "system_ok s \<longleftrightarrow> pool_ok (pool s, settled s) \<and> flight (calls s) \<subseteq> fset (live (pworld s)) \<and>
     (\<forall>c \<in> fset (live (pworld s)). c < next_ctx (pworld s)) \<and> apart (calls s) \<and>
     (\<forall>tid pc. at s tid pc \<longrightarrow> pending_ok (pool s) pc)"

lemma pool_ok_cong:
  "fset (live w) = fset (live w') \<Longrightarrow> next_ctx w = next_ctx w' \<Longrightarrow> pool_ok (cc, w) = pool_ok (cc, w')"
  by (simp add: pool_ok_def)

lemma flight_drop:
  "flight (fmdrop tid m) = {c. \<exists>tid' pc. tid' \<noteq> tid \<and> fmlookup m tid' = Some pc \<and> pc_ctx pc = Some c}"
  by (auto simp: flight_def split: if_splits)

lemma flight_upd: "flight (fmupd tid pc m) = flight (fmdrop tid m) \<union> set_option (pc_ctx pc)"
  by (auto simp: flight_def flight_drop split: if_splits)

lemma flight_split: "fmlookup m tid = Some pc \<Longrightarrow> flight m = flight (fmdrop tid m) \<union> set_option (pc_ctx pc)"
  by (auto simp: flight_def flight_drop)

lemma flight_new: "fmlookup m tid = None \<Longrightarrow> fmdrop tid m = m"
  by (rule fmap_ext) simp

lemma apartD:
  "apart m \<Longrightarrow> fmlookup m tid = Some pc \<Longrightarrow> fmlookup m tid' = Some pc' \<Longrightarrow> tid \<noteq> tid' \<Longrightarrow>
     pc_key pc \<noteq> pc_key pc' \<and> (pc_ctx pc = None \<or> pc_ctx pc \<noteq> pc_ctx pc')"
  unfolding apart_def by blast

lemma apart_ctx:
  "apart m \<Longrightarrow> fmlookup m tid = Some pc \<Longrightarrow> pc_ctx pc = Some c \<Longrightarrow> c \<notin> flight (fmdrop tid m)"
  unfolding flight_drop by (auto dest: apartD)

lemma apart_drop: "apart m \<Longrightarrow> apart (fmdrop tid m)"
  unfolding apart_def by simp

lemma apart_upd:
  assumes "apart (fmdrop tid m)" and "\<And>tid' pc'. tid' \<noteq> tid \<Longrightarrow> fmlookup m tid' = Some pc' \<Longrightarrow> pc_key pc' \<noteq> pc_key pc"
    and "set_option (pc_ctx pc) \<inter> flight (fmdrop tid m) = {}"
  shows "apart (fmupd tid pc m)"
proof -
  have other: "pc_key pc' \<noteq> pc_key pc \<and> (pc_ctx pc' = None \<or> pc_ctx pc' \<noteq> pc_ctx pc)"
    if "tid' \<noteq> tid" "fmlookup m tid' = Some pc'" for tid' pc'
  proof -
    have "c \<in> flight (fmdrop tid m)" if "pc_ctx pc' = Some c" for c
      using that \<open>tid' \<noteq> tid\<close> \<open>fmlookup m tid' = Some pc'\<close> by (auto simp: flight_drop)
    then show ?thesis using assms(2) [OF that] assms(3) by (cases "pc_ctx pc'"; cases "pc_ctx pc") auto
  qed
  have "pc_key p \<noteq> pc_key p' \<and> (pc_ctx p = None \<or> pc_ctx p \<noteq> pc_ctx p')"
    if "fmlookup (fmupd tid pc m) a = Some p" "fmlookup (fmupd tid pc m) a' = Some p'" "a \<noteq> a'" for a p a' p'
    using that other [of a p] other [of a' p'] apartD [OF assms(1), of a p a' p'] by (auto split: if_splits)
  then show ?thesis unfolding apart_def by blast
qed

subsection \<open>Removals\<close>

text \<open>What the three removing operations have in common: the entries in \<open>P\<close> go, and exactly their contexts are cancelled.\<close>

definition drops :: "(string \<Rightarrow> string \<Rightarrow> bool) \<Rightarrow> ('svc, 'd, 'w) controlPlaneConnectionPoolImpl \<times> 'w pool_world \<Rightarrow>
    ('svc, 'd, 'w) controlPlaneConnectionPoolImpl \<times> 'w pool_world \<Rightarrow> bool" where
  "drops P s s' \<longleftrightarrow> (\<forall>k h. lookup2 (conns (fst s')) k h = (if P k h then None else lookup2 (conns (fst s)) k h)) \<and>
     fset (live (snd s')) = fset (live (snd s)) - held (conns (fst s)) P \<and> next_ctx (snd s') = next_ctx (snd s) \<and>
     (no_empty_inner (conns (fst s)) \<longrightarrow> no_empty_inner (conns (fst s')))"

lemma RemoveConnection_drops: "drops (\<lambda>k h. k = key \<and> h = host) (cc, w) (RemoveConnection key host (cc, w))"
  using RemoveConnection_no_empty [of cc key host w]
  by (simp add: drops_def RemoveConnection_lookup RemoveConnection_world)

lemma RemoveAllConnections_drops:
  assumes "enumerates iter"
  shows "drops (\<lambda>k h. k = key) (cc, w) (RemoveAllConnections iter key (cc, w))"
proof (cases "fmlookup (conns cc) key")
  case None
  then show ?thesis by (auto simp: RemoveAllConnections_def drops_def held_def)
next
  case (Some m)
  then have "held (conns cc) (\<lambda>k h. k = key) = {c. \<exists>h hd. fmlookup m h = Some hd \<and> cancelFn hd = c}"
    by (auto simp: held_def)
  with Some show ?thesis by (auto simp: RemoveAllConnections_def drops_def cancelAll_world [OF assms])
qed

lemma pool_Close_drops:
  assumes "enumerates iter"
  shows "drops (\<lambda>k h. True) (cc, w) (pool_Close iter (cc, w))"
proof -
  have "set (iter (fmdom (conns cc))) = fset (fmdom (conns cc))" using assms by (simp add: enumerates_def)
  then have "held (conns cc) (\<lambda>k h. True) =
      {c. \<exists>k \<in> set (iter (fmdom (conns cc))). \<exists>h hd. lookup2 (conns cc) k h = Some hd \<and> cancelFn hd = c}"
    unfolding held_def using lookup2_fmdom [of "conns cc"] by blast
  then show ?thesis by (simp add: pool_Close_def drops_def fold_cancelAll [OF assms])
qed

lemma drops_connected: "drops P (cc, w) (cc', w') \<Longrightarrow> connected cc' key = connected cc key - {h. P key h}"
  by (auto simp: drops_def connected_def)

lemma system_ok_at:
  assumes "system_ok s" and "at s tid pc"
  shows "pending_ok (pool s) pc"
  using assms by (simp add: system_ok_def)

lemma system_ok_drops:
  assumes "system_ok s" and "drops P (pool s, pworld s) (cc, w)"
  shows "system_ok (s\<lparr>pool := cc, pworld := w\<rparr>)"
proof -
  let ?s = "s\<lparr>pool := cc, pworld := w\<rparr>"
  have ok: "pool_ok (pool s, settled s)" using assms(1) by (simp add: system_ok_def)
  have "held (conns (pool s)) P \<subseteq> held (conns (pool s)) (\<lambda>_ _. True)" by (auto simp: held_def)
  also have "\<dots> = fset (live (pworld s)) - flight (calls s)" using ok by (auto simp: pool_ok_def settled_def)
  finally have dis: "held (conns (pool s)) P \<inter> flight (calls s) = {}" by auto
  have "pool_ok (cc, settled ?s)"
    using assms(2) ok by (intro pool_ok_dropI [OF ok, where P = P]) (auto simp: drops_def settled_def pool_ok_def)
  moreover have "pending_ok cc pc" if "at s tid pc" for tid pc
    using system_ok_at [OF assms(1) that] drops_connected [OF assms(2), of "pc_key pc"] by (auto simp: pending_ok_def)
  ultimately show ?thesis using assms dis by (auto simp: system_ok_def drops_def)
qed

subsection \<open>Steps of a goroutine\<close>

lemma other_keys:
  assumes "system_ok s" and "at s tid pc" and "tid' \<noteq> tid" and "at s tid' pc'"
  shows "pc_key pc' \<noteq> pc_key pc"
  using assms apartD [of "calls s" tid' pc' tid pc] by (simp add: system_ok_def)

text \<open>A step that touches neither the map nor the contexts.\<close>

lemma system_ok_goto:
  assumes "system_ok s" and "at s tid pc" and "pc_key pc' = pc_key pc" and "pc_ctx pc' = pc_ctx pc" and "pending_ok (pool s) pc'"
    and "live w = live (pworld s)" and "next_ctx w = next_ctx (pworld s)"
  shows "system_ok (goto tid pc' (s\<lparr>pworld := w\<rparr>))"
proof -
  let ?s = "goto tid pc' (s\<lparr>pworld := w\<rparr>)"
  have fl: "flight (calls ?s) = flight (calls s)"
    using flight_split [OF assms(2)] assms(4) by (simp add: goto_def flight_upd)
  have "set_option (pc_ctx pc') \<inter> flight (fmdrop tid (calls s)) = {}"
    using apart_ctx [OF _ assms(2)] assms(1,4) by (auto simp: system_ok_def)
  then have "apart (calls ?s)"
    using assms(1,3) other_keys [OF assms(1,2)] by (simp add: goto_def apart_upd apart_drop system_ok_def)
  moreover have "pool_ok (pool ?s, settled ?s)"
    using assms(1,6,7) fl pool_ok_cong [of "settled ?s" "settled s" "pool s"] by (simp add: system_ok_def settled_def goto_def)
  ultimately show ?thesis using assms(1,5-7) fl by (simp add: system_ok_def goto_def)
qed

lemma system_ok_finish:
  assumes "system_ok s" and "at s tid pc" and "pc_ctx pc = None" and "live w = live (pworld s)" and "next_ctx w = next_ctx (pworld s)"
  shows "system_ok (finish tid (s\<lparr>pworld := w\<rparr>))"
proof -
  let ?s = "finish tid (s\<lparr>pworld := w\<rparr>)"
  have fl: "flight (calls ?s) = flight (calls s)" using flight_split [OF assms(2)] assms(3) by (simp add: finish_def)
  have "pool_ok (pool ?s, settled ?s)"
    using assms(1,4,5) fl pool_ok_cong [of "settled ?s" "settled s" "pool s"] by (simp add: system_ok_def settled_def finish_def)
  then show ?thesis using assms(1,4,5) fl by (simp add: system_ok_def finish_def apart_drop)
qed

lemma system_ok_call:
  assumes "system_ok s" and "fmlookup (calls s) tid = None" and "\<not> busy s (pc_key pc)" and "pc_ctx pc = None" and "pending_ok (pool s) pc"
  shows "system_ok (goto tid pc s)"
proof -
  have fl: "flight (calls (goto tid pc s)) = flight (calls s)"
    using assms(2,4) by (simp add: goto_def flight_upd flight_new)
  have "apart (calls (goto tid pc s))"
    using assms(1-4) by (auto simp: goto_def system_ok_def busy_def apart_drop intro!: apart_upd)
  moreover have "settled (goto tid pc s) = settled s" using fl by (simp add: settled_def goto_def)
  ultimately show ?thesis using assms(1,5) fl by (simp add: system_ok_def goto_def)
qed

text \<open>A new context, in flight until its service is stored or the dial fails.\<close>

lemma system_ok_begin:
  assumes "system_ok s" and "at s tid pc" and "pc_key pc' = pc_key pc" and "pc_ctx pc = None" and "pc_ctx pc' = Some ctx"
    and "pending_ok (pool s) pc'" and "ctx = next_ctx (pworld s)" and "live w = finsert ctx (live (pworld s))" and "next_ctx w = Suc ctx"
  shows "system_ok (goto tid pc' (s\<lparr>pworld := w\<rparr>))"
proof -
  let ?s = "goto tid pc' (s\<lparr>pworld := w\<rparr>)"
  have lt: "\<forall>c \<in> fset (live (pworld s)). c < ctx" and sub: "flight (calls s) \<subseteq> fset (live (pworld s))"
    using assms(1,7) by (simp_all add: system_ok_def)
  have fl: "flight (fmdrop tid (calls s)) = flight (calls s)" using flight_split [OF assms(2)] assms(4) by simp
  have fl': "flight (calls ?s) = insert ctx (flight (calls s))" using fl assms(5) by (simp add: goto_def flight_upd)
  have new: "ctx \<notin> flight (calls s)" using lt sub by blast
  have "fset (live (settled ?s)) = fset (live (settled s))"
    using lt fl' assms(8) by (auto simp: settled_def goto_def)
  then have "pool_ok (pool ?s, settled ?s) \<longleftrightarrow> pool_ok (pool s, settled ?s)" by (simp add: goto_def)
  moreover have "pool_ok (pool s, settled ?s)"
    using assms(1,7,9) \<open>fset (live (settled ?s)) = fset (live (settled s))\<close>
    by (auto simp: system_ok_def pool_ok_def settled_def goto_def less_Suc_eq)
  moreover have "apart (calls ?s)"
    using assms(1,3,5) new fl other_keys [OF assms(1,2)] by (simp add: goto_def apart_upd apart_drop system_ok_def)
  moreover have "\<forall>c \<in> fset (live w). c < next_ctx w" using lt assms(8,9) by auto
  ultimately show ?thesis using assms(1,6,8) fl' sub by (auto simp: system_ok_def goto_def)
qed

lemma system_ok_failed:
  assumes "system_ok s" and "at s tid pc" and "pc_ctx pc = Some ctx" and "live w = live (pworld s) |-| {|ctx|}" and "next_ctx w = next_ctx (pworld s)"
  shows "system_ok (finish tid (s\<lparr>pworld := w\<rparr>))"
proof -
  let ?s = "finish tid (s\<lparr>pworld := w\<rparr>)"
  have own: "ctx \<notin> flight (fmdrop tid (calls s))" using apart_ctx [OF _ assms(2,3)] assms(1) by (simp add: system_ok_def)
  have fl: "flight (calls s) = insert ctx (flight (calls ?s))" using flight_split [OF assms(2)] assms(3) by (simp add: finish_def)
  have "fset (live (settled ?s)) = fset (live (settled s))"
    using fl assms(4) by (auto simp: settled_def finish_def)
  then have "pool_ok (pool ?s, settled ?s)"
    using assms(1,5) pool_ok_cong [of "settled ?s" "settled s" "pool s"] by (simp add: system_ok_def settled_def finish_def)
  then show ?thesis using assms(1,4,5) fl own by (auto simp: system_ok_def finish_def apart_drop)
qed

lemma store_service_lookup:
  "lookup2 (conns (store_service key host svc ctx cc)) k h =
     (if k = key \<and> h = host then Some \<lparr>service = svc, cancelFn = ctx\<rparr> else lookup2 (conns cc) k h)"
  by (cases "fmlookup (conns cc) key") (auto simp: store_service_def Let_def)

lemma store_service_no_empty:
  assumes "no_empty_inner (conns cc)"
  shows "no_empty_inner (conns (store_service key host svc ctx cc))"
  unfolding store_service_def Let_def using assms by (auto intro!: no_empty_inner_fmupd)

lemma store_service_connected:
  "connected (store_service key host svc ctx cc) k = connected cc k \<union> (if k = key then {host} else {})"
  by (auto simp: connected_def store_service_lookup)

text \<open>Storing a service moves its context from the goroutine to the map.\<close>

lemma store_service_ok:
  assumes "pool_ok (cc, w)" and "lookup2 (conns cc) key host = None" and "ctx \<notin> fset (live w)" and "ctx < next_ctx w"
    and "fset (live w') = insert ctx (fset (live w))" and "next_ctx w' = next_ctx w"
  shows "pool_ok (store_service key host svc ctx cc, w')"
proof -
  let ?cc = "store_service key host svc ctx cc"
  have all: "fset (live w) = held (conns cc) (\<lambda>_ _. True)" using assms(1) by (simp add: pool_ok_def)
  then have old: "cancelFn hd \<noteq> ctx" if "lookup2 (conns cc) k h = Some hd" for k h hd
    using that assms(3) by (auto simp: held_def)
  have "held (conns ?cc) (\<lambda>_ _. True) = insert ctx (held (conns cc) (\<lambda>_ _. True))"
    using held_update [of "conns ?cc" key host "\<lparr>service = svc, cancelFn = ctx\<rparr>" "conns cc", OF store_service_lookup assms(2)] by simp
  moreover have "k = k' \<and> h = h'"
    if "lookup2 (conns ?cc) k h = Some hd" "lookup2 (conns ?cc) k' h' = Some hd'" "cancelFn hd = cancelFn hd'" for k h hd k' h' hd'
    using that old [of k h hd] old [of k' h' hd'] assms(1) by (auto simp: store_service_lookup pool_ok_def split: if_splits)
  ultimately show ?thesis
    using assms(1,4-6) all store_service_no_empty [of cc] by (auto simp: pool_ok_def)
qed

lemma system_ok_store:
  assumes "system_ok s" and "at s tid (PStore key host ctx svc cb rest)"
  shows "system_ok (goto tid (PNotify key host svc cb rest) (s\<lparr>pool := store_service key host svc ctx (pool s)\<rparr>))"
proof -
  let ?cc = "store_service key host svc ctx (pool s)"
  let ?s = "goto tid (PNotify key host svc cb rest) (s\<lparr>pool := ?cc\<rparr>)"
  note pend = system_ok_at [OF assms]
  have own: "ctx \<notin> flight (fmdrop tid (calls s))" using apart_ctx [OF _ assms(2)] assms(1) by (simp add: system_ok_def)
  have fl: "flight (calls s) = insert ctx (flight (calls ?s))"
    using flight_split [OF assms(2)] by (simp add: goto_def flight_upd)
  have fl': "flight (calls ?s) = flight (fmdrop tid (calls s))" by (simp add: goto_def flight_upd)
  have liv: "ctx \<in> fset (live (pworld s))" and lt: "\<forall>c \<in> fset (live (pworld s)). c < next_ctx (pworld s)"
    using assms(1) fl by (auto simp: system_ok_def)
  have "pool_ok (?cc, settled ?s)"
  proof (rule store_service_ok)
    show "pool_ok (pool s, settled s)" using assms(1) by (simp add: system_ok_def)
    show "lookup2 (conns (pool s)) key host = None" using pend by (auto simp: pending_ok_def connected_def)
    show "ctx \<notin> fset (live (settled s))" "ctx < next_ctx (settled s)" "next_ctx (settled ?s) = next_ctx (settled s)"
      using fl liv lt by (auto simp: settled_def goto_def)
    show "fset (live (settled ?s)) = insert ctx (fset (live (settled s)))"
      using fl fl' own liv by (auto simp: settled_def goto_def)
  qed
  moreover have "apart (calls ?s)"
    using assms(1) other_keys [OF assms] by (simp add: goto_def apart_upd apart_drop system_ok_def)
  moreover have "pending_ok ?cc pc" if "at ?s tid' pc" for tid' pc
  proof (cases "tid' = tid")
    case True
    with that pend show ?thesis by (auto simp: goto_def pending_ok_def store_service_connected)
  next
    case False
    with that have pc: "at s tid' pc" by (simp add: goto_def)
    with other_keys [OF assms False pc] system_ok_at [OF assms(1) pc] show ?thesis
      by (simp add: pending_ok_def store_service_connected)
  qed
  ultimately show ?thesis using assms(1) fl by (auto simp: system_ok_def goto_def)
qed

lemma dials_tasks [simp]: "dials (map (\<lambda>h. Dial h cb) hs @ map (\<lambda>h. Remove h cb') hs') = hs"
proof -
  have "dials (map (\<lambda>h. Remove h cb') hs') = []" by (induction hs') auto
  then show ?thesis by (induction hs) auto
qed

lemma dial_step_ok:
  assumes "dial_step start s l s'" and "system_ok s" and "admitted s l"
  shows "system_ok s'"
  using assms(1)
proof cases
  case (dial_call tid key host)
  with assms(2,3) show ?thesis by (auto simp: pending_ok_def intro!: system_ok_call)
next
  case (dial_no_dialer tid key host cb rest err x)
  show ?thesis unfolding dial_no_dialer by (rule system_ok_finish [OF assms(2) dial_no_dialer(3)]) simp_all
next
  case (dial_begin tid key host cb rest dialer x ctx w)
  show ?thesis unfolding dial_begin
    by (rule system_ok_begin [OF assms(2) dial_begin(3)])
       (use dial_begin(5) system_ok_at [OF assms(2) dial_begin(3)] in \<open>auto simp: WithCancel_def pending_ok_def\<close>)
next
  case (dial_failed tid key host ctx dialer cb rest err x)
  show ?thesis unfolding dial_failed by (rule system_ok_failed [OF assms(2) dial_failed(3)]) (simp_all add: cancel_def)
next
  case (dial_started tid key host ctx dialer cb rest svc x)
  show ?thesis unfolding dial_started
    by (rule system_ok_goto [OF assms(2) dial_started(3)])
       (use system_ok_at [OF assms(2) dial_started(3)] in \<open>simp_all add: pending_ok_def\<close>)
next
  case (dial_store tid key host ctx svc cb rest)
  show ?thesis unfolding dial_store by (rule system_ok_store [OF assms(2) dial_store(3)])
qed

lemma reconcile_step_ok:
  assumes "reconcile_step iter s l s'" and "system_ok s" and "admitted s l" and "enumerates iter"
  shows "system_ok s'"
  using assms(1)
proof cases
  case (rec_call tid key want newCb oldCb)
  with assms(2,3) show ?thesis by (auto simp: pending_ok_def intro!: system_ok_call)
next
  case (rec_read tid key want newCb oldCb existing)
  have "set existing = connected (pool s) key" using GetConnectedHosts_set(1) [OF assms(4)] rec_read by simp
  then have "pending_ok (pool s) (PTasks key (map (\<lambda>h. Dial h newCb) (setDifference want existing) @
      map (\<lambda>h. Remove h oldCb) (setDifference existing want)))"
    using system_ok_at [OF assms(2) rec_read(3)] by (auto simp: pending_ok_def setDifference_eq)
  from system_ok_goto [OF assms(2) rec_read(3) _ _ this, of "pworld s"] show ?thesis by (simp add: rec_read(2))
next
  case (rec_new tid key host svc cb rest)
  show ?thesis unfolding rec_new
    by (rule system_ok_goto [OF assms(2) rec_new(3)])
       (use system_ok_at [OF assms(2) rec_new(3)] in \<open>simp_all add: pending_ok_def split: option.splits\<close>)
next
  case (rec_old tid key host cb rest)
  show ?thesis unfolding rec_old
    by (rule system_ok_goto [OF assms(2) rec_old(3)])
       (use system_ok_at [OF assms(2) rec_old(3)] in \<open>simp_all add: pending_ok_def split: option.splits\<close>)
next
  case (rec_remove tid key host rest cc w)
  have "drops (\<lambda>k h. k = key \<and> h = host) (pool s, pworld s) (cc, w)"
    using RemoveConnection_drops [of key host "pool s" "pworld s"] rec_remove(4) by simp
  note ok = system_ok_drops [OF assms(2) this]
  have "at (s\<lparr>pool := cc, pworld := w\<rparr>) tid (PRemove key host rest)" using rec_remove(3) by simp
  with system_ok_goto [OF ok this, where w = w and pc' = "PTasks key rest"] system_ok_at [OF ok this] show ?thesis
    by (simp add: rec_remove(2) pending_ok_def)
next
  case (rec_return tid key)
  show ?thesis using system_ok_finish [OF assms(2) rec_return(3), where w = "pworld s"] by (simp add: rec_return(2))
qed

lemma worker_step_ok:
  assumes "worker_step iter start s l s'" and "enumerates iter" and "system_ok s"
  shows "system_ok s'"
proof -
  have "pool_system_step iter start s l s'" "admitted s l" using assms(1) by (auto simp: worker_step_def)
  then show ?thesis
  proof (cases rule: pool_system_step.cases)
    case (sys_remove key host cc w)
    then show ?thesis
      using system_ok_drops [OF assms(3)] RemoveConnection_drops [of key host "pool s" "pworld s"] by metis
  next
    case (sys_removeAll key cc w)
    then show ?thesis
      using system_ok_drops [OF assms(3)] RemoveAllConnections_drops [OF assms(2), of key "pool s" "pworld s"] by metis
  next
    case (sys_close cc w)
    then show ?thesis using system_ok_drops [OF assms(3)] pool_Close_drops [OF assms(2), of "pool s" "pworld s"] by metis
  qed (use assms dial_step_ok reconcile_step_ok in blast)+
qed

lemma start_pool_system_ok: "conns cc = fmempty \<Longrightarrow> live w = {||} \<Longrightarrow> system_ok (start_pool_system cc w)"
  by (simp add: system_ok_def start_pool_system_def settled_def flight_def apart_def pool_ok_def held_def)

lemma worker_runs_ok:
  assumes "runs (worker_step iter start) (start_pool_system cc w) ls s" and "enumerates iter" and "conns cc = fmempty" and "live w = {||}"
  shows "system_ok s"
  by (rule runs_invariant [where I = system_ok, OF assms(1) start_pool_system_ok [OF assms(3,4)]]) (rule worker_step_ok [OF _ assms(2)])

section \<open>One reconciliation among other calls\<close>

text \<open>The hosts of its key after the remaining tasks of a goroutine, if it is left alone with the key.\<close>

fun after :: "('svc, 'w) pool_task list \<Rightarrow> string set \<Rightarrow> string set" where
  "after [] C = C"
| "after (Dial host cb # ts) C = after ts (insert host C)"
| "after (Remove host cb # ts) C = after ts (C - {host})"

fun pc_after :: "('svc, 'd, 'w) pool_pc \<Rightarrow> string set \<Rightarrow> string set" where
  "pc_after (PReconcile key want newCb oldCb) C = set want"
| "pc_after (PTasks key rest) C = after rest C"
| "pc_after (PDialing key host ctx dialer cb rest) C = after rest (insert host C)"
| "pc_after (PStore key host ctx svc cb rest) C = after rest (insert host C)"
| "pc_after (PNotify key host svc cb rest) C = after rest C"
| "pc_after (PRemove key host rest) C = after rest (C - {host})"

text \<open>The calls by others that would interfere.\<close>

fun disturbs :: "string \<Rightarrow> pool_label \<Rightarrow> bool" where
  "disturbs key (LDial tid k host) \<longleftrightarrow> k = key"
| "disturbs key (LReconcile tid k want) \<longleftrightarrow> k = key"
| "disturbs key (LRemove k host) \<longleftrightarrow> k = key"
| "disturbs key (LRemoveAll k) \<longleftrightarrow> k = key"
| "disturbs key LClose \<longleftrightarrow> True"
| "disturbs key _ \<longleftrightarrow> False"

definition on_track :: "nat \<Rightarrow> string \<Rightarrow> string set \<Rightarrow> ('svc, 'd, 'w) pool_system \<Rightarrow> bool" where
  "on_track tid key W s \<longleftrightarrow> (\<forall>pc. at s tid pc \<longrightarrow> pc_key pc = key \<longrightarrow> pc_after pc (connected (pool s) key) = W)"

lemma after_tasks: "after (map (\<lambda>h. Dial h cb) hs @ map (\<lambda>h. Remove h cb') hs') C = C \<union> set hs - set hs'"
proof -
  have "after (map (\<lambda>h. Remove h cb') hs') C = C - set hs'" for C by (induction hs' arbitrary: C) auto
  then show ?thesis by (induction hs arbitrary: C) auto
qed

lemma on_track_goto:
  assumes "on_track tid key W s" and "system_ok s" and "at s tid' pc" and "pc_key pc' = pc_key pc"
    and "pc_key pc \<noteq> key \<Longrightarrow> connected cc key = connected (pool s) key"
    and "pc_key pc = key \<Longrightarrow> pc_after pc' (connected cc key) = pc_after pc (connected (pool s) key)"
  shows "on_track tid key W (goto tid' pc' (s\<lparr>pool := cc, pworld := w\<rparr>))"
proof (cases "tid' = tid")
  case True
  with assms show ?thesis by (auto simp: on_track_def goto_def)
next
  case False
  have "connected cc key = connected (pool s) key" if "at s tid p" "pc_key p = key" for p
    using other_keys [OF assms(2,3) _ that(1)] False that(2) assms(5) by auto
  then show ?thesis using assms(1) False by (auto simp: on_track_def goto_def)
qed

lemma on_track_goto_same:
  assumes "on_track tid key W s" and "system_ok s" and "at s tid' pc" and "pc_key pc' = pc_key pc"
    and "pc_after pc' (connected (pool s) (pc_key pc)) = pc_after pc (connected (pool s) (pc_key pc))"
  shows "on_track tid key W (goto tid' pc' (s\<lparr>pworld := w\<rparr>))"
  using on_track_goto [OF assms(1-4), of "pool s" w] assms(5) by auto

lemma on_track_finish: "on_track tid key W s \<Longrightarrow> on_track tid key W (finish tid' (s\<lparr>pworld := w\<rparr>))"
  by (auto simp: on_track_def finish_def split: if_splits)

lemma dial_step_on_track:
  assumes "dial_step start s l s'" and "system_ok s" and "on_track tid key W s" and "\<not> disturbs key l"
  shows "on_track tid key W s'"
  using assms(1)
proof cases
  case (dial_call tid' k host)
  with assms(3,4) show ?thesis by (auto simp: on_track_def goto_def)
next
  case (dial_store tid' k host ctx svc cb rest)
  have "on_track tid key W (goto tid' (PNotify k host svc cb rest) (s\<lparr>pool := store_service k host svc ctx (pool s), pworld := pworld s\<rparr>))"
    by (rule on_track_goto [OF assms(3,2) dial_store(3)]) (auto simp: store_service_connected)
  then show ?thesis by (simp add: dial_store(2))
qed (use assms(2,3) in \<open>auto intro!: on_track_finish on_track_goto_same\<close>)

lemma reconcile_step_on_track:
  assumes "reconcile_step iter s l s'" and "enumerates iter" and "system_ok s" and "on_track tid key W s" and "\<not> disturbs key l"
  shows "on_track tid key W s'"
  using assms(1)
proof cases
  case (rec_call tid' k want newCb oldCb)
  with assms(4,5) show ?thesis by (auto simp: on_track_def goto_def)
next
  case (rec_read tid' k want newCb oldCb existing)
  have "set existing = connected (pool s) k" using GetConnectedHosts_set(1) [OF assms(2)] rec_read by simp
  then have "on_track tid key W (goto tid' (PTasks k (map (\<lambda>h. Dial h newCb) (setDifference want existing) @
      map (\<lambda>h. Remove h oldCb) (setDifference existing want))) (s\<lparr>pworld := pworld s\<rparr>))"
    by (intro on_track_goto_same [OF assms(4,3) rec_read(3)]) (auto simp: after_tasks setDifference_eq)
  then show ?thesis by (simp add: rec_read(2))
next
  case (rec_remove tid' k host rest cc w)
  have "connected cc k' = connected (pool s) k' - {h. k' = k \<and> h = host}" for k'
    using drops_connected [of _ "pool s" "pworld s" cc w] RemoveConnection_drops [of k host "pool s" "pworld s"] rec_remove(4) by metis
  then show ?thesis unfolding rec_remove
    by (intro on_track_goto [OF assms(4,3) rec_remove(3)]) auto
next
  case (rec_return tid' k)
  then show ?thesis using on_track_finish [OF assms(4), of tid' "pworld s"] by simp
qed (use assms(3,4) in \<open>auto intro!: on_track_goto_same\<close>)

lemma drops_on_track:
  assumes "on_track tid key W s" and "drops P (pool s, pworld s) (cc, w)" and "\<And>h. \<not> P key h"
  shows "on_track tid key W (s\<lparr>pool := cc, pworld := w\<rparr>)"
  using assms(1,3) drops_connected [OF assms(2), of key] by (simp add: on_track_def)

lemma worker_step_on_track:
  assumes "worker_step iter start s l s'" and "enumerates iter" and "system_ok s" and "on_track tid key W s" and "\<not> disturbs key l"
  shows "on_track tid key W s'"
proof -
  have "pool_system_step iter start s l s'" using assms(1) by (simp add: worker_step_def)
  then show ?thesis
  proof (cases rule: pool_system_step.cases)
    case (sys_remove k host cc w)
    with RemoveConnection_drops [of k host "pool s" "pworld s"] assms(5) show ?thesis
      using drops_on_track [OF assms(4), of "\<lambda>k' h. k' = k \<and> h = host" cc w] by simp
  next
    case (sys_removeAll k cc w)
    with RemoveAllConnections_drops [OF assms(2), of k "pool s" "pworld s"] assms(5) show ?thesis
      using drops_on_track [OF assms(4), of "\<lambda>k' h. k' = k" cc w] by simp
  qed (use assms dial_step_on_track reconcile_step_on_track in auto)
qed

lemma worker_runs_on_track:
  assumes "runs (worker_step iter start) s ls t" and "enumerates iter" and "system_ok s" and "on_track tid key W s"
    and "list_all (\<lambda>l. \<not> disturbs key l) ls"
  shows "system_ok t \<and> on_track tid key W t"
  using assms(1,3-5)
proof (induction rule: runs.induct)
  case (runs_snoc s ls t l u)
  then show ?case
    using worker_step_ok [OF runs_snoc.hyps(2) assms(2)] worker_step_on_track [OF runs_snoc.hyps(2) assms(2)] by simp
qed simp

section \<open>Examples\<close>

definition example_pool :: "(string, unit, string list) controlPlaneConnectionPoolImpl" where
  "example_pool = NewControlPlaneConnectionPool None (\<lambda>_. ()) (map WithServiceWrapper [])"

definition example_world :: "string list pool_world" where
  "example_world = \<lparr>next_ctx = 0, live = {||}, io = []\<rparr>"

lemma example_pool_simps [simp]:
  "conns example_pool = fmempty" "tlsDialerFactory example_pool = None" "baseDialOptions example_pool = ()"
  "serviceWrapperFactories example_pool = []" "connected example_pool key = {}"
  by (simp_all add: example_pool_def NewControlPlaneConnectionPool_def connected_def)

lemmas worker_cons = runs_cons [of "worker_step sorted_iter log_start"]
lemmas pool_cons = runs_cons [of "pool_system_step sorted_iter log_start"]

text \<open>A dial that is under way while the pool is closed.\<close>

lemma dial_across_close:
  "\<exists>s. runs (worker_step sorted_iter log_start) (start_pool_system example_pool example_world)
       [LDial 0 ''src'' ''10.0.0.1'', LWork 0, LClose] s \<and> live (pworld s) = {|0|} \<and> conns (pool s) = fmempty"
proof -
  let ?s = "start_pool_system example_pool example_world"
  let ?w = "\<lparr>next_ctx = 1, live = {|0|}, io = []\<rparr> :: string list pool_world"
  let ?a = "goto 0 (PTasks ''src'' [Dial ''10.0.0.1'' None]) ?s"
  let ?b = "goto 0 (PDialing ''src'' ''10.0.0.1'' 0 () None []) (?a\<lparr>pworld := ?w\<rparr>)"
  have 1: "worker_step sorted_iter log_start ?s (LDial 0 ''src'' ''10.0.0.1'') ?a"
    by (auto simp: worker_step_def start_pool_system_def busy_def intro!: sys_dial dial_call)
  have 2: "worker_step sorted_iter log_start ?a (LWork 0) ?b"
    unfolding worker_step_def
    by (intro conjI sys_dial dial_begin [where x = "[]"])
       (simp_all add: goto_def start_pool_system_def dialer_for_def WithCancel_def example_world_def)
  have "pool_Close sorted_iter (pool ?b, pworld ?b) = (pool ?b, pworld ?b)"
    by (simp add: pool_Close_def goto_def start_pool_system_def sorted_iter_def sorted_list_of_fset.rep_eq)
  then have 3: "worker_step sorted_iter log_start ?b LClose ?b"
    using sys_close [of sorted_iter ?b "pool ?b" "pworld ?b" log_start] by (simp add: worker_step_def)
  have "runs (worker_step sorted_iter log_start) ?s [LDial 0 ''src'' ''10.0.0.1'', LWork 0, LClose] ?b"
    by (rule worker_cons [OF 1 worker_cons [OF 2 worker_cons [OF 3 runs_nil]]])
  then show ?thesis by (intro exI [of _ ?b]) (simp add: goto_def start_pool_system_def)
qed

text \<open>The steps of a goroutine of the example pool, in any state of the other ones.\<close>

lemma example_steps:
  fixes cs :: "(nat, (string, unit, string list) pool_pc) fmap"
  defines "S \<equiv> \<lambda>m n L x cs. \<lparr>pool = example_pool\<lparr>conns := m\<rparr>, pworld = \<lparr>next_ctx = n, live = L, io = x\<rparr>, calls = cs\<rparr>"
  shows "fmlookup cs tid = None \<Longrightarrow> pool_system_step sorted_iter log_start (S m n L x cs) (LReconcile tid key want) (S m n L x (fmupd tid (PReconcile key want None None) cs))"
    and "fmlookup cs tid = Some (PReconcile key [host] None None) \<Longrightarrow> fmlookup m key = None \<Longrightarrow>
      pool_system_step sorted_iter log_start (S m n L x cs) (LWork tid) (S m n L x (fmupd tid (PTasks key [Dial host None]) cs))"
    and "fmlookup cs tid = Some (PTasks key [Dial host None]) \<Longrightarrow>
      pool_system_step sorted_iter log_start (S m n L x cs) (LWork tid) (S m (Suc n) (finsert n L) x (fmupd tid (PDialing key host n () None []) cs))"
    and "fmlookup cs tid = Some (PDialing key host c () None []) \<Longrightarrow>
      pool_system_step sorted_iter log_start (S m n L x cs) (LWork tid) (S m n L (x @ [host]) (fmupd tid (PStore key host c host None []) cs))"
    and "fmlookup cs tid = Some (PStore key host c host None []) \<Longrightarrow>
      pool_system_step sorted_iter log_start (S m n L x cs) (LWork tid)
        (S (conns (store_service key host host c (example_pool\<lparr>conns := m\<rparr>))) n L x (fmupd tid (PNotify key host host None []) cs))"
    and "fmlookup cs tid = Some (PNotify key host host None []) \<Longrightarrow>
      pool_system_step sorted_iter log_start (S m n L x cs) (LWork tid) (S m n L x (fmupd tid (PTasks key []) cs))"
proof (goal_cases)
  case 1
  then show ?case using rec_call [of "S m n L x cs" tid sorted_iter key want None None] by (simp add: S_def goto_def sys_reconcile)
next
  case 2
  then show ?case using rec_read [of "S m n L x cs" tid key "[host]" None None _ sorted_iter, OF _ refl]
    by (simp add: S_def goto_def sys_reconcile GetConnectedHosts_def setDifference_eq)
next
  case 3
  then show ?case using dial_begin [of "S m n L x cs" tid key host None "[]" "()" x n _ log_start]
    by (auto simp: S_def goto_def sys_dial dialer_for_def WithCancel_def)
next
  case 4
  then show ?case using dial_started [of "S m n L x cs" tid key host c "()" None "[]" log_start host "x @ [host]"]
    by (simp add: S_def goto_def sys_dial log_start_def)
next
  case 5
  then show ?case using dial_store [of "S m n L x cs" tid key host c host None "[]" log_start]
    by (simp add: S_def goto_def sys_dial store_service_def Let_def)
next
  case 6
  then show ?case using rec_new [of "S m n L x cs" tid key host host None "[]" sorted_iter] by (simp add: S_def goto_def sys_reconcile)
qed


text \<open>A reconciliation of one key with a call for another key begun in between.\<close>

lemma reconcile_beside_dial:
  "\<exists>s t newCb oldCb. runs (worker_step sorted_iter log_start) (start_pool_system example_pool example_world)
       [LReconcile 0 ''src'' [''10.0.0.1'']] s \<and> at s 0 (PReconcile ''src'' [''10.0.0.1''] newCb oldCb) \<and>
     runs (worker_step sorted_iter log_start) s [LWork 0, LWork 0, LReconcile 1 ''other'' [''10.0.0.1''], LWork 0, LWork 0, LWork 0] t \<and>
     at t 0 (PTasks ''src'' [])"
proof -
  let ?S = "\<lambda>m n L x cs. \<lparr>pool = example_pool\<lparr>conns := m\<rparr>, pworld = \<lparr>next_ctx = n, live = L, io = x\<rparr>, calls = cs\<rparr>
    :: (string, unit, string list) pool_system"
  let ?h = "''10.0.0.1''" and ?up = "\<lambda>pc cs. fmupd (0 :: nat) pc cs"
  let ?m = "conns (store_service ''src'' ?h ?h 0 (example_pool\<lparr>conns := fmempty\<rparr>))"
  let ?c1 = "?up (PReconcile ''src'' [?h] None None) fmempty" let ?c2 = "?up (PTasks ''src'' [Dial ?h None]) ?c1"
  let ?c3 = "?up (PDialing ''src'' ?h 0 () None []) ?c2" let ?c4 = "fmupd 1 (PReconcile ''other'' [?h] None None) ?c3"
  let ?c5 = "?up (PStore ''src'' ?h 0 ?h None []) ?c4" let ?c6 = "?up (PNotify ''src'' ?h ?h None []) ?c5" let ?c7 = "?up (PTasks ''src'' []) ?c6"
  have init: "start_pool_system example_pool example_world = ?S fmempty 0 {||} [] fmempty"
    by (simp add: start_pool_system_def example_world_def example_pool_def NewControlPlaneConnectionPool_def)
  have 1: "worker_step sorted_iter log_start (?S fmempty 0 {||} [] fmempty) (LReconcile 0 ''src'' [?h]) (?S fmempty 0 {||} [] ?c1)"
    using example_steps(1) by (simp add: worker_step_def busy_def)
  have 2: "worker_step sorted_iter log_start (?S fmempty 0 {||} [] ?c1) (LWork 0) (?S fmempty 0 {||} [] ?c2)"
    unfolding worker_step_def by (intro conjI example_steps(2)) simp_all
  have 3: "worker_step sorted_iter log_start (?S fmempty 0 {||} [] ?c2) (LWork 0) (?S fmempty 1 {|0|} [] ?c3)"
    using example_steps(3) [of ?c2 0 "''src''" ?h fmempty 0 "{||}" "[]"] by (simp add: worker_step_def)
  have 4: "worker_step sorted_iter log_start (?S fmempty 1 {|0|} [] ?c3) (LReconcile 1 ''other'' [?h]) (?S fmempty 1 {|0|} [] ?c4)"
    using example_steps(1) [of ?c3 1] by (auto simp: worker_step_def busy_def split: if_splits)
  have 5: "worker_step sorted_iter log_start (?S fmempty 1 {|0|} [] ?c4) (LWork 0) (?S fmempty 1 {|0|} ([] @ [?h]) ?c5)"
    unfolding worker_step_def by (intro conjI example_steps(4)) simp_all
  have 6: "worker_step sorted_iter log_start (?S fmempty 1 {|0|} ([] @ [?h]) ?c5) (LWork 0) (?S ?m 1 {|0|} ([] @ [?h]) ?c6)"
    unfolding worker_step_def by (intro conjI example_steps(5)) simp_all
  have 7: "worker_step sorted_iter log_start (?S ?m 1 {|0|} ([] @ [?h]) ?c6) (LWork 0) (?S ?m 1 {|0|} ([] @ [?h]) ?c7)"
    unfolding worker_step_def by (intro conjI example_steps(6)) simp_all
  show ?thesis unfolding init
    using worker_cons [OF 1 runs_nil]
      worker_cons [OF 2 worker_cons [OF 3 worker_cons [OF 4 worker_cons [OF 5 worker_cons [OF 6 worker_cons [OF 7 runs_nil]]]]]]
    by (intro exI [of _ "?S fmempty 0 {||} [] ?c1"] exI [of _ "?S ?m 1 {|0|} ([] @ [?h]) ?c7"] exI [of _ None]) simp
qed

text \<open>
  Two reconciliations of the same key that are not kept apart leak a connection: both find the host missing, both
  dial it, and the second entry replaces the first.  The context \<open>0\<close> is still running, but no entry and no call has it.
\<close>

lemma concurrent_reconciles_leak:
  "\<exists>ls s. runs (pool_system_step sorted_iter log_start) (start_pool_system example_pool example_world) ls s \<and>
     0 |\<in>| live (pworld s) \<and> 0 \<notin> held (conns (pool s)) (\<lambda>_ _. True) \<and> 0 \<notin> flight (calls s)"
proof -
  let ?S = "\<lambda>m n L x cs. \<lparr>pool = example_pool\<lparr>conns := m\<rparr>, pworld = \<lparr>next_ctx = n, live = L, io = x\<rparr>, calls = cs\<rparr>
    :: (string, unit, string list) pool_system"
  let ?h = "''10.0.0.1''" and ?k = "''src''"
  let ?R = "PReconcile ?k [?h] None None" and ?T = "PTasks ?k [Dial ?h None]" and ?D = "\<lambda>c. PDialing ?k ?h c () None []"
  let ?P = "\<lambda>c. PStore ?k ?h c ?h None []" and ?N = "PNotify ?k ?h ?h None []"
  let ?st = "\<lambda>c m. conns (store_service ?k ?h ?h c (example_pool\<lparr>conns := m\<rparr>))"
  let ?c1 = "fmupd (0 :: nat) ?R fmempty" let ?c2 = "fmupd 1 ?R ?c1" let ?c3 = "fmupd 0 ?T ?c2" let ?c4 = "fmupd 1 ?T ?c3"
  let ?c5 = "fmupd 0 (?D 0) ?c4" let ?c6 = "fmupd 1 (?D (Suc 0)) ?c5" let ?c7 = "fmupd 0 (?P 0) ?c6" let ?c8 = "fmupd 1 (?P (Suc 0)) ?c7"
  let ?c9 = "fmupd 0 ?N ?c8" let ?e = "fmupd 1 ?N ?c9"
  let ?L = "finsert (Suc 0) (finsert 0 {||})" and ?x = "([] @ [?h]) @ [?h]"
  let ?t = "?S (?st (Suc 0) (?st 0 fmempty)) (Suc (Suc 0)) ?L ?x ?e"
  have init: "start_pool_system example_pool example_world = ?S fmempty 0 {||} [] fmempty"
    by (simp add: start_pool_system_def example_world_def example_pool_def NewControlPlaneConnectionPool_def)
  have "runs (pool_system_step sorted_iter log_start) (?S fmempty 0 {||} [] fmempty)
      [LReconcile 0 ?k [?h], LReconcile 1 ?k [?h], LWork 0, LWork 1, LWork 0, LWork 1, LWork 0, LWork 1, LWork 0, LWork 1] ?t"
    by (rule pool_cons [OF example_steps(1) pool_cons [OF example_steps(1) pool_cons [OF example_steps(2) pool_cons [OF example_steps(2)
         pool_cons [OF example_steps(3) pool_cons [OF example_steps(3) pool_cons [OF example_steps(4) pool_cons [OF example_steps(4)
         pool_cons [OF example_steps(5) pool_cons [OF example_steps(5) runs_nil]]]]]]]]]]) simp_all
  moreover have "0 \<notin> held (conns (pool ?t)) (\<lambda>_ _. True)"
    by (auto simp: held_def store_service_lookup split: if_splits)
  moreover have "0 \<notin> flight (calls ?t)" by (auto simp: flight_def split: if_splits)
  ultimately show ?thesis unfolding init
    by (intro exI [of _ "[LReconcile 0 ?k [?h], LReconcile 1 ?k [?h], LWork 0, LWork 1, LWork 0, LWork 1, LWork 0, LWork 1, LWork 0, LWork 1]"]
          exI [of _ ?t]) simp
qed

section \<open>Properties\<close>

text \<open>
  C11. The pool does not leak under concurrent use either: let any number of goroutines dial, reconcile, remove and close, in
  any interleaving of their locked regions and with dials that fail at will; as long as no two of them dial or reconcile the
  same key at the same time, and no host is dialled that is connected or wanted twice, the running connections are
  at every moment exactly those that the pool holds and those that a call is about to store or cancel, and these are
  different ones.  When no call is under way, the pool is as after a sequence of calls.
\<close>

theorem concurrent_pool_never_leaks:
  assumes "enumerates iter" and "live w0 = {||}"
    and "runs (worker_step iter start) (start_pool_system (NewControlPlaneConnectionPool tls d (map WithServiceWrapper wrappers)) w0) ls s"
  shows "fset (live (pworld s)) = held (conns (pool s)) (\<lambda>_ _. True) \<union> flight (calls s) \<and>
    held (conns (pool s)) (\<lambda>_ _. True) \<inter> flight (calls s) = {} \<and> (calls s = fmempty \<longrightarrow> pool_ok (pool s, pworld s))"
proof -
  have ok: "system_ok s" by (rule worker_runs_ok [OF assms(3,1) _ assms(2)]) simp
  then have held: "held (conns (pool s)) (\<lambda>_ _. True) = fset (live (pworld s)) - flight (calls s)"
    by (auto simp: system_ok_def pool_ok_def settled_def)
  moreover have "pool_ok (pool s, pworld s)" if "calls s = fmempty"
    using ok that pool_ok_cong [of "settled s" "pworld s" "pool s"] by (simp add: system_ok_def settled_def flight_def)
  ultimately show ?thesis using ok by (auto simp: system_ok_def)
qed

theorem concurrent_pool_never_leaks_witness:
  "\<exists>s. runs (worker_step sorted_iter log_start) (start_pool_system example_pool example_world)
       [LDial 0 ''src'' ''10.0.0.1'', LWork 0, LClose] s \<and> fset (live (pworld s)) = {0} \<and> flight (calls s) = {0}"
proof -
  obtain s where s: "runs (worker_step sorted_iter log_start) (start_pool_system example_pool example_world)
       [LDial 0 ''src'' ''10.0.0.1'', LWork 0, LClose] s" "live (pworld s) = {|0|}" "conns (pool s) = fmempty"
    using dial_across_close by blast
  have "held (conns (pool s)) (\<lambda>_ _. True) = {}" using s(3) by (simp add: held_def)
  with concurrent_pool_never_leaks [OF enumerates_sorted_iter _ s(1) [unfolded example_pool_def]] s show ?thesis
    by (auto simp: example_world_def)
qed

text \<open>
  C13. A reconciliation reaches the wanted hosts in the middle of other calls: from where \<open>ReconcileConnections\<close> starts to where
  it is about to return without an error, other goroutines may run in any interleaving; as long as they do not
  touch this key and do not close the pool (and calls on other keys, too, respect \<open>admitted\<close>), the key is then connected to exactly the wanted hosts.
\<close>

theorem concurrent_reconcile_reaches_wanted_hosts:
  assumes "enumerates iter" and "live w0 = {||}"
    and "runs (worker_step iter start) (start_pool_system (NewControlPlaneConnectionPool tls d (map WithServiceWrapper wrappers)) w0) ls0 s"
    and "at s tid (PReconcile key want newCb oldCb)" and "runs (worker_step iter start) s ls t"
    and "list_all (\<lambda>l. \<not> disturbs key l) ls" and "at t tid (PTasks key [])"
  shows "connected (pool t) key = set want"
proof -
  have "system_ok s" by (rule worker_runs_ok [OF assms(3,1) _ assms(2)]) simp
  moreover have "on_track tid key (set want) s" using assms(4) by (simp add: on_track_def)
  ultimately have "on_track tid key (set want) t" using worker_runs_on_track [OF assms(5,1) _ _ assms(6)] by blast
  with assms(7) show ?thesis by (simp add: on_track_def)
qed

theorem concurrent_reconcile_reaches_wanted_hosts_witness:
  "\<exists>s t. runs (worker_step sorted_iter log_start) (start_pool_system example_pool example_world)
       [LReconcile 0 ''src'' [''10.0.0.1'']] s \<and>
     runs (worker_step sorted_iter log_start) s [LWork 0, LWork 0, LReconcile 1 ''other'' [''10.0.0.1''], LWork 0, LWork 0, LWork 0] t \<and>
     connected (pool t) ''src'' = {''10.0.0.1''}"
proof -
  obtain s t newCb oldCb where s: "runs (worker_step sorted_iter log_start) (start_pool_system example_pool example_world)
       [LReconcile 0 ''src'' [''10.0.0.1'']] s" "at s 0 (PReconcile ''src'' [''10.0.0.1''] newCb oldCb)"
    "runs (worker_step sorted_iter log_start) s [LWork 0, LWork 0, LReconcile 1 ''other'' [''10.0.0.1''], LWork 0, LWork 0, LWork 0] t"
    "at t 0 (PTasks ''src'' [])" using reconcile_beside_dial by blast
  from concurrent_reconcile_reaches_wanted_hosts [OF enumerates_sorted_iter _ s(1) [unfolded example_pool_def] s(2,3) _ s(4)] s(1,3)
  show ?thesis by (auto simp: example_world_def)
qed

end
