(* ===== verification/Spec2Isabelle.thy ===== *)
theory Spec2Isabelle
  imports Message Async_Command Message_Queue Base_Connection Notification_Store Handlers Service Connection_Pool Pod_Ip_Getter
    Cert_Controller Tls_Config Client_Connection Server_Connection
    Stream_Decoder Session_Termination Acked_Delivery Handler_Lock
    Reconnection Send_Timeout Caching_Concurrency Pool_Concurrency
begin

text \<open>
  A verification development of the Knative control protocol, the Go packages under \<open>src/pkg\<close>: a
  protocol by which a controller (control plane) sends commands to the pods of a data plane over TCP
  or TLS, each message being acknowledged, and by which the pods notify the controller.

  \<^bold>\<open>The program and how its parts interact.\<close>  A \<^emph>\<open>message\<close> has a header of 24 bytes and a payload.  A
  \<^emph>\<open>base connection\<close> owns two unbounded queues and runs, on one \<open>net.Conn\<close> after the other, three
  goroutines that write, read, and close the \<open>net.Conn\<close>.  The \<^emph>\<open>client\<close> dials and redials, the
  \<^emph>\<open>server\<close> accepts; both put a \<^emph>\<open>service\<close> on top, which sends a message and waits for its ack, and
  hands arriving messages to a handler.  Handlers route by opcode, run asynchronous commands and
  report their results.  On the side of the controller, a \<^emph>\<open>connection pool\<close> keeps the services of a
  resource's pods, and a \<^emph>\<open>notification store\<close> keeps what they reported.  The \<^emph>\<open>certificates\<close>
  reconciler creates and rotates the certificates of both ends, inside a generated reconciler and a
  controller that decide when it runs; the TLS configurations are made from these certificates.

  \<^bold>\<open>Theories.\<close>  Each theory follows one or two files and keeps the names of the source.

  \<^item> \<open>Prelude\<close>: bytes, strings, decimal and big-endian integers, slices, errors, nested finite maps, runs of step relations.
    Go's \<open>error\<close> is \<open>go_error option\<close> (\<open>None\<close> is nil), a slice that may be nil is \<open>bytes option\<close>, a call
    that returns a value and an error is a sum, and a panic is an outer \<open>None\<close>.
  \<^item> \<open>Go_IO\<close>: \<open>io.Reader\<close> and \<open>io.Writer\<close> as the locales \<open>io_reader\<close> and \<open>io_writer\<close>, \<open>io.ReadAtLeast\<close>, and the
    scripted \<open>net.Conn\<close> on which they are interpreted: incoming bytes in arbitrary pieces, writes that
    may fail part way, closing.
  \<^item> \<open>Message\<close> (\<open>message.go\<close>): encoding and decoding over any reader and writer.  The round trip, what a
    truncated stream gives, the layout of the header.
  \<^item> \<open>Async_Command\<close> (\<open>message/async_command.go\<close>, \<open>async_command_result.go\<close>): the binary form of results,
    its round trip, and exactly when parsing panics.
  \<^item> \<open>Message_Queue\<close> (\<open>network/message_queue.go\<close>): the condition variable and one polling goroutine as a
    step relation; messages come out in order, a message is delivered, and the lost wake-up.  The
    locale \<open>fifo_queue\<close> is the contract of the queue.
  \<^item> \<open>Base_Connection\<close> (\<open>network/base_connection.go\<close>, \<open>errors.go\<close>): \<open>connRead\<close>, \<open>connWrite\<close> and the three
    goroutines of \<open>consumeConnection\<close>, one program counter each, with the users of the connection.  What
    arrives is a prefix of what was submitted; the ways in which a session can hang, go on without
    writing, or corrupt its stream.
  \<^item> \<open>Stream_Decoder\<close>: \<open>connRead\<close> is a reference decoder on the bytes that arrive, for arbitrary bytes; what a
    session hands out is well formed; a transient read error inside a message loses that message.
  \<^item> \<open>Session_Termination\<close>: a measure that every step of \<open>consumeConnection\<close> decreases, and the only states in
    which it stops without having returned, on a \<open>net.Conn\<close> whose incoming stream ends.  A peer that is silent for
    ever, on which the reader of the code blocks, is not among the scripts of \<open>Go_IO\<close>.
  \<^item> \<open>Endpoint\<close>, \<open>Client_Connection\<close>, \<open>Server_Connection\<close> (\<open>network/client_connection.go\<close>,
    \<open>server_connection.go\<close>, \<open>constants.go\<close>): the loops around \<open>consumeConnection\<close>.  The locale \<open>endpoint\<close>
    carries the conservation of messages over the life of an endpoint, and is interpreted by both;
    bounds on redialling, giving up, stopping (the accept loop takes at most five steps after a cancellation), the listening port.
  \<^item> \<open>Reconnection\<close>: a client and a server over their whole lives, as histories of connections; each connection carries a
    prefix of what was written on it.  What is received over all of them is a subsequence of what was submitted, and the
    one way in which a message is delivered twice.  The locale \<open>session_endpoint\<close> extends \<open>endpoint\<close> and is interpreted by both.
  \<^item> \<open>Service_Message\<close> (\<open>service.go\<close>), \<open>Handlers\<close> (\<open>service/built_in_handlers.go\<close>, \<open>message_router.go\<close>,
    \<open>service_caching_wrapper.go\<close>, \<open>async_command_handler.go\<close>): handlers as functions on a state and a world,
    and wrappers of services as functions on services.
  \<^item> \<open>Caching_Concurrency\<close> (\<open>service/service_caching_wrapper.go\<close>): the caching service with concurrent senders and payloads behind
    pointers; what it suppresses was acked before, and when it suppresses too much.
  \<^item> \<open>Service\<close> (\<open>service/service.go\<close>): any number of senders, both polling goroutines and the goroutines of
    \<open>accept\<close> and \<open>acceptError\<close> over the table of awaited acks and the ack channels.  A send returns what was acked or a
    timeout; every entry of the table is that of a running call; no panic while acks are not repeated, and a panic when they are.
  \<^item> \<open>Send_Timeout\<close> (\<open>service/service.go\<close>): the service with a clock; a send times out after fifteen seconds, not before, and
    no call needs longer than that.  Every run of \<open>Service\<close> is a timed run, and every timed run one of \<open>Service\<close>.
  \<^item> \<open>Acked_Delivery\<close>: two services over two linked connections; a message whose send was acked has been
    handled by the peer exactly once.
  \<^item> \<open>Handler_Lock\<close> (\<open>service/service.go\<close>): the read-write lock around the message handler, which \<open>Service\<close> takes
    as single steps; no handler is replaced while it runs, and one that replaces itself deadlocks.
  \<^item> \<open>Notification_Store\<close> (\<open>reconciler/notification_store.go\<close>, \<open>async_command_notification_store.go\<close>): the
    nested map, refined to a flat map by the locale \<open>keyed_store\<close>; correlation of commands and results.
  \<^item> \<open>Connection_Pool\<close>, \<open>Pod_Ip_Getter\<close> (\<open>reconciler/connection_pool.go\<close>, \<open>connection_pool_option.go\<close>,
    \<open>pod_ip_getter.go\<close>): the pool with the contexts of its connections; no leak along any sequence of
    operations, reconciliation reaches the wanted hosts, the pool follows the pods.
  \<^item> \<open>Pool_Concurrency\<close> (\<open>reconciler/connection_pool.go\<close>): the calls of the pool split at their locked regions and interleaved.
    Calls left alone compute what \<open>Connection_Pool\<close> says; no leak and the wanted hosts while no two calls dial for one key,
    and the leak when two do.
  \<^item> \<open>Certificates\<close> (\<open>certificates/*.go\<close>), \<open>Cert_Reconciler\<close>, \<open>Secret_Reconciler\<close>, \<open>Cert_Controller\<close>
    (\<open>certificates/reconciler/*.go\<close>): creation, parsing and validation of certificates; reconciliation
    converges and rotates in time; options, finalizers and dispatch; an event on the CA enqueues every labelled secret, whose
    reconciliation then keeps, renews or reports it, and a CA without the component's label is not seen.
  \<^item> \<open>Tls_Config\<close> (\<open>network/tls.go\<close>, \<open>reconciler/tls_dialer_factory.go\<close>): the configurations, and which
    certificates the two ends accept from each other.

  \<^bold>\<open>Concurrency.\<close>  Goroutines are labelled \<open>inductive\<close> step relations with a program counter for each
  goroutine; one step is one access to shared state (a locked region, a channel operation, a call on
  the \<open>net.Conn\<close>), and theorems quantify over all runs.  Where a mutex covers a whole operation
  (notification store, removals from the pool) the operation is one function.  The labels record what happened; the field
  \<open>made_for\<close> of an ack channel is a ghost that no step reads.

  \<^bold>\<open>Bounds and termination.\<close>  No definition uses fuel.  Loops are structural recursions, except
  \<open>readLoop\<close> of \<open>Go_IO\<close>, a \<open>partial_function (option)\<close> that is proved to return for every reader that
  satisfies its contract.  Lengths on the wire are 32-bit words and wrap; messages below 4 GiB
  (\<open>wf_message\<close>) are those whose length field is right.  The error channel holds ten errors, redialling
  makes ten attempts and the first dial five, as in the code; times are integers in nanoseconds.

  \<^bold>\<open>Parameters.\<close>  Cryptography (\<open>crypto\<close> with \<open>crypto_ok\<close>, for which \<open>toy_crypto\<close> is an instance), the
  Kubernetes client, lister, recorder, work queue and leader election, dialers and listeners, the file
  system, the order of iteration over Go maps (\<open>iter\<close> with \<open>enumerates iter\<close>), identifiers from
  \<open>uuid.New\<close>, and the clock.

  \<^bold>\<open>Not modelled.\<close>  Logging and the loggers in contexts; TLS itself, beyond the check of names; the real
  time between two dials (the timer is a step that may happen); deadlines of contexts, which end by cancellation, and cancellation of the
  caller's context above those the pool makes; spare capacity of slices (a payload has none); how long ago a poll looked at its
  context, so that \<open>ReadMessage\<close> may hand out messages after the cancellation; the lock of the error handler,
  which has the form of the message handler's; the scheme registration in \<open>init\<close> of \<open>controller_impl.go\<close>, which only wires
  library code; \<open>doc.go\<close>, \<open>hack\<close>, the mocks under \<open>pkg/test\<close> and the programs under \<open>test\<close>.

  The property below spans the path of a command's failure from the handler in the data plane to the
  query in the controller.
\<close>

section \<open>The path of a command's result\<close>

lemma acr_fits_of_marshaled: "length (MarshalBinary r) < 2 ^ 32 \<Longrightarrow> acr_fits r"
  by (auto simp: acr_fits_def MarshalBinary_acr_encode acr_encode_def IsFailed_def split: if_splits)

lemma MarshalBinary_not_Nil: "MarshalBinary r \<noteq> []"
  by (simp add: MarshalBinary_acr_encode acr_encode_def PutUint32_def)

lemma Async_MessageHandler_stores:
  assumes "ns_inv n" and "payloadParser n = asyncResultParser" and "acr_fits r"
    and "payload (inboundMessage m) = Some (MarshalBinary r)"
  shows "\<exists>n' changed. Async_MessageHandler src pod m (n, w) =
      Some (n', if changed then enqueueKey n' src (Ack m w) else Ack m w) \<and> enqueueKey n' = enqueueKey n \<and>
    (\<forall>command. GetCommandResult n' src pod command = Some (if CommandId r = command then Some r else None))"
proof -
  let ?op = "Notify src pod PassNewValue (Some r)"
  obtain changed n' where st: "storeNewValue n src pod PassNewValue (Some r) = (changed, n')" by fastforce
  then have n': "n' = ns_step ?op n" by simp
  have inv: "ns_inv n'" unfolding n' by (rule ns.step_inv [OF assms(1)])
  have "ns_view n' src pod = Some r"
    unfolding n' using ns.step_view [OF assms(1), of ?op] by (simp add: merged_def PassNewValue_def)
  then have "GetCommandResult n' src pod command = Some (if CommandId r = command then Some r else None)" for command
    unfolding GetCommandResult_def GetPodNotification_view [OF inv] by simp
  moreover have "enqueueKey n' = enqueueKey n"
    using st storeNewValue_eq [OF assms(1), of src pod PassNewValue "Some r"] by (auto simp: Let_def)
  moreover have "Async_MessageHandler src pod m (n, w) =
      Some (n', if changed then enqueueKey n' src (Ack m w) else Ack m w)"
    using st assms(2-4) asyncResultParser_MarshalBinary [of r]
    by (simp add: Async_MessageHandler_def NotificationStore_MessageHandler_def ServiceMessage_Payload_def Let_def)
  ultimately show ?thesis by blast
qed

text \<open>
  C17. A failure travels from the data plane to the controller: when the handler of a command
  reports an error, the service builds a message for the result; whoever reads the bytes of this
  message from a connection, in any pieces, and hands it to the notification store of the
  controller, finds under the command's identifier, and under no other, a result with that
  identifier and the text of the error; and the message is acknowledged under its own identifier.
\<close>

theorem command_failure_reaches_controller:
  fixes b :: baseTcpConnection
  assumes "r = \<lparr>CommandId = sid cmd, Error = error_text e\<rparr>" and "length (MarshalBinary r) < 2 ^ 32"
    and "opc \<noteq> AckOpCode" and "length u = 16"
    and "SendAndWaitForAck_start u opc (Some (result_marshaler r)) = Inr msg"
    and "conn_avail c = encode msg @ rest"
    and "ns_inv n" and "payloadParser n = asyncResultParser"
  shows "NotifyFailed sid \<lparr>serviceMessage = sm, parsedCommand = cmd, ac_service = send, resultOpCode = opc\<rparr> (Some e) w =
      snd (send opc (Some (result_marshaler r)) w) \<and>
    (\<exists>m c' n' changed. connRead c = Some (Inr m, c') \<and> conn_avail c' = rest \<and>
       Async_MessageHandler src pod (NewServiceMessage m (service_ackFunc m)) (n, b) =
         Some (n', (if changed then enqueueKey n src else id) (WriteMessage b (newAckMessage u None))) \<and>
       (\<forall>command. GetCommandResult n' src pod command = Some (if sid cmd = command then Some r else None)))"
proof -
  have msg: "msg = NewMessage u opc (Some (MarshalBinary r)) []"
    using assms(3,5) by (simp add: SendAndWaitForAck_start_def result_marshaler_def sendBinary_start_def)
  have "wf_message msg" unfolding msg using assms(2,4) by (intro wf_NewMessage) simp_all
  from connRead_encode [OF this assms(6)] obtain c' where
    rd: "connRead c = Some (Inr (as_received msg), c')" "conn_avail c' = rest" by blast
  have m: "as_received msg = msg" "payload msg = Some (MarshalBinary r)" "UUID (header msg) = u"
    by (simp_all add: msg as_received_def NewMessage_def MarshalBinary_not_Nil UUID_def)
  let ?sm = "NewServiceMessage msg (service_ackFunc msg)"
  have "payload (inboundMessage ?sm) = Some (MarshalBinary r)" using m(2) by (simp add: NewServiceMessage_def)
  from Async_MessageHandler_stores [OF assms(7,8) acr_fits_of_marshaled [OF assms(2)] this, of src pod b]
  obtain n' changed where h: "Async_MessageHandler src pod ?sm (n, b) =
      Some (n', if changed then enqueueKey n' src (Ack ?sm b) else Ack ?sm b)" "enqueueKey n' = enqueueKey n"
    "\<And>command. GetCommandResult n' src pod command = Some (if CommandId r = command then Some r else None)"
    by blast
  have "Ack ?sm b = WriteMessage b (newAckMessage u None)"
    using m(3) by (simp add: Ack_def NewServiceMessage_def service_ackFunc_def)
  with h rd m(1) assms(1) show ?thesis
    by (intro conjI exI [of _ msg] exI [of _ c'] exI [of _ n'] exI [of _ changed])
       (simp_all add: NotifyFailed_def)
qed

theorem command_failure_reaches_controller_witness:
  "\<exists>r msg m c' n' b'. r = \<lparr>CommandId = Int64CommandId 7, Error = ''boom''\<rparr> \<and>
     SendAndWaitForAck_start (replicate 16 1) 5 (Some (result_marshaler r)) = Inr msg \<and>
     connRead (new_conn [encode msg]) = Some (Inr m, c') \<and>
     Async_MessageHandler (''ns'', ''src'') ''10.0.0.1'' (NewServiceMessage m (service_ackFunc m))
       (NewAsyncCommandNotificationStore (\<lambda>key w. w), newBaseTcpConnection) = Some (n', b') \<and>
     GetCommandResult n' (''ns'', ''src'') ''10.0.0.1'' (Int64CommandId 7) = Some (Some r)"
proof -
  let ?r = "\<lparr>CommandId = Int64CommandId 7, Error = error_text (ErrorString ''boom'')\<rparr>"
  let ?n = "NewAsyncCommandNotificationStore (\<lambda>key w. w) :: baseTcpConnection asyncCommandNotificationStoreImpl"
  have len: "length (MarshalBinary ?r) < 2 ^ 32"
    by (simp add: MarshalBinary_acr_encode acr_encode_def Int64CommandId_def)
  obtain msg where msg: "SendAndWaitForAck_start (replicate 16 1) 5 (Some (result_marshaler ?r)) = Inr msg"
    by (simp add: SendAndWaitForAck_start_def result_marshaler_def sendBinary_start_def AckOpCode_eq)
  have avail: "conn_avail (new_conn [encode msg]) = encode msg @ []" by simp
  have store: "ns_inv ?n" "payloadParser ?n = asyncResultParser"
    using ns_inv_New(2) by (simp_all add: NewAsyncCommandNotificationStore_def)
  have "\<exists>m c' n' changed. connRead (new_conn [encode msg]) = Some (Inr m, c') \<and> conn_avail c' = [] \<and>
      Async_MessageHandler (''ns'', ''src'') ''10.0.0.1'' (NewServiceMessage m (service_ackFunc m)) (?n, newBaseTcpConnection) =
        Some (n', (if changed then enqueueKey ?n (''ns'', ''src'') else id)
                    (WriteMessage newBaseTcpConnection (newAckMessage (replicate 16 1) None))) \<and>
      (\<forall>command. GetCommandResult n' (''ns'', ''src'') ''10.0.0.1'' command =
         Some (if Int64CommandId 7 = command then Some ?r else None))"
    by (rule command_failure_reaches_controller [where sid = "\<lambda>_. Int64CommandId 7" and cmd = "()"
          and e = "ErrorString ''boom''", OF refl len _ _ msg avail store, THEN conjunct2])
       (simp_all add: AckOpCode_eq)
  then show ?thesis using msg by auto
qed

end
